(* ===== verification/Prelude.thy ===== *)
theory Prelude
  imports Main "HOL-Library.Word"
begin

text \<open>
  Shared vocabulary of the development: the machine-integer types of the Rust
  atomics (\<open>AtomicU32\<close> and \<open>AtomicUsize\<close> on a 64-bit target), thread
  identifiers, the collection of step-evaluation rules, and generic lemmas on
  lists updated by index that every invariant proof of the interleaving model
  uses (the per-thread program counters are a list indexed by thread id).
\<close>

type_synonym u32 = "32 word"
type_synonym usize = "64 word"
type_synonym tid = nat

named_theorems step_simps "rules that evaluate one atomic step of the model"

subsection \<open>Counting list elements across an update\<close>

lemma length_filter_update:
  assumes "i < length xs"
  shows "length (filter P (xs[i := x])) + (if P (xs ! i) then 1 else 0)
         = length (filter P xs) + (if P x then 1 else 0)"
  using assms
proof (induction xs arbitrary: i)
  case Nil
  then show ?case by simp
next
  case (Cons y ys)
  then show ?case by (cases i) auto
qed

lemma length_filter_update_same:
  "i < length xs \<Longrightarrow> P (xs ! i) = P x \<Longrightarrow>
   length (filter P (xs[i := x])) = length (filter P xs)"
  using length_filter_update [of i xs P x] by (simp split: if_splits)

lemma length_filter_update_in:
  "i < length xs \<Longrightarrow> \<not> P (xs ! i) \<Longrightarrow> P x \<Longrightarrow>
   length (filter P (xs[i := x])) = Suc (length (filter P xs))"
  using length_filter_update [of i xs P x] by simp

lemma length_filter_update_out:
  "i < length xs \<Longrightarrow> P (xs ! i) \<Longrightarrow> \<not> P x \<Longrightarrow>
   Suc (length (filter P (xs[i := x]))) = length (filter P xs)"
  using length_filter_update [of i xs P x] by simp

lemma length_filter_pos:
  "i < length xs \<Longrightarrow> P (xs ! i) \<Longrightarrow> 0 < length (filter P xs)"
  by (metis filter_empty_conv length_greater_0_conv nth_mem)

subsection \<open>Indices of the list elements with a property\<close>

lemma nth_update_cases:
  "j < length xs \<Longrightarrow> xs[i := x] ! j = (if i = j then x else xs ! j)"
  by simp

end
