(* ===== verification/Condvar.thy ===== *)
theory Condvar
  imports Prelude
begin

text \<open>
  The \<open>Condvar\<close> struct of \<open>src/src/cond_var.rs\<close> and the atomic operations its
  methods perform on it, one definition per source line. Both fields are Rust
  atomics accessed with \<open>Relaxed\<close> ordering: \<open>counter\<close> is an \<open>AtomicU32\<close>
  (a \<open>32 word\<close>, \<open>fetch_add\<close> wraps), \<open>num_waiters\<close> an \<open>AtomicUsize\<close>
  (a \<open>64 word\<close>, \<open>fetch_add\<close> and \<open>fetch_sub\<close> wrap). The methods themselves are
  sequences of these steps interleaved with the steps of other threads; they are
  put together in theory \<open>Interleaving\<close>.
\<close>

record condvar =
  counter :: u32
  num_waiters :: usize

text \<open>\<open>Condvar::new\<close> (lines 13--18).\<close>

definition condvar_new :: condvar where
  "condvar_new = \<lparr>counter = 0, num_waiters = 0\<rparr>"

text \<open>
  \<open>self.num_waiters.load(Relaxed) > 0\<close>, the guard of \<open>notify_one\<close> (line 21)
  and of \<open>notify_all\<close> (line 27).
\<close>

definition has_waiters :: "condvar \<Rightarrow> bool" where
  "has_waiters c \<longleftrightarrow> 0 < num_waiters c"

text \<open>\<open>self.counter.fetch_add(1, Relaxed)\<close> (lines 22 and 28): wraps at \<open>2^32\<close>.\<close>

definition bump_counter :: "condvar \<Rightarrow> condvar" where
  "bump_counter c = c\<lparr>counter := counter c + 1\<rparr>"

text \<open>\<open>self.num_waiters.fetch_add(1, Relaxed)\<close> (line 34).\<close>

definition register_waiter :: "condvar \<Rightarrow> condvar" where
  "register_waiter c = c\<lparr>num_waiters := num_waiters c + 1\<rparr>"

text \<open>\<open>self.counter.load(Relaxed)\<close> (line 35): the snapshot of the generation.\<close>

definition snapshot :: "condvar \<Rightarrow> u32" where
  "snapshot c = counter c"

text \<open>\<open>self.num_waiters.fetch_sub(1, Relaxed)\<close> (line 42): wraps below 0.\<close>

definition deregister_waiter :: "condvar \<Rightarrow> condvar" where
  "deregister_waiter c = c\<lparr>num_waiters := num_waiters c - 1\<rparr>"

lemmas condvar_ops_defs [step_simps] =
  has_waiters_def bump_counter_def register_waiter_def snapshot_def deregister_waiter_def

subsection \<open>Properties of the single operations\<close>

lemma condvar_new_idle: "\<not> has_waiters condvar_new"
  by (simp add: condvar_new_def has_waiters_def)

text \<open>The generation always changes when it is bumped, also at the wrap.\<close>

lemma bump_counter_changes: "counter (bump_counter c) \<noteq> counter c"
  by (simp add: bump_counter_def)

lemma bump_counter_wraps:
  "counter c = - 1 \<Longrightarrow> counter (bump_counter c) = 0"
  by (simp add: bump_counter_def)

lemma unat_bump_counter:
  "unat (counter (bump_counter c)) = (unat (counter c) + 1) mod 2 ^ 32"
  by (simp add: bump_counter_def unat_word_ariths)

lemma bump_counter_num_waiters [simp]:
  "num_waiters (bump_counter c) = num_waiters c"
  by (simp add: bump_counter_def)

lemma register_deregister [simp]: "deregister_waiter (register_waiter c) = c"
  by (simp add: register_waiter_def deregister_waiter_def)

lemma register_waiter_counter [simp]: "counter (register_waiter c) = counter c"
  by (simp add: register_waiter_def)

lemma deregister_waiter_counter [simp]: "counter (deregister_waiter c) = counter c"
  by (simp add: deregister_waiter_def)

end
