(* ===== verification/Futex.thy ===== *)
theory Futex
  imports Prelude
begin

text \<open>
  The wait/wake primitive the condition variable calls: \<open>atomic_wait::wait\<close>,
  \<open>wake_one\<close> and \<open>wake_all\<close> on the address of \<open>counter\<close>. The crate is a
  dependency, not code of the repository, so it is modelled from its contract in
  the spec (section 6): the state of the primitive for one address is the queue of
  threads blocked on it, in the order in which they blocked. \<open>wait\<close> compares and
  enqueues in one atomic step; \<open>wake_one\<close> unblocks one blocked thread, which one is
  unspecified, so the model takes the choice as an argument; \<open>wake_all\<close> unblocks
  them all. Both wakes are no-ops on an empty queue.
\<close>

type_synonym futex_queue = "tid list"

text \<open>
  \<open>wait(addr, expected)\<close> for thread \<open>t\<close>: blocks (\<open>True\<close>, \<open>t\<close> enqueued) iff
  the current value equals \<open>expected\<close>, else returns at once.
\<close>

definition futex_wait :: "u32 \<Rightarrow> u32 \<Rightarrow> tid \<Rightarrow> futex_queue \<Rightarrow> bool \<times> futex_queue" where
  "futex_wait cur expected t q = (if cur = expected then (True, q @ [t]) else (False, q))"

text \<open>
  \<open>wake_one(addr)\<close>, waking the blocked thread \<open>w\<close>: the result is the thread
  woken, if any, and the queue left. A choice that is not blocked wakes nobody;
  the interleaving model only offers choices from the queue.
\<close>

definition futex_wake_one :: "tid \<Rightarrow> futex_queue \<Rightarrow> tid option \<times> futex_queue" where
  "futex_wake_one w q = (if w \<in> set q then (Some w, remove1 w q) else (None, q))"

text \<open>\<open>wake_all(addr)\<close>: every blocked thread is woken; the queue is left empty.\<close>

definition futex_wake_all :: "futex_queue \<Rightarrow> tid list \<times> futex_queue" where
  "futex_wake_all q = (q, [])"

lemmas futex_defs [step_simps] = futex_wait_def futex_wake_one_def futex_wake_all_def

subsection \<open>The contract\<close>

lemma futex_wait_blocks_iff:
  "fst (futex_wait cur expected t q) \<longleftrightarrow> cur = expected"
  by (simp add: futex_wait_def)

lemma futex_wait_queue:
  "set (snd (futex_wait cur expected t q)) =
     (if cur = expected then insert t (set q) else set q)"
  by (simp add: futex_wait_def)

lemma futex_wake_one_queue:
  "distinct q \<Longrightarrow> w \<in> set q \<Longrightarrow>
   futex_wake_one w q = (Some w, remove1 w q) \<and> length (remove1 w q) = length q - 1 \<and>
   set (remove1 w q) = set q - {w}"
  by (simp add: futex_wake_one_def length_remove1)

lemma futex_wake_one_empty: "futex_wake_one w [] = (None, [])"
  by (simp add: futex_wake_one_def)

lemma futex_wake_all_empties: "snd (futex_wake_all q) = [] \<and> fst (futex_wake_all q) = q"
  by (simp add: futex_wake_all_def)

end
