(* ===== verification/Mutex.thy ===== *)
theory Mutex
  imports Prelude
begin

text \<open>
  The mutex of \<open>crate::locks\<close> whose guard \<open>Condvar::wait\<close> consumes and
  re-creates. Its source is not among the files given here, so it is modelled from
  the collaborator contract of the spec (section 6): the lock state is the thread
  holding its guard, if any; \<open>lock()\<close> blocks while another thread holds it and
  otherwise makes the caller the holder; dropping the guard releases it.
\<close>

type_synonym mutex = "tid option"

text \<open>\<open>Mutex::lock\<close>: \<open>None\<close> while the call blocks, else the new lock state.\<close>

definition mutex_lock :: "tid \<Rightarrow> mutex \<Rightarrow> mutex option" where
  "mutex_lock t m = (case m of None \<Rightarrow> Some (Some t) | Some _ \<Rightarrow> None)"

text \<open>\<open>drop(guard)\<close>: the guard's destructor unlocks the mutex.\<close>

definition mutex_unlock :: "mutex \<Rightarrow> mutex" where
  "mutex_unlock m = None"

lemmas mutex_defs [step_simps] = mutex_lock_def mutex_unlock_def

lemma mutex_lock_Some_iff: "mutex_lock t m = Some m' \<longleftrightarrow> m = None \<and> m' = Some t"
  by (cases m) (auto simp: mutex_lock_def)

lemma mutex_lock_blocks: "m = Some u \<Longrightarrow> mutex_lock t m = None"
  by (simp add: mutex_lock_def)

end
