(* ===== verification/Interleaving.thy ===== *)
theory Interleaving
  imports Condvar Futex Mutex
begin

text \<open>
  The concurrent semantics of \<open>Condvar\<close>: any number of threads, numbered
  \<open>0 ..< length (pcs s)\<close>, share one condition variable, the futex queue of its
  \<open>counter\<close> and one mutex. Every atomic source line of \<open>wait\<close>, \<open>notify_one\<close>
  and \<open>notify_all\<close> is one step of its thread, and the threads' steps interleave
  in any order (sequential consistency; theory \<open>Relaxed\<close> runs the same lines under
  the \<open>Relaxed\<close> orderings). A thread's program counter says
  which line of which method it executes next; \<open>Idle\<close> is client code outside
  the condition variable, which may lock and unlock the mutex and call the methods.
\<close>

datatype kind = One | All

text \<open>
  Program counters, named after the source line executed next:
  \<^item> \<open>Wait_Load\<close>: line 35, after the \<open>fetch_add\<close> of line 34;
  \<^item> \<open>Wait_Drop v\<close>: lines 37--38, with the snapshot \<open>v\<close> of \<open>counter\<close>;
  \<^item> \<open>Wait_Futex v\<close>: line 40, the guard dropped;
  \<^item> \<open>Wait_Blocked v\<close>: inside \<open>atomic_wait::wait\<close>, blocked;
  \<^item> \<open>Wait_Dec\<close>: line 42, \<open>wait\<close> has returned (woken, spuriously or not);
  \<^item> \<open>Wait_Lock\<close>: line 44, \<open>mutex.lock()\<close>;
  \<^item> \<open>Notify_Inc k\<close>: line 22 / 28, waiters were seen;
  \<^item> \<open>Notify_Wake k\<close>: line 23 / 29.
\<close>

datatype pc =
    Idle
  | Wait_Load
  | Wait_Drop u32
  | Wait_Futex u32
  | Wait_Blocked u32
  | Wait_Dec
  | Wait_Lock
  | Notify_Inc kind
  | Notify_Wake kind

record sys =
  cv :: condvar
  futex :: futex_queue
  lock :: mutex
  pcs :: "pc list"

text \<open>\<open>n\<close> threads in client code, a fresh \<open>Condvar::new()\<close>, a free mutex.\<close>

definition sys_init :: "nat \<Rightarrow> sys" where
  "sys_init n = \<lparr>cv = condvar_new, futex = [], lock = None, pcs = replicate n Idle\<rparr>"

definition set_pc :: "tid \<Rightarrow> pc \<Rightarrow> sys \<Rightarrow> sys" where
  "set_pc t p s = s\<lparr>pcs := (pcs s)[t := p]\<rparr>"

text \<open>The threads a wake returns from \<open>atomic_wait::wait\<close> go on at line 42.\<close>

fun wake_threads :: "tid list \<Rightarrow> sys \<Rightarrow> sys" where
  "wake_threads [] s = s"
| "wake_threads (w # ws) s = wake_threads ws (set_pc w Wait_Dec s)"

subsection \<open>The methods, one equation per atomic line\<close>

text \<open>
  Entering \<open>wait\<close> (line 34): the caller hands over its guard, so it must hold
  the mutex; \<open>num_waiters\<close> is incremented.
\<close>

definition wait_entry :: "tid \<Rightarrow> sys \<Rightarrow> sys option" where
  "wait_entry t s =
     (if pcs s ! t = Idle \<and> lock s = Some t
      then Some (set_pc t Wait_Load (s\<lparr>cv := register_waiter (cv s)\<rparr>)) else None)"

text \<open>
  Entering \<open>notify_one\<close> / \<open>notify_all\<close> (line 21 / 27): the relaxed load of
  \<open>num_waiters\<close>; with no waiter seen the call returns at once.
\<close>

definition notify_entry :: "kind \<Rightarrow> tid \<Rightarrow> sys \<Rightarrow> sys option" where
  "notify_entry k t s =
     (if pcs s ! t = Idle
      then Some (if has_waiters (cv s) then set_pc t (Notify_Inc k) s else s) else None)"

text \<open>
  The next line of a thread inside a method. \<open>None\<close>: the thread cannot move
  (blocked in the futex, blocked on the mutex, or \<open>wake_one\<close> on a non-empty
  queue, which needs the choice of the thread to wake: \<open>wake_one_step\<close>).
\<close>

fun exec_pc :: "tid \<Rightarrow> pc \<Rightarrow> sys \<Rightarrow> sys option" where
  "exec_pc t Idle s = None"
| "exec_pc t Wait_Load s = Some (set_pc t (Wait_Drop (snapshot (cv s))) s)"
| "exec_pc t (Wait_Drop v) s = Some (set_pc t (Wait_Futex v) (s\<lparr>lock := mutex_unlock (lock s)\<rparr>))"
| "exec_pc t (Wait_Futex v) s =
     (case futex_wait (counter (cv s)) v t (futex s) of
        (blocked, q) \<Rightarrow> Some (set_pc t (if blocked then Wait_Blocked v else Wait_Dec) (s\<lparr>futex := q\<rparr>)))"
| "exec_pc t (Wait_Blocked v) s = None"
| "exec_pc t Wait_Dec s = Some (set_pc t Wait_Lock (s\<lparr>cv := deregister_waiter (cv s)\<rparr>))"
| "exec_pc t Wait_Lock s = map_option (\<lambda>m. set_pc t Idle (s\<lparr>lock := m\<rparr>)) (mutex_lock t (lock s))"
| "exec_pc t (Notify_Inc k) s = Some (set_pc t (Notify_Wake k) (s\<lparr>cv := bump_counter (cv s)\<rparr>))"
| "exec_pc t (Notify_Wake One) s = (if futex s = [] then Some (set_pc t Idle s) else None)"
| "exec_pc t (Notify_Wake All) s =
     (case futex_wake_all (futex s) of (ws, q) \<Rightarrow> Some (set_pc t Idle (wake_threads ws (s\<lparr>futex := q\<rparr>))))"

text \<open>\<open>wake_one(&self.counter)\<close> (line 23) waking the blocked thread \<open>w\<close>.\<close>

definition wake_one_step :: "tid \<Rightarrow> tid \<Rightarrow> sys \<Rightarrow> sys option" where
  "wake_one_step t w s =
     (if pcs s ! t = Notify_Wake One then
        (case futex_wake_one w (futex s) of
           (Some w', q) \<Rightarrow> Some (set_pc t Idle (set_pc w' Wait_Dec (s\<lparr>futex := q\<rparr>)))
         | (None, q) \<Rightarrow> None)
      else None)"

subsection \<open>Events and the step function\<close>

text \<open>
  A step is one thread's atomic action: client code locking or unlocking the mutex
  or calling a method, the next line of a method, a \<open>wake_one\<close> with its choice,
  or a spurious return of \<open>atomic_wait::wait\<close>, which its contract allows.
\<close>

datatype event =
    Lock tid
  | Unlock tid
  | Call_wait tid
  | Call_notify tid kind
  | Exec tid
  | Wake tid tid
  | Spurious tid

fun step :: "sys \<Rightarrow> event \<Rightarrow> sys option" where
  "step s (Lock t) =
     (if t < length (pcs s) \<and> pcs s ! t = Idle
      then map_option (\<lambda>m. s\<lparr>lock := m\<rparr>) (mutex_lock t (lock s)) else None)"
| "step s (Unlock t) =
     (if t < length (pcs s) \<and> pcs s ! t = Idle \<and> lock s = Some t
      then Some (s\<lparr>lock := mutex_unlock (lock s)\<rparr>) else None)"
| "step s (Call_wait t) = (if t < length (pcs s) then wait_entry t s else None)"
| "step s (Call_notify t k) = (if t < length (pcs s) then notify_entry k t s else None)"
| "step s (Exec t) = (if t < length (pcs s) then exec_pc t (pcs s ! t) s else None)"
| "step s (Wake t w) = (if t < length (pcs s) then wake_one_step t w s else None)"
| "step s (Spurious w) =
     (if w < length (pcs s) \<and> w \<in> set (futex s)
      then Some (set_pc w Wait_Dec (s\<lparr>futex := remove1 w (futex s)\<rparr>)) else None)"

text \<open>A schedule is a list of events, run from left to right; \<open>None\<close>: a step was not enabled.\<close>

fun run :: "sys \<Rightarrow> event list \<Rightarrow> sys option" where
  "run s [] = Some s"
| "run s (e # es) = (case step s e of None \<Rightarrow> None | Some s' \<Rightarrow> run s' es)"

inductive reachable :: "sys \<Rightarrow> bool" where
  init: "reachable (sys_init n)"
| step: "reachable s \<Longrightarrow> step s e = Some s' \<Longrightarrow> reachable s'"

subsection \<open>Basic facts\<close>

lemma set_pc_simps [simp]:
  "cv (set_pc t p s) = cv s" "futex (set_pc t p s) = futex s" "lock (set_pc t p s) = lock s"
  "pcs (set_pc t p s) = (pcs s)[t := p]"
  by (simp_all add: set_pc_def)

lemma wake_threads_simps [simp]:
  "cv (wake_threads ws s) = cv s" "futex (wake_threads ws s) = futex s"
  "lock (wake_threads ws s) = lock s" "length (pcs (wake_threads ws s)) = length (pcs s)"
  by (induction ws arbitrary: s) simp_all

lemma wake_threads_nth:
  "j < length (pcs s) \<Longrightarrow>
   pcs (wake_threads ws s) ! j = (if j \<in> set ws then Wait_Dec else pcs s ! j)"
  by (induction ws arbitrary: s) auto

lemma run_append:
  "run s (es @ es') = (case run s es of None \<Rightarrow> None | Some s' \<Rightarrow> run s' es')"
  by (induction es arbitrary: s) (auto split: option.splits)

lemma run_reachable: "reachable s \<Longrightarrow> run s es = Some s' \<Longrightarrow> reachable s'"
proof (induction es arbitrary: s)
  case Nil
  then show ?case by simp
next
  case (Cons e es)
  then obtain s1 where "step s e = Some s1" and "run s1 es = Some s'"
    by (auto split: option.splits)
  with Cons show ?case by (blast intro: reachable.step)
qed

lemma reachable_run: "reachable s \<Longrightarrow> \<exists>n es. run (sys_init n) es = Some s"
proof (induction rule: reachable.induct)
  case (init n)
  show ?case by (rule exI [of _ n], rule exI [of _ "[]"]) simp
next
  case (step s e s')
  then obtain n es where "run (sys_init n) es = Some s" by blast
  with step.hyps(2) have "run (sys_init n) (es @ [e]) = Some s'"
    by (simp add: run_append)
  then show ?case by blast
qed

lemma exec_pc_length: "exec_pc t p s = Some s' \<Longrightarrow> length (pcs s') = length (pcs s)"
  by (cases "(t, p, s)" rule: exec_pc.cases)
    (auto simp: step_simps split: if_splits option.splits prod.splits list.splits)

lemma step_length: "step s e = Some s' \<Longrightarrow> length (pcs s') = length (pcs s)"
  by (cases e)
    (auto simp: wait_entry_def notify_entry_def wake_one_step_def step_simps exec_pc_length
      split: if_splits option.splits prod.splits)

end
