(* ===== verification/Invariants.thy ===== *)
theory Invariants
  imports Interleaving
begin

text \<open>
  The invariant of the interleaving model and its proof by rule induction over the
  reachable states. Three parts: \<open>num_waiters\<close> equals (modulo \<open>2^64\<close>) the
  number of threads between line 34 and line 42 of \<open>wait\<close>; the futex queue holds
  exactly the blocked threads, each once; a thread before the \<open>drop(guard)\<close> of
  line 38 holds the mutex, and a thread after it does not. Each kind of step has its
  preservation lemma; \<open>step_inv\<close> puts them together. Facts whose conclusion is
  \<open>lock s = Some t\<close> are applied explicitly (\<open>lock_invD\<close>), never given to the
  simplifier, which would use them to rewrite \<open>lock s\<close>.
\<close>

text \<open>Thread classes: counted in \<open>num_waiters\<close> (lines 34--42).\<close>

fun registered :: "pc \<Rightarrow> bool" where
  "registered Wait_Load = True"
| "registered (Wait_Drop v) = True"
| "registered (Wait_Futex v) = True"
| "registered (Wait_Blocked v) = True"
| "registered Wait_Dec = True"
| "registered _ = False"

fun blocked :: "pc \<Rightarrow> bool" where
  "blocked (Wait_Blocked v) = True"
| "blocked _ = False"

fun holds_guard :: "pc \<Rightarrow> bool" where
  "holds_guard Wait_Load = True"
| "holds_guard (Wait_Drop v) = True"
| "holds_guard _ = False"

fun released :: "pc \<Rightarrow> bool" where
  "released (Wait_Futex v) = True"
| "released (Wait_Blocked v) = True"
| "released Wait_Dec = True"
| "released Wait_Lock = True"
| "released _ = False"

definition waiters_inv :: "sys \<Rightarrow> bool" where
  "waiters_inv s \<longleftrightarrow> num_waiters (cv s) = of_nat (length (filter registered (pcs s)))"

definition queue_inv :: "sys \<Rightarrow> bool" where
  "queue_inv s \<longleftrightarrow> distinct (futex s) \<and>
     set (futex s) = {t. t < length (pcs s) \<and> blocked (pcs s ! t)}"

definition lock_inv :: "sys \<Rightarrow> bool" where
  "lock_inv s \<longleftrightarrow>
     (\<forall>t < length (pcs s). holds_guard (pcs s ! t) \<longrightarrow> lock s = Some t) \<and>
     (\<forall>t. lock s = Some t \<longrightarrow> t < length (pcs s) \<and> \<not> released (pcs s ! t))"

definition sys_inv :: "sys \<Rightarrow> bool" where
  "sys_inv s \<longleftrightarrow> waiters_inv s \<and> queue_inv s \<and> lock_inv s"

text \<open>What \<open>wake_all\<close> does to one program counter.\<close>

definition unblock :: "pc \<Rightarrow> pc" where
  "unblock p = (if blocked p then Wait_Dec else p)"

text \<open>Two program counters in the same thread classes.\<close>

definition same_class :: "pc \<Rightarrow> pc \<Rightarrow> bool" where
  "same_class p q \<longleftrightarrow> registered p = registered q \<and> blocked p = blocked q \<and>
     holds_guard p = holds_guard q \<and> released p = released q"

lemma blocked_registered: "blocked p \<Longrightarrow> registered p"
  by (cases p) simp_all

lemma sys_inv_init: "sys_inv (sys_init n)"
  by (simp add: sys_inv_def waiters_inv_def queue_inv_def lock_inv_def sys_init_def condvar_new_def)

lemma waiters_inv_set_pc_same:
  "waiters_inv s \<Longrightarrow> t < length (pcs s) \<Longrightarrow> registered (pcs s ! t) = registered p \<Longrightarrow>
   waiters_inv (set_pc t p s)"
  by (simp add: waiters_inv_def length_filter_update_same)

lemma inv_frame [simp]:
  "waiters_inv (s\<lparr>lock := m\<rparr>) = waiters_inv s"
  "queue_inv (s\<lparr>lock := m\<rparr>) = queue_inv s"
  "queue_inv (s\<lparr>cv := c\<rparr>) = queue_inv s"
  "lock_inv (s\<lparr>cv := c\<rparr>) = lock_inv s"
  "lock_inv (s\<lparr>futex := q\<rparr>) = lock_inv s"
  "waiters_inv (s\<lparr>futex := q\<rparr>) = waiters_inv s"
  by (simp_all add: waiters_inv_def queue_inv_def lock_inv_def)

lemma queue_inv_set_pc_same:
  "queue_inv s \<Longrightarrow> t < length (pcs s) \<Longrightarrow> blocked (pcs s ! t) = blocked p \<Longrightarrow>
   queue_inv (set_pc t p s)"
  unfolding queue_inv_def by (auto simp: nth_list_update)

lemma lock_invI:
  "(\<And>j. j < length (pcs s) \<Longrightarrow> holds_guard (pcs s ! j) \<Longrightarrow> lock s = Some j) \<Longrightarrow>
   (\<And>j. lock s = Some j \<Longrightarrow> j < length (pcs s) \<and> \<not> released (pcs s ! j)) \<Longrightarrow> lock_inv s"
  unfolding lock_inv_def by blast

lemma lock_invD:
  "lock_inv s \<Longrightarrow> j < length (pcs s) \<Longrightarrow> holds_guard (pcs s ! j) \<Longrightarrow> lock s = Some j"
  "lock_inv s \<Longrightarrow> lock s = Some j \<Longrightarrow> j < length (pcs s)"
  "lock_inv s \<Longrightarrow> lock s = Some j \<Longrightarrow> \<not> released (pcs s ! j)"
  unfolding lock_inv_def by blast+

lemma lock_inv_set_pc:
  assumes inv: "lock_inv s" and t: "t < length (pcs s)"
    and g: "holds_guard p \<Longrightarrow> lock s = Some t" and r: "lock s = Some t \<Longrightarrow> \<not> released p"
  shows "lock_inv (set_pc t p s)"
proof (rule lock_invI)
  fix j assume j: "j < length (pcs (set_pc t p s))" and hg: "holds_guard (pcs (set_pc t p s) ! j)"
  show "lock (set_pc t p s) = Some j"
  proof (cases "j = t")
    case True
    with hg t g show ?thesis by simp
  next
    case False
    with hg j have "holds_guard (pcs s ! j)" by simp
    with j inv show ?thesis by (simp add: lock_invD(1))
  qed
next
  fix j assume "lock (set_pc t p s) = Some j"
  then have h: "lock s = Some j" by simp
  show "j < length (pcs (set_pc t p s)) \<and> \<not> released (pcs (set_pc t p s) ! j)"
  proof (cases "j = t")
    case True
    with h r t show ?thesis by simp
  next
    case False
    with h inv show ?thesis by (simp add: lock_invD(2,3))
  qed
qed

lemma lock_inv_release:
  assumes inv: "lock_inv s" and t: "t < length (pcs s)" and hg: "holds_guard (pcs s ! t)"
    and p: "\<not> holds_guard p"
  shows "lock_inv (set_pc t p (s\<lparr>lock := None\<rparr>))"
proof (rule lock_invI)
  have holder: "lock s = Some t" using inv t hg by (rule lock_invD(1))
  fix j assume j: "j < length (pcs (set_pc t p (s\<lparr>lock := None\<rparr>)))"
    and hj: "holds_guard (pcs (set_pc t p (s\<lparr>lock := None\<rparr>)) ! j)"
  show "lock (set_pc t p (s\<lparr>lock := None\<rparr>)) = Some j"
  proof (cases "j = t")
    case True
    with hj p t show ?thesis by simp
  next
    case False
    with hj j have "holds_guard (pcs s ! j)" by simp
    with j inv have "lock s = Some j" by (simp add: lock_invD(1))
    with holder False show ?thesis by simp
  qed
qed simp

lemma lock_inv_acquire:
  "lock_inv s \<Longrightarrow> lock s = None \<Longrightarrow> t < length (pcs s) \<Longrightarrow> \<not> holds_guard p \<Longrightarrow> \<not> released p \<Longrightarrow>
   lock_inv (set_pc t p (s\<lparr>lock := Some t\<rparr>))"
  unfolding lock_inv_def by (auto simp: nth_list_update)

lemma lock_inv_no_guard:
  "lock_inv s \<Longrightarrow> lock s = Some t \<Longrightarrow> t < length (pcs s) \<Longrightarrow> \<not> holds_guard (pcs s ! t) \<Longrightarrow>
   j < length (pcs s) \<Longrightarrow> \<not> holds_guard (pcs s ! j)"
  unfolding lock_inv_def by (metis option.inject)

lemma step_Lock_inv: "sys_inv s \<Longrightarrow> step s (Lock t) = Some s' \<Longrightarrow> sys_inv s'"
  apply (clarsimp simp: sys_inv_def mutex_lock_Some_iff split: if_splits)
  apply (simp add: lock_inv_def)
  done

lemma step_Unlock_inv: "sys_inv s \<Longrightarrow> step s (Unlock t) = Some s' \<Longrightarrow> sys_inv s'"
  apply (clarsimp simp: sys_inv_def mutex_unlock_def split: if_splits)
  apply (simp add: lock_inv_def)
  apply (metis holds_guard.simps(3) option.inject)
  done

lemma waiters_inv_enter:
  "waiters_inv s \<Longrightarrow> t < length (pcs s) \<Longrightarrow> \<not> registered (pcs s ! t) \<Longrightarrow> registered p \<Longrightarrow>
   waiters_inv (set_pc t p (s\<lparr>cv := register_waiter (cv s)\<rparr>))"
  by (simp add: waiters_inv_def register_waiter_def length_filter_update_in)

lemma waiters_inv_leave:
  assumes "waiters_inv s" and "t < length (pcs s)" and "registered (pcs s ! t)" and "\<not> registered p"
  shows "waiters_inv (set_pc t p (s\<lparr>cv := deregister_waiter (cv s)\<rparr>))"
proof -
  from assms(2-4) have "Suc (length (filter registered ((pcs s)[t := p]))) = length (filter registered (pcs s))"
    by (rule length_filter_update_out)
  with assms(1) have "num_waiters (cv s) = of_nat (Suc (length (filter registered ((pcs s)[t := p]))))"
    by (simp add: waiters_inv_def)
  then show ?thesis
    by (simp add: waiters_inv_def deregister_waiter_def)
qed

lemma queue_inv_block:
  "queue_inv s \<Longrightarrow> t < length (pcs s) \<Longrightarrow> \<not> blocked (pcs s ! t) \<Longrightarrow> blocked p \<Longrightarrow>
   queue_inv (set_pc t p (s\<lparr>futex := futex s @ [t]\<rparr>))"
  unfolding queue_inv_def by (auto simp: nth_list_update)

lemma queue_inv_unblock:
  "queue_inv s \<Longrightarrow> w \<in> set (futex s) \<Longrightarrow> \<not> blocked p \<Longrightarrow>
   queue_inv (set_pc w p (s\<lparr>futex := remove1 w (futex s)\<rparr>))"
  unfolding queue_inv_def by (auto simp: nth_list_update)

lemma unblock_preds [simp]:
  "registered (unblock p) = registered p" "blocked (unblock p) = False"
  "holds_guard (unblock p) = holds_guard p" "released (unblock p) = released p"
  by (cases p; simp add: unblock_def)+

lemma pcs_wake_all:
  assumes "queue_inv s"
  shows "pcs (wake_threads (futex s) (s\<lparr>futex := q\<rparr>)) = map unblock (pcs s)"
proof (rule nth_equalityI)
  fix j assume "j < length (pcs (wake_threads (futex s) (s\<lparr>futex := q\<rparr>)))"
  with assms show "pcs (wake_threads (futex s) (s\<lparr>futex := q\<rparr>)) ! j = map unblock (pcs s) ! j"
    by (simp add: wake_threads_nth queue_inv_def unblock_def)
qed simp

lemma sys_inv_wake_all:
  assumes "sys_inv s"
  shows "sys_inv (s\<lparr>futex := [], pcs := map unblock (pcs s)\<rparr>)"
proof -
  from assms have "waiters_inv (s\<lparr>futex := [], pcs := map unblock (pcs s)\<rparr>)"
    by (simp add: sys_inv_def waiters_inv_def comp_def)
  moreover have "queue_inv (s\<lparr>futex := [], pcs := map unblock (pcs s)\<rparr>)"
    by (simp add: queue_inv_def)
  moreover from assms have L: "lock_inv s" by (simp add: sys_inv_def)
  have "lock_inv (s\<lparr>futex := [], pcs := map unblock (pcs s)\<rparr>)"
  proof (rule lock_invI)
    fix j assume "j < length (pcs (s\<lparr>futex := [], pcs := map unblock (pcs s)\<rparr>))"
      and "holds_guard (pcs (s\<lparr>futex := [], pcs := map unblock (pcs s)\<rparr>) ! j)"
    then have "j < length (pcs s)" and "holds_guard (pcs s ! j)" by simp_all
    from lock_invD(1) [OF L this] show "lock (s\<lparr>futex := [], pcs := map unblock (pcs s)\<rparr>) = Some j"
      by simp
  next
    fix j assume "lock (s\<lparr>futex := [], pcs := map unblock (pcs s)\<rparr>) = Some j"
    then have "lock s = Some j" by simp
    from lock_invD(2,3) [OF L this]
    show "j < length (pcs (s\<lparr>futex := [], pcs := map unblock (pcs s)\<rparr>)) \<and>
      \<not> released (pcs (s\<lparr>futex := [], pcs := map unblock (pcs s)\<rparr>) ! j)"
      by simp
  qed
  ultimately show ?thesis by (simp add: sys_inv_def)
qed

lemma sys_inv_same:
  assumes "sys_inv s" and t: "t < length (pcs s)" and "same_class (pcs s ! t) p"
  shows "sys_inv (set_pc t p s)"
proof -
  from assms have L: "lock_inv s" and c: "same_class (pcs s ! t) p" by (simp_all add: sys_inv_def)
  have "lock_inv (set_pc t p s)"
  proof (rule lock_inv_set_pc [OF L t])
    assume "holds_guard p"
    with c have "holds_guard (pcs s ! t)" by (simp add: same_class_def)
    from lock_invD(1) [OF L t this] show "lock s = Some t" .
  next
    assume "lock s = Some t"
    from lock_invD(3) [OF L this] c show "\<not> released p" by (simp add: same_class_def)
  qed
  with assms show ?thesis
    by (simp add: sys_inv_def same_class_def waiters_inv_set_pc_same queue_inv_set_pc_same)
qed

lemma sys_inv_unblock:
  assumes "sys_inv s" and w: "w \<in> set (futex s)"
  shows "sys_inv (set_pc w Wait_Dec (s\<lparr>futex := remove1 w (futex s)\<rparr>))"
proof -
  from assms have Q: "queue_inv s" and L: "lock_inv s" and W: "waiters_inv s"
    by (simp_all add: sys_inv_def)
  from Q w have wl: "w < length (pcs s)" and b: "blocked (pcs s ! w)" by (auto simp: queue_inv_def)
  from b have "registered (pcs s ! w)" and "released (pcs s ! w)" and "\<not> holds_guard (pcs s ! w)"
    by (cases "pcs s ! w"; simp)+
  then have "lock_inv (set_pc w Wait_Dec (s\<lparr>futex := remove1 w (futex s)\<rparr>))"
    using lock_invD(3) [OF L] by (intro lock_inv_set_pc) (auto simp: wl L)
  moreover from W wl \<open>registered (pcs s ! w)\<close>
  have "waiters_inv (set_pc w Wait_Dec (s\<lparr>futex := remove1 w (futex s)\<rparr>))"
    by (simp add: waiters_inv_def length_filter_update_same)
  moreover from Q w have "queue_inv (set_pc w Wait_Dec (s\<lparr>futex := remove1 w (futex s)\<rparr>))"
    by (simp add: queue_inv_unblock)
  ultimately show ?thesis by (simp add: sys_inv_def)
qed

lemma wake_threads_eq: "wake_threads ws s = s\<lparr>pcs := pcs (wake_threads ws s)\<rparr>"
  by (induction ws arbitrary: s) (simp_all add: set_pc_def)

lemma step_Call_wait_inv: "sys_inv s \<Longrightarrow> step s (Call_wait t) = Some s' \<Longrightarrow> sys_inv s'"
proof -
  assume inv: "sys_inv s" and st: "step s (Call_wait t) = Some s'"
  then have t: "t < length (pcs s)" and idle: "pcs s ! t = Idle" and h: "lock s = Some t"
    and s': "s' = set_pc t Wait_Load (s\<lparr>cv := register_waiter (cv s)\<rparr>)"
    by (auto simp: wait_entry_def split: if_splits)
  from inv have L: "lock_inv s" by (simp add: sys_inv_def)
  have "lock_inv s'" unfolding s' by (rule lock_inv_set_pc) (simp_all add: L t h)
  with inv t idle show ?thesis
    by (simp add: s' sys_inv_def waiters_inv_enter queue_inv_set_pc_same)
qed

lemma step_Call_notify_inv: "sys_inv s \<Longrightarrow> step s (Call_notify t k) = Some s' \<Longrightarrow> sys_inv s'"
  by (auto simp: notify_entry_def same_class_def intro: sys_inv_same split: if_splits)

lemma sys_inv_cv_frame:
  "num_waiters c = num_waiters (cv s) \<Longrightarrow> sys_inv (s\<lparr>cv := c\<rparr>) = sys_inv s"
  by (simp add: sys_inv_def waiters_inv_def)

lemma exec_pc_inv:
  assumes inv: "sys_inv s" and t: "t < length (pcs s)" and ex: "exec_pc t (pcs s ! t) s = Some s'"
  shows "sys_inv s'"
proof -
  from inv have W: "waiters_inv s" and Q: "queue_inv s" and L: "lock_inv s"
    by (simp_all add: sys_inv_def)
  show ?thesis
  proof (cases "pcs s ! t")
    case Idle
    with ex show ?thesis by simp
  next
    case Wait_Load
    with ex have "s' = set_pc t (Wait_Drop (snapshot (cv s))) s" by simp
    with inv t Wait_Load show ?thesis by (simp add: sys_inv_same same_class_def)
  next
    case (Wait_Drop v)
    with ex have s': "s' = set_pc t (Wait_Futex v) (s\<lparr>lock := None\<rparr>)"
      by (simp add: mutex_unlock_def)
    have "lock_inv s'" unfolding s' by (rule lock_inv_release [OF L t]) (simp_all add: Wait_Drop)
    moreover from W t Wait_Drop have "waiters_inv s'"
      unfolding s' by (intro waiters_inv_set_pc_same) simp_all
    moreover from Q t Wait_Drop have "queue_inv s'"
      unfolding s' by (intro queue_inv_set_pc_same) simp_all
    ultimately show ?thesis by (simp add: sys_inv_def)
  next
    case (Wait_Futex v)
    show ?thesis
    proof (cases "counter (cv s) = v")
      case True
      with ex Wait_Futex have s': "s' = set_pc t (Wait_Blocked v) (s\<lparr>futex := futex s @ [t]\<rparr>)"
        by (simp add: futex_wait_def)
      have "lock s \<noteq> Some t" using lock_invD(3) [OF L] Wait_Futex by fastforce
      then have "lock_inv s'" unfolding s' by (intro lock_inv_set_pc) (simp_all add: L t)
      moreover from W t Wait_Futex have "waiters_inv s'"
        unfolding s' by (intro waiters_inv_set_pc_same) simp_all
      moreover from Q t Wait_Futex have "queue_inv s'"
        unfolding s' by (intro queue_inv_block) simp_all
      ultimately show ?thesis by (simp add: sys_inv_def)
    next
      case False
      with ex Wait_Futex have "s' = set_pc t Wait_Dec s" by (simp add: futex_wait_def)
      with inv t Wait_Futex show ?thesis by (simp add: sys_inv_same same_class_def)
    qed
  next
    case (Wait_Blocked v)
    with ex show ?thesis by simp
  next
    case Wait_Dec
    with ex have s': "s' = set_pc t Wait_Lock (s\<lparr>cv := deregister_waiter (cv s)\<rparr>)" by simp
    have "lock s \<noteq> Some t" using lock_invD(3) [OF L] Wait_Dec by fastforce
    then have "lock_inv s'" unfolding s' by (intro lock_inv_set_pc) (simp_all add: L t)
    moreover from W t Wait_Dec have "waiters_inv s'"
      unfolding s' by (intro waiters_inv_leave) simp_all
    moreover from Q t Wait_Dec have "queue_inv s'"
      unfolding s' by (intro queue_inv_set_pc_same) simp_all
    ultimately show ?thesis by (simp add: sys_inv_def)
  next
    case Wait_Lock
    with ex have free: "lock s = None" and s': "s' = set_pc t Idle (s\<lparr>lock := Some t\<rparr>)"
      by (auto simp: mutex_lock_Some_iff)
    have "lock_inv s'" unfolding s' by (rule lock_inv_acquire [OF L free t]) simp_all
    moreover from W t Wait_Lock have "waiters_inv s'"
      unfolding s' by (intro waiters_inv_set_pc_same) simp_all
    moreover from Q t Wait_Lock have "queue_inv s'"
      unfolding s' by (intro queue_inv_set_pc_same) simp_all
    ultimately show ?thesis by (simp add: sys_inv_def)
  next
    case (Notify_Inc k)
    with ex have s': "s' = set_pc t (Notify_Wake k) (s\<lparr>cv := bump_counter (cv s)\<rparr>)" by simp
    from inv have "sys_inv (s\<lparr>cv := bump_counter (cv s)\<rparr>)" by (simp add: sys_inv_cv_frame)
    with t Notify_Inc show ?thesis unfolding s' by (intro sys_inv_same) (simp_all add: same_class_def)
  next
    case (Notify_Wake k)
    show ?thesis
    proof (cases k)
      case One
      with ex Notify_Wake have "s' = set_pc t Idle s" by (simp split: if_splits)
      with inv t Notify_Wake show ?thesis by (simp add: sys_inv_same same_class_def)
    next
      case All
      with ex Notify_Wake have "s' = set_pc t Idle (wake_threads (futex s) (s\<lparr>futex := []\<rparr>))"
        by (simp add: futex_wake_all_def)
      also have "\<dots> = set_pc t Idle (s\<lparr>futex := [], pcs := map unblock (pcs s)\<rparr>)"
        by (subst wake_threads_eq) (simp add: pcs_wake_all [OF Q])
      finally have s': "s' = set_pc t Idle (s\<lparr>futex := [], pcs := map unblock (pcs s)\<rparr>)" .
      from inv have "sys_inv (s\<lparr>futex := [], pcs := map unblock (pcs s)\<rparr>)" by (rule sys_inv_wake_all)
      with t Notify_Wake All show ?thesis
        unfolding s' by (intro sys_inv_same) (simp_all add: same_class_def unblock_def)
    qed
  qed
qed

lemma step_Wake_inv: "sys_inv s \<Longrightarrow> step s (Wake t w) = Some s' \<Longrightarrow> sys_inv s'"
proof -
  assume inv: "sys_inv s" and st: "step s (Wake t w) = Some s'"
  from st have t: "t < length (pcs s)" and ws: "wake_one_step t w s = Some s'"
    by (simp_all split: if_splits)
  from ws have nt: "pcs s ! t = Notify_Wake One" and w: "w \<in> set (futex s)"
    and s': "s' = set_pc t Idle (set_pc w Wait_Dec (s\<lparr>futex := remove1 w (futex s)\<rparr>))"
    by (simp_all add: wake_one_step_def futex_wake_one_def split: if_splits)
  from inv have "queue_inv s" by (simp add: sys_inv_def)
  with w have "blocked (pcs s ! w)" by (simp add: queue_inv_def)
  with nt have "t \<noteq> w" by auto
  from inv w have I: "sys_inv (set_pc w Wait_Dec (s\<lparr>futex := remove1 w (futex s)\<rparr>))"
    by (rule sys_inv_unblock)
  show ?thesis unfolding s'
  proof (rule sys_inv_same [OF I])
    show "t < length (pcs (set_pc w Wait_Dec (s\<lparr>futex := remove1 w (futex s)\<rparr>)))"
      using t by simp
    show "same_class (pcs (set_pc w Wait_Dec (s\<lparr>futex := remove1 w (futex s)\<rparr>)) ! t) Idle"
      using nt \<open>t \<noteq> w\<close> by (simp add: same_class_def)
  qed
qed

lemma step_Spurious_inv: "sys_inv s \<Longrightarrow> step s (Spurious w) = Some s' \<Longrightarrow> sys_inv s'"
  by (auto simp: sys_inv_unblock split: if_splits)

lemma step_inv:
  assumes "sys_inv s" and "step s e = Some s'"
  shows "sys_inv s'"
proof (cases e)
  case (Lock t)
  from assms show ?thesis unfolding Lock by (rule step_Lock_inv)
next
  case (Unlock t)
  from assms show ?thesis unfolding Unlock by (rule step_Unlock_inv)
next
  case (Call_wait t)
  from assms show ?thesis unfolding Call_wait by (rule step_Call_wait_inv)
next
  case (Call_notify t k)
  from assms show ?thesis unfolding Call_notify by (rule step_Call_notify_inv)
next
  case (Exec t)
  from assms(2) have "t < length (pcs s)" and "exec_pc t (pcs s ! t) s = Some s'"
    by (simp_all add: Exec split: if_splits)
  with assms(1) show ?thesis by (rule exec_pc_inv)
next
  case (Wake t w)
  from assms show ?thesis unfolding Wake by (rule step_Wake_inv)
next
  case (Spurious w)
  from assms show ?thesis unfolding Spurious by (rule step_Spurious_inv)
qed

theorem reachable_sys_inv: "reachable s \<Longrightarrow> sys_inv s"
proof (induction rule: reachable.induct)
  case (init n)
  show ?case by (rule sys_inv_init)
next
  case (step s e s')
  then show ?case by (blast intro: step_inv)
qed

end
