(* ===== verification/Properties.thy ===== *)
theory Properties
  imports Invariants
begin

text \<open>
  Properties of the interleaving model of \<open>Condvar\<close> that concern one run of the
  system: what \<open>notify_one\<close> and \<open>notify_all\<close> do to the blocked threads, that a
  notifier always sees a thread inside \<open>wait\<close>, the bounds of \<open>num_waiters\<close>, the
  lock discipline of \<open>wait\<close>, the per-thread state machine of the spec (section 4.1)
  as the relation \<open>pc_edge\<close>, and how \<open>counter\<close> evolves over a schedule
  (\<open>bumps\<close> counts the executed \<open>fetch_add\<close>s of lines 22 and 28). The concrete
  states \<open>demo_*\<close> are reachable states of two threads used by the witnesses.
\<close>

text \<open>The per-waiting-thread state machine of the spec, with the notifier's steps.\<close>

inductive pc_edge :: "pc \<Rightarrow> pc \<Rightarrow> bool" where
  call_wait: "pc_edge Idle Wait_Load"
| load: "pc_edge Wait_Load (Wait_Drop v)"
| drop: "pc_edge (Wait_Drop v) (Wait_Futex v)"
| block: "pc_edge (Wait_Futex v) (Wait_Blocked v)"
| no_block: "pc_edge (Wait_Futex v) Wait_Dec"
| woken: "pc_edge (Wait_Blocked v) Wait_Dec"
| dec: "pc_edge Wait_Dec Wait_Lock"
| relock: "pc_edge Wait_Lock Idle"
| call_notify: "pc_edge Idle (Notify_Inc k)"
| bump: "pc_edge (Notify_Inc k) (Notify_Wake k)"
| wake: "pc_edge (Notify_Wake k) Idle"

fun is_inc :: "pc \<Rightarrow> bool" where
  "is_inc (Notify_Inc k) = True"
| "is_inc _ = False"

definition is_bump :: "sys \<Rightarrow> event \<Rightarrow> bool" where
  "is_bump s e = (case e of Exec t \<Rightarrow> t < length (pcs s) \<and> is_inc (pcs s ! t) | _ \<Rightarrow> False)"

fun bumps :: "sys \<Rightarrow> event list \<Rightarrow> nat" where
  "bumps s [] = 0"
| "bumps s (e # es) =
     (case step s e of None \<Rightarrow> 0 | Some s' \<Rightarrow> (if is_bump s e then 1 else 0) + bumps s' es)"

text \<open>
  Two threads: thread 0 has locked the mutex and called \<open>wait\<close>; then it has
  blocked in the futex; then thread 1 has called \<open>notify_*\<close> and bumped the counter.
\<close>

definition demo_waiting :: sys where
  "demo_waiting = \<lparr>cv = \<lparr>counter = 0, num_waiters = 1\<rparr>, futex = [], lock = Some 0,
     pcs = [Wait_Load, Idle]\<rparr>"

definition demo_blocked :: sys where
  "demo_blocked = \<lparr>cv = \<lparr>counter = 0, num_waiters = 1\<rparr>, futex = [0], lock = None,
     pcs = [Wait_Blocked 0, Idle]\<rparr>"

definition demo_notifying :: "kind \<Rightarrow> sys" where
  "demo_notifying k = \<lparr>cv = \<lparr>counter = 1, num_waiters = 1\<rparr>, futex = [0], lock = None,
     pcs = [Wait_Blocked 0, Notify_Wake k]\<rparr>"

code_pred pc_edge .

subsection \<open>Facts shared by the properties\<close>

lemma reachable_run_init: "run (sys_init n) es = Some s \<Longrightarrow> reachable s"
  by (rule run_reachable [OF reachable.init])

lemma reachable_waiters: "reachable s \<Longrightarrow> num_waiters (cv s) = of_nat (length (filter registered (pcs s)))"
  using reachable_sys_inv by (simp add: sys_inv_def waiters_inv_def)

lemma reachable_queue: "reachable s \<Longrightarrow> queue_inv s"
  using reachable_sys_inv by (simp add: sys_inv_def)

lemma reachable_lock: "reachable s \<Longrightarrow> lock_inv s"
  using reachable_sys_inv by (simp add: sys_inv_def)

lemma reachable_queue_blocked: "reachable s \<Longrightarrow> w \<in> set (futex s) \<Longrightarrow> w < length (pcs s) \<and> blocked (pcs s ! w)"
  using reachable_queue by (simp add: queue_inv_def)

lemma unat_num_waiters:
  "reachable s \<Longrightarrow> length (pcs s) < 2 ^ 64 \<Longrightarrow>
   unat (num_waiters (cv s)) = length (filter registered (pcs s))"
proof -
  assume r: "reachable s" and n: "length (pcs s) < 2 ^ 64"
  have "length (filter registered (pcs s)) < 2 ^ 64"
    using n length_filter_le [of registered "pcs s"] by linarith
  with reachable_waiters [OF r] show ?thesis by (simp add: unat_of_nat)
qed

lemma wake_all_result:
  "reachable s \<Longrightarrow> wake_threads (futex s) (s\<lparr>futex := []\<rparr>) = s\<lparr>futex := [], pcs := map unblock (pcs s)\<rparr>"
  by (subst wake_threads_eq) (simp add: pcs_wake_all [OF reachable_queue])

lemma wake_one_result:
  "pcs s ! t = Notify_Wake One \<Longrightarrow> w \<in> set (futex s) \<Longrightarrow>
   wake_one_step t w s = Some (s\<lparr>futex := remove1 w (futex s), pcs := (pcs s)[w := Wait_Dec, t := Idle]\<rparr>)"
  by (simp add: wake_one_step_def futex_wake_one_def set_pc_def)

lemma step_counter:
  "step s e = Some s' \<Longrightarrow> counter (cv s') = counter (cv s) + (if is_bump s e then 1 else 0)"
proof (cases e)
  case (Exec t)
  assume "step s e = Some s'"
  with Exec show ?thesis
    by (cases "(t, pcs s ! t, s)" rule: exec_pc.cases)
      (auto simp: is_bump_def step_simps split: if_splits prod.splits option.splits)
qed (auto simp: is_bump_def wait_entry_def notify_entry_def wake_one_step_def step_simps
       split: if_splits prod.splits option.splits)

lemma run_counter:
  "run s es = Some s' \<Longrightarrow> counter (cv s') = counter (cv s) + of_nat (bumps s es)"
proof (induction es arbitrary: s)
  case Nil
  then show ?case by simp
next
  case (Cons e es)
  then obtain s1 where s1: "step s e = Some s1" and r: "run s1 es = Some s'"
    by (auto split: option.splits)
  from Cons.IH [OF r] step_counter [OF s1] s1 show ?case by simp
qed

lemma run_length: "run s es = Some s' \<Longrightarrow> length (pcs s') = length (pcs s)"
proof (induction es arbitrary: s)
  case Nil
  then show ?case by simp
next
  case (Cons e es)
  then obtain s1 where s1: "step s e = Some s1" and r: "run s1 es = Some s'"
    by (auto split: option.splits)
  from Cons.IH [OF r] step_length [OF s1] show ?case by simp
qed

lemma bumps_append:
  "run s es = Some s1 \<Longrightarrow> bumps s (es @ es') = bumps s es + bumps s1 es'"
proof (induction es arbitrary: s)
  case Nil
  then show ?case by simp
next
  case (Cons e es)
  then obtain s2 where s2: "step s e = Some s2" and r: "run s2 es = Some s1"
    by (auto split: option.splits)
  from Cons.IH [OF r] s2 show ?case by simp
qed

text \<open>A thread between its snapshot (line 35) and its return from the futex keeps its
  program counter, and so its snapshot, while only the other threads step: they cannot
  wake it, since it is not in the queue.\<close>

lemma step_keeps_pending_pc:
  assumes si: "sys_inv s" and st: "step s e = Some s'" and ne: "e \<noteq> Exec w"
    and w: "w < length (pcs s)" and p: "pcs s ! w = Wait_Drop v \<or> pcs s ! w = Wait_Futex v"
  shows "pcs s' ! w = pcs s ! w"
proof -
  from si have "queue_inv s" by (simp add: sys_inv_def)
  then have "set (futex s) = {t. t < length (pcs s) \<and> blocked (pcs s ! t)}" by (simp add: queue_inv_def)
  moreover from p have "\<not> blocked (pcs s ! w)" by (elim disjE) simp_all
  ultimately have nq: "w \<notin> set (futex s)" by simp
  show ?thesis
  proof (cases e)
    case (Exec t)
    with ne have tw: "t \<noteq> w" by simp
    from Exec st have ex: "exec_pc t (pcs s ! t) s = Some s'" by (simp split: if_splits)
    show ?thesis
    proof (cases "pcs s ! t = Notify_Wake All")
      case True
      with ex have "s' = set_pc t Idle (wake_threads (futex s) (s\<lparr>futex := []\<rparr>))"
        by (simp add: futex_wake_all_def)
      with tw w nq show ?thesis by (simp add: wake_threads_nth)
    next
      case False
      with ex tw show ?thesis
        by (cases "(t, pcs s ! t, s)" rule: exec_pc.cases)
          (auto simp: step_simps split: if_splits option.splits prod.splits)
    qed
  next
    case (Wake t x)
    with st have nt: "pcs s ! t = Notify_Wake One" and x: "x \<in> set (futex s)"
      and s': "s' = set_pc t Idle (set_pc x Wait_Dec (s\<lparr>futex := remove1 x (futex s)\<rparr>))"
      by (simp_all add: wake_one_step_def futex_wake_one_def split: if_splits)
    from x nq have "x \<noteq> w" by auto
    moreover from nt p have "t \<noteq> w" by auto
    ultimately show ?thesis using s' by simp
  next
    case (Spurious x)
    with st have x: "x \<in> set (futex s)" and s': "s' = set_pc x Wait_Dec (s\<lparr>futex := remove1 x (futex s)\<rparr>)"
      by (simp_all split: if_splits)
    from x nq have "x \<noteq> w" by auto
    with s' show ?thesis by simp
  next
    case (Lock t)
    with st show ?thesis by (auto split: if_splits option.splits)
  next
    case (Unlock t)
    with st show ?thesis by (auto split: if_splits)
  next
    case (Call_wait t)
    with st have "pcs s ! t = Idle" and "pcs s' = (pcs s)[t := Wait_Load]"
      by (auto simp: wait_entry_def split: if_splits)
    with p show ?thesis by (cases "t = w") auto
  next
    case (Call_notify t k)
    with st have "pcs s ! t = Idle" and "pcs s' = (pcs s)[t := Notify_Inc k] \<or> pcs s' = pcs s"
      by (auto simp: notify_entry_def split: if_splits)
    with p show ?thesis by (cases "t = w") auto
  qed
qed

lemma run_keeps_pending_pc:
  "reachable s \<Longrightarrow> run s es = Some s' \<Longrightarrow> Exec w \<notin> set es \<Longrightarrow> w < length (pcs s) \<Longrightarrow>
   pcs s ! w = Wait_Drop v \<or> pcs s ! w = Wait_Futex v \<Longrightarrow> pcs s' ! w = pcs s ! w"
proof (induction es arbitrary: s)
  case Nil
  then show ?case by simp
next
  case (Cons e es)
  then obtain s1 where s1: "step s e = Some s1" and r: "run s1 es = Some s'"
    by (auto split: option.splits)
  from Cons.prems(3) have ne: "e \<noteq> Exec w" by auto
  from step_keeps_pending_pc [OF reachable_sys_inv [OF Cons.prems(1)] s1 ne Cons.prems(4,5)]
  have eq: "pcs s1 ! w = pcs s ! w" .
  from step_length [OF s1] Cons.prems(4) have "w < length (pcs s1)" by simp
  with Cons.IH [OF reachable.step [OF Cons.prems(1) s1] r] Cons.prems(3,5) eq show ?case by simp
qed

lemma blocked_edge: "blocked p \<Longrightarrow> pc_edge p Wait_Dec"
  by (cases p) (auto intro: pc_edge.intros)

lemma demo_waiting_run: "run (sys_init 2) [Lock 0, Call_wait 0] = Some demo_waiting"
  by (simp add: demo_waiting_def sys_init_def condvar_new_def step_simps wait_entry_def set_pc_def
      numeral_2_eq_2)

lemma demo_blocked_run: "run demo_waiting [Exec 0, Exec 0, Exec 0] = Some demo_blocked"
  by (simp add: demo_waiting_def demo_blocked_def step_simps set_pc_def)

lemma demo_notifying_run:
  "run demo_blocked [Call_notify 1 k, Exec 1] = Some (demo_notifying k)"
  by (simp add: demo_blocked_def demo_notifying_def step_simps notify_entry_def set_pc_def)

lemma demo_reachable:
  "reachable demo_waiting" "reachable demo_blocked" "reachable (demo_notifying k)"
proof -
  show w: "reachable demo_waiting" by (rule reachable_run_init [OF demo_waiting_run])
  show b: "reachable demo_blocked" by (rule run_reachable [OF w demo_blocked_run])
  show "reachable (demo_notifying k)" by (rule run_reachable [OF b demo_notifying_run])
qed

subsection \<open>Notification\<close>

text \<open>
  C2. A notifier never skips while a thread is inside \<open>wait\<close>: if some thread has
  passed line 34 and not yet line 42, the relaxed load of \<open>num_waiters\<close> in
  \<open>notify_one\<close> / \<open>notify_all\<close> sees a non-zero value (no wrap-around, for fewer than
  \<open>2^64\<close> threads) and the notifier goes on to bump \<open>counter\<close>.
\<close>

theorem notify_sees_waiter:
  "reachable s \<Longrightarrow> length (pcs s) < 2 ^ 64 \<Longrightarrow> w < length (pcs s) \<Longrightarrow> registered (pcs s ! w) \<Longrightarrow>
   t < length (pcs s) \<Longrightarrow> pcs s ! t = Idle \<Longrightarrow>
   step s (Call_notify t k) = Some (set_pc t (Notify_Inc k) s)"
proof -
  assume r: "reachable s" and n: "length (pcs s) < 2 ^ 64" and w: "w < length (pcs s)"
    and reg: "registered (pcs s ! w)" and t: "t < length (pcs s)" and idle: "pcs s ! t = Idle"
  from w reg have "0 < length (filter registered (pcs s))" by (rule length_filter_pos)
  with unat_num_waiters [OF r n] have "num_waiters (cv s) \<noteq> 0" by (metis unat_0 less_irrefl)
  with t idle show ?thesis by (simp add: notify_entry_def has_waiters_def word_gt_0)
qed

theorem notify_sees_waiter_witness:
  "reachable demo_waiting \<and> registered (pcs demo_waiting ! 0) \<and>
   step demo_waiting (Call_notify 1 All) = Some (set_pc 1 (Notify_Inc All) demo_waiting)"
  using demo_reachable(1) notify_sees_waiter [OF demo_reachable(1), of 0 1 All]
  by (simp add: demo_waiting_def)

text \<open>
  C3. The last line of \<open>notify_all\<close> (\<open>wake_all\<close>, line 29) empties the futex
  queue and lets every blocked thread return from \<open>atomic_wait::wait\<close>; no other
  thread changes.
\<close>

theorem notify_all_wakes_all:
  "reachable s \<Longrightarrow> t < length (pcs s) \<Longrightarrow> pcs s ! t = Notify_Wake All \<Longrightarrow>
   step s (Exec t) = Some (s\<lparr>futex := [], pcs := (map unblock (pcs s))[t := Idle]\<rparr>)"
  by (simp add: wake_all_result futex_wake_all_def set_pc_def)

theorem notify_all_wakes_all_witness:
  "reachable (demo_notifying All) \<and>
   step (demo_notifying All) (Exec 1) =
     Some \<lparr>cv = \<lparr>counter = 1, num_waiters = 1\<rparr>, futex = [], lock = None, pcs = [Wait_Dec, Idle]\<rparr>"
  using demo_reachable(3) [of All] notify_all_wakes_all [OF demo_reachable(3) [of All], of 1]
  by (simp add: demo_notifying_def unblock_def)

text \<open>
  C4. The last line of \<open>notify_one\<close> (\<open>wake_one\<close>, line 23) with a non-empty
  queue wakes exactly one blocked thread, the one chosen: it leaves the queue, which
  shrinks by one, and every other thread is unchanged.
\<close>

theorem notify_one_wakes_one:
  "reachable s \<Longrightarrow> t < length (pcs s) \<Longrightarrow> pcs s ! t = Notify_Wake One \<Longrightarrow> w \<in> set (futex s) \<Longrightarrow>
   blocked (pcs s ! w) \<and> length (remove1 w (futex s)) = length (futex s) - 1 \<and>
   step s (Wake t w) = Some (s\<lparr>futex := remove1 w (futex s), pcs := (pcs s)[w := Wait_Dec, t := Idle]\<rparr>)"
  by (simp add: reachable_queue_blocked wake_one_result length_remove1)

theorem notify_one_wakes_one_witness:
  "reachable (demo_notifying One) \<and>
   step (demo_notifying One) (Wake 1 0) =
     Some \<lparr>cv = \<lparr>counter = 1, num_waiters = 1\<rparr>, futex = [], lock = None, pcs = [Wait_Dec, Idle]\<rparr>"
  using demo_reachable(3) [of One] notify_one_wakes_one [OF demo_reachable(3) [of One], of 1 0]
  by (simp add: demo_notifying_def)

text \<open>
  C9. \<open>notify_one\<close> and \<open>notify_all\<close> never block: from any point inside them, at
  most two steps of the notifier (one \<open>Exec\<close> or \<open>Wake\<close> per remaining line) bring
  it back to client code.
\<close>

theorem notify_never_blocks:
  "reachable s \<Longrightarrow> t < length (pcs s) \<Longrightarrow> pcs s ! t = Notify_Inc k \<or> pcs s ! t = Notify_Wake k \<Longrightarrow>
   \<exists>es s'. length es \<le> 2 \<and> run s es = Some s' \<and> pcs s' ! t = Idle"
proof -
  assume r: "reachable s" and t: "t < length (pcs s)"
    and p: "pcs s ! t = Notify_Inc k \<or> pcs s ! t = Notify_Wake k"
  have wake: "\<exists>e s'. step s1 e = Some s' \<and> pcs s' ! t = Idle"
    if r1: "reachable s1" and t1: "t < length (pcs s1)" and w1: "pcs s1 ! t = Notify_Wake k" for s1
  proof (cases k)
    case One
    show ?thesis
    proof (cases "futex s1")
      case Nil
      with t1 w1 One show ?thesis by (intro exI [of _ "Exec t"]) simp
    next
      case (Cons w ws)
      with reachable_queue_blocked [OF r1, of w] w1 have "w \<noteq> t" by auto
      with Cons t1 w1 One show ?thesis by (intro exI [of _ "Wake t w"]) (simp add: wake_one_result)
    qed
  next
    case All
    with t1 w1 show ?thesis
      by (intro exI [of _ "Exec t"]) (simp add: wake_all_result [OF r1] futex_wake_all_def)
  qed
  from p show ?thesis
  proof
    assume inc: "pcs s ! t = Notify_Inc k"
    let ?s1 = "set_pc t (Notify_Wake k) (s\<lparr>cv := bump_counter (cv s)\<rparr>)"
    have s1: "step s (Exec t) = Some ?s1" using t inc by simp
    have "reachable ?s1" by (rule reachable.step [OF r s1])
    with wake [of ?s1] t obtain e s' where "step ?s1 e = Some s'" and "pcs s' ! t = Idle" by auto
    with s1 show ?thesis by (intro exI [of _ "[Exec t, e]"]) auto
  next
    assume "pcs s ! t = Notify_Wake k"
    from wake [OF r t this] obtain e s' where "step s e = Some s'" and "pcs s' ! t = Idle" by blast
    then show ?thesis by (intro exI [of _ "[e]"]) auto
  qed
qed

theorem notify_never_blocks_witness:
  "reachable (demo_notifying One) \<and> pcs (demo_notifying One) ! 1 = Notify_Wake One \<and>
   (\<exists>es s'. length es \<le> 2 \<and> run (demo_notifying One) es = Some s' \<and> pcs s' ! 1 = Idle)"
  using demo_reachable(3) [of One] notify_never_blocks [OF demo_reachable(3) [of One], of 1 One]
  by (simp add: demo_notifying_def)

text \<open>
  C10. With no waiter registered, \<open>notify_one\<close> and \<open>notify_all\<close> are no-ops: the
  whole system state is unchanged, so a waiter arriving later is not affected.
\<close>

theorem notify_no_waiters_noop:
  "t < length (pcs s) \<Longrightarrow> pcs s ! t = Idle \<Longrightarrow> num_waiters (cv s) = 0 \<Longrightarrow>
   step s (Call_notify t k) = Some s"
  by (simp add: notify_entry_def has_waiters_def)

theorem notify_no_waiters_noop_witness:
  "num_waiters (cv (sys_init 2)) = 0 \<and> step (sys_init 2) (Call_notify 0 One) = Some (sys_init 2)"
  using notify_no_waiters_noop [of 0 "sys_init 2" One]
  by (simp add: sys_init_def condvar_new_def)

subsection \<open>Invariants and the lock discipline\<close>

text \<open>
  C5. \<open>num_waiters\<close> never wraps: with fewer than \<open>2^64\<close> threads it is exactly
  the number of threads between line 34 and line 42 of \<open>wait\<close>, hence at most the
  number of threads (the spec's "never goes negative").
\<close>

theorem num_waiters_bounds:
  "reachable s \<Longrightarrow> length (pcs s) < 2 ^ 64 \<Longrightarrow>
   unat (num_waiters (cv s)) = length (filter registered (pcs s)) \<and>
   unat (num_waiters (cv s)) \<le> length (pcs s)"
  by (simp add: unat_num_waiters)

theorem num_waiters_bounds_witness:
  "reachable demo_waiting \<and> unat (num_waiters (cv demo_waiting)) = 1"
  using demo_reachable(1) num_waiters_bounds [OF demo_reachable(1)]
  by (simp add: demo_waiting_def)

text \<open>
  C6. The futex queue of \<open>counter\<close> holds exactly the threads blocked in line 40,
  each once.
\<close>

theorem futex_queue_blocked:
  "reachable s \<Longrightarrow> distinct (futex s) \<and> set (futex s) = {t. t < length (pcs s) \<and> blocked (pcs s ! t)}"
  using reachable_queue by (simp add: queue_inv_def)

theorem futex_queue_blocked_witness:
  "reachable demo_blocked \<and> set (futex demo_blocked) = {0}"
  using demo_reachable(2) futex_queue_blocked [OF demo_reachable(2)]
  by (simp add: demo_blocked_def)

text \<open>
  C7. The snapshot of line 35 is taken under the lock: from the \<open>fetch_add\<close> of
  line 34 until the guard is dropped at line 38 the waiting thread holds the mutex,
  so no notifier that changes the guarded state under the lock can run in between.
\<close>

theorem snapshot_under_lock:
  "reachable s \<Longrightarrow> t < length (pcs s) \<Longrightarrow> holds_guard (pcs s ! t) \<Longrightarrow> lock s = Some t"
  by (rule lock_invD(1) [OF reachable_lock])

theorem snapshot_under_lock_witness:
  "reachable demo_waiting \<and> holds_guard (pcs demo_waiting ! 0) \<and> lock demo_waiting = Some 0"
  using demo_reachable(1) snapshot_under_lock [OF demo_reachable(1), of 0]
  by (simp add: demo_waiting_def)

text \<open>
  C8. The lock is released while the waiter is blocked: from the drop of the guard
  (line 38) until \<open>mutex.lock()\<close> returns (line 44), the waiting thread does not hold
  the mutex.
\<close>

theorem released_not_holder:
  "reachable s \<Longrightarrow> w < length (pcs s) \<Longrightarrow> released (pcs s ! w) \<Longrightarrow> lock s \<noteq> Some w"
  using lock_invD(3) [OF reachable_lock] by blast

theorem released_not_holder_witness:
  "reachable demo_blocked \<and> released (pcs demo_blocked ! 0) \<and> lock demo_blocked \<noteq> Some 0 \<and>
   step demo_blocked (Lock 1) \<noteq> None"
  using demo_reachable(2) released_not_holder [OF demo_reachable(2), of 0]
  by (simp add: demo_blocked_def step_simps)

text \<open>
  C11. \<open>counter\<close> changes only at the \<open>fetch_add\<close> of \<open>notify_one\<close> /
  \<open>notify_all\<close> (lines 22 and 28), and then by exactly one, modulo \<open>2^32\<close>.
\<close>

theorem counter_only_bumped_by_notify:
  "step s e = Some s' \<Longrightarrow>
   counter (cv s') = counter (cv s) \<or>
   (\<exists>t k. e = Exec t \<and> t < length (pcs s) \<and> pcs s ! t = Notify_Inc k \<and> counter (cv s') = counter (cv s) + 1)"
proof -
  assume st: "step s e = Some s'"
  show ?thesis
  proof (cases "is_bump s e")
    case True
    then obtain t where e: "e = Exec t" and t: "t < length (pcs s)" and "is_inc (pcs s ! t)"
      by (auto simp: is_bump_def split: event.splits)
    then obtain k where "pcs s ! t = Notify_Inc k" by (cases "pcs s ! t") auto
    with step_counter [OF st] True e t show ?thesis by auto
  next
    case False
    with step_counter [OF st] show ?thesis by simp
  qed
qed

theorem counter_only_bumped_by_notify_witness:
  "step demo_blocked (Call_notify 1 All) = Some (set_pc 1 (Notify_Inc All) demo_blocked) \<and>
   counter (cv (set_pc 1 (Notify_Inc All) demo_blocked)) = counter (cv demo_blocked)"
proof -
  have st: "step demo_blocked (Call_notify 1 All) = Some (set_pc 1 (Notify_Inc All) demo_blocked)"
    by (simp add: demo_blocked_def notify_entry_def has_waiters_def)
  from counter_only_bumped_by_notify [OF st] st show ?thesis by simp
qed

subsection \<open>The per-thread state machine\<close>

text \<open>
  C12. Every step moves each thread along the state machine of the spec (section
  4.1): running, registered (lines 34--35), released (38), blocked (40), woken (42),
  reacquiring (44), running; or along \<open>notify_*\<close>; or leaves it where it is. The
  snapshot a thread carries is kept from line 35 until \<open>wait\<close> returns.
\<close>

theorem pc_transitions:
  "reachable s \<Longrightarrow> step s e = Some s' \<Longrightarrow> j < length (pcs s) \<Longrightarrow>
   pcs s' ! j = pcs s ! j \<or> pc_edge (pcs s ! j) (pcs s' ! j)"
proof -
  assume r: "reachable s" and st: "step s e = Some s'" and j: "j < length (pcs s)"
  show ?thesis
  proof (cases e)
    case (Exec t)
    with st have t: "t < length (pcs s)" and ex: "exec_pc t (pcs s ! t) s = Some s'"
      by (simp_all split: if_splits)
    show ?thesis
    proof (cases "pcs s ! t = Notify_Wake All")
      case True
      with ex have s': "s' = s\<lparr>futex := [], pcs := (map unblock (pcs s))[t := Idle]\<rparr>"
        by (simp add: wake_all_result [OF r] futex_wake_all_def set_pc_def)
      show ?thesis
      proof (cases "j = t")
        case True
        with s' t \<open>pcs s ! t = Notify_Wake All\<close> show ?thesis by (simp add: pc_edge.wake)
      next
        case False
        with s' j have "pcs s' ! j = unblock (pcs s ! j)" by simp
        then show ?thesis by (simp add: unblock_def blocked_edge)
      qed
    next
      case False
      with ex j t show ?thesis
        by (cases "(t, pcs s ! t, s)" rule: exec_pc.cases)
          (auto simp: nth_list_update step_simps intro: pc_edge.intros split: if_splits option.splits prod.splits)
    qed
  next
    case (Wake t w)
    with st have t: "t < length (pcs s)" and nt: "pcs s ! t = Notify_Wake One" and w: "w \<in> set (futex s)"
      and s': "s' = set_pc t Idle (set_pc w Wait_Dec (s\<lparr>futex := remove1 w (futex s)\<rparr>))"
      by (simp_all add: wake_one_step_def futex_wake_one_def split: if_splits)
    from reachable_queue_blocked [OF r w] have "w < length (pcs s)" and "blocked (pcs s ! w)"
      by simp_all
    with t nt j show ?thesis
      unfolding s' by (cases "j = t"; cases "j = w") (simp_all add: pc_edge.wake blocked_edge)
  next
    case (Spurious w)
    with st j reachable_queue_blocked [OF r, of w] show ?thesis
      by (auto simp: nth_list_update intro: blocked_edge split: if_splits)
  qed (use st j in \<open>auto simp: wait_entry_def notify_entry_def nth_list_update mutex_lock_Some_iff
        intro: pc_edge.intros split: if_splits\<close>)
qed

theorem pc_transitions_witness:
  "step (demo_notifying All) (Exec 1) =
     Some \<lparr>cv = \<lparr>counter = 1, num_waiters = 1\<rparr>, futex = [], lock = None, pcs = [Wait_Dec, Idle]\<rparr> \<and>
   pc_edge (Wait_Blocked 0) Wait_Dec"
proof -
  have st: "step (demo_notifying All) (Exec 1) =
     Some \<lparr>cv = \<lparr>counter = 1, num_waiters = 1\<rparr>, futex = [], lock = None, pcs = [Wait_Dec, Idle]\<rparr>"
    by (simp add: demo_notifying_def futex_wake_all_def set_pc_def)
  from pc_transitions [OF demo_reachable(3) st, of 0] st show ?thesis
    by (simp add: demo_notifying_def)
qed

subsection \<open>One call of wait without interference\<close>

text \<open>
  C13. Run alone from client code holding the mutex, \<open>wait\<close> registers itself,
  takes the snapshot, releases the mutex and blocks in the futex on that snapshot:
  lines 34--40 in order.
\<close>

theorem wait_blocks_alone:
  "t < length (pcs s) \<Longrightarrow> pcs s ! t = Idle \<Longrightarrow> lock s = Some t \<Longrightarrow>
   run s [Call_wait t, Exec t, Exec t, Exec t] =
     Some (s\<lparr>cv := register_waiter (cv s), futex := futex s @ [t], lock := None,
             pcs := (pcs s)[t := Wait_Blocked (counter (cv s))]\<rparr>)"
  by (simp add: wait_entry_def set_pc_def step_simps)

theorem wait_blocks_alone_witness:
  "run \<lparr>cv = condvar_new, futex = [], lock = Some 0, pcs = [Idle]\<rparr> [Call_wait 0, Exec 0, Exec 0, Exec 0] =
     Some \<lparr>cv = \<lparr>counter = 0, num_waiters = 1\<rparr>, futex = [0], lock = None, pcs = [Wait_Blocked 0]\<rparr>"
  using wait_blocks_alone [of 0 "\<lparr>cv = condvar_new, futex = [], lock = Some 0, pcs = [Idle]\<rparr>"]
  by (simp add: condvar_new_def register_waiter_def)

text \<open>
  C14. Once \<open>atomic_wait::wait\<close> has returned, \<open>wait\<close> deregisters and, the mutex
  being free, returns holding it: lines 42 and 44.
\<close>

theorem wait_woken_returns:
  "t < length (pcs s) \<Longrightarrow> pcs s ! t = Wait_Dec \<Longrightarrow> lock s = None \<Longrightarrow>
   run s [Exec t, Exec t] =
     Some (s\<lparr>cv := deregister_waiter (cv s), lock := Some t, pcs := (pcs s)[t := Idle]\<rparr>)"
  by (simp add: set_pc_def step_simps)

theorem wait_woken_returns_witness:
  "run \<lparr>cv = \<lparr>counter = 1, num_waiters = 1\<rparr>, futex = [], lock = None, pcs = [Wait_Dec, Idle]\<rparr> [Exec 0, Exec 0] =
     Some \<lparr>cv = \<lparr>counter = 1, num_waiters = 0\<rparr>, futex = [], lock = Some 0, pcs = [Idle, Idle]\<rparr>"
  using wait_woken_returns [of 0 "\<lparr>cv = \<lparr>counter = 1, num_waiters = 1\<rparr>, futex = [], lock = None, pcs = [Wait_Dec, Idle]\<rparr>"]
  by (simp add: deregister_waiter_def)

end
