(* ===== verification/Test_Condvar.thy ===== *)
theory Test_Condvar
  imports Properties
begin

text \<open>
  The unit test \<open>test_condvar\<close> of \<open>src/src/cond_var.rs\<close> (lines 56--83) as a client
  program over the interleaving model of theory \<open>Interleaving\<close>: thread 0 is the body of
  the \<open>thread::scope\<close> closure (lines 71--77) followed by the code after the scope (line
  82), thread 1 is the spawned closure (lines 65--69). Both share one \<open>Condvar\<close> and
  one \<open>Mutex\<close>, whose protected value is \<open>data\<close>. A client step either runs one
  statement of the test, calling into the \<open>sys\<close> model through its events \<open>Lock\<close>,
  \<open>Unlock\<close>, \<open>Call_wait\<close>, \<open>Call_notify\<close>, or lets the condition variable and the
  futex run one of their own steps (\<open>Internal\<close>), a spurious wake-up included.
  \<open>thread::sleep\<close> is one step that changes nothing: the model has no time, so every
  interleaving of the two threads is considered, not only the one the sleep makes likely.

  Proved here: the invariant \<open>test_inv\<close> of every reachable state of the test, with any
  number of spurious wake-ups, and from it that the main thread reads \<open>*m\<close> only while
  it holds the mutex, that the \<open>assert_eq!\<close> never fails and that no wake-up is lost;
  concrete runs, one of which makes \<open>assert!(wakeups < 10)\<close> fail after nine spurious
  wake-ups. The theories \<open>Test_Wakeups\<close> and \<open>Test_Liveness\<close>
  build on it.
\<close>

text \<open>Main thread: line 71, the loop of lines 72--75, line 77, the end of the closure
  (dropping \<open>m\<close>), the join of \<open>thread::scope\<close> (line 78) and line 82.\<close>

datatype main_pc =
    M_Lock | M_Check | M_InWait | M_Assert | M_Drop | M_Join | M_Check_Wakeups | M_Done
  | M_Panic | M_Add_Panic | M_Wakeups_Panic

text \<open>Spawned thread: line 66, the \<open>lock\<close>, the write and the guard's drop of line 67,
  line 68 (called, then returned).\<close>

datatype spawn_pc = S_Sleep | S_Lock | S_Write | S_Unlock | S_Notify | S_InNotify | S_Done

text \<open>\<open>wakeups\<close> (line 62) has no other type constraint, so Rust gives it \<open>i32\<close>;
  \<open>wakeups += 1\<close> (line 74) is checked in the test profile and panics when the sum leaves
  the range of \<open>i32\<close>. \<open>i32_add\<close> is that checked addition, \<open>None\<close> the overflow.\<close>

definition i32_min :: int where
  "i32_min = - (2 ^ 31)"

definition i32_max :: int where
  "i32_max = 2 ^ 31 - 1"

definition i32_add :: "int \<Rightarrow> int \<Rightarrow> int option" where
  "i32_add a b = (if i32_min \<le> a + b \<and> a + b \<le> i32_max then Some (a + b) else None)"

text \<open>\<open>data\<close> is the \<open>i32\<close> inside \<open>Mutex::new(0)\<close> (it only takes the values 0
  and 123), \<open>wakeups\<close> the \<open>i32\<close> counter of line 62.\<close>

record test_state =
  sys_st :: sys
  data :: int
  wakeups :: int
  mpc :: main_pc
  spc :: spawn_pc

text \<open>A step of the main thread, of the spawned thread, or an internal step of the condition
  variable's threads (a line of \<open>wait\<close> or \<open>notify_one\<close>, a futex wake, a spurious
  wake-up).\<close>

datatype test_event = Main | Spawn | Internal event

text \<open>Lines 59--62: a fresh mutex holding 0, \<open>Condvar::new()\<close>, \<open>wakeups = 0\<close>.\<close>

definition test_init :: test_state where
  "test_init = \<lparr>sys_st = sys_init 2, data = 0, wakeups = 0, mpc = M_Lock, spc = S_Sleep\<rparr>"

definition with_sys :: "test_state \<Rightarrow> sys option \<Rightarrow> (test_state \<Rightarrow> test_state) \<Rightarrow> test_state option" where
  "with_sys ts r f = map_option (\<lambda>s'. f (ts\<lparr>sys_st := s'\<rparr>)) r"

text \<open>
  One statement of the main thread. \<open>M_Check\<close> is the loop test \<open>*m < 100\<close> (line 72),
  done under the lock; \<open>M_InWait\<close> waits for \<open>condvar.wait(m)\<close> (line 73) to return
  and then runs \<open>wakeups += 1\<close> (line 74), whose overflow is the panic \<open>M_Add_Panic\<close>;
  \<open>M_Assert\<close> is line 77; \<open>M_Drop\<close> drops the guard at the end of the closure;
  \<open>M_Join\<close> waits for the spawned thread (\<open>thread::scope\<close> returns);
  \<open>M_Check_Wakeups\<close> is line 82. A failed assertion is the error state \<open>M_Panic\<close> or
  \<open>M_Wakeups_Panic\<close>; there, as at \<open>M_Add_Panic\<close>, the thread stops.
\<close>

fun main_step :: "test_state \<Rightarrow> main_pc \<Rightarrow> test_state option" where
  "main_step ts M_Lock = with_sys ts (step (sys_st ts) (Lock 0)) (\<lambda>t. t\<lparr>mpc := M_Check\<rparr>)"
| "main_step ts M_Check =
     (if data ts < 100 then with_sys ts (step (sys_st ts) (Call_wait 0)) (\<lambda>t. t\<lparr>mpc := M_InWait\<rparr>)
      else Some (ts\<lparr>mpc := M_Assert\<rparr>))"
| "main_step ts M_InWait =
     (if pcs (sys_st ts) ! 0 = Idle then
        (case i32_add (wakeups ts) 1 of
           Some w \<Rightarrow> Some (ts\<lparr>wakeups := w, mpc := M_Check\<rparr>)
         | None \<Rightarrow> Some (ts\<lparr>mpc := M_Add_Panic\<rparr>))
      else None)"
| "main_step ts M_Assert = Some (ts\<lparr>mpc := (if data ts = 123 then M_Drop else M_Panic)\<rparr>)"
| "main_step ts M_Drop = with_sys ts (step (sys_st ts) (Unlock 0)) (\<lambda>t. t\<lparr>mpc := M_Join\<rparr>)"
| "main_step ts M_Join = (if spc ts = S_Done then Some (ts\<lparr>mpc := M_Check_Wakeups\<rparr>) else None)"
| "main_step ts M_Check_Wakeups =
     Some (ts\<lparr>mpc := (if wakeups ts < 10 then M_Done else M_Wakeups_Panic)\<rparr>)"
| "main_step ts M_Done = None"
| "main_step ts M_Panic = None"
| "main_step ts M_Add_Panic = None"
| "main_step ts M_Wakeups_Panic = None"

text \<open>One statement of the spawned thread (lines 66--68): \<open>*mutex.lock() = 123\<close> is the
  lock, the write and the drop of the temporary guard at the end of the statement.\<close>

fun spawn_step :: "test_state \<Rightarrow> spawn_pc \<Rightarrow> test_state option" where
  "spawn_step ts S_Sleep = Some (ts\<lparr>spc := S_Lock\<rparr>)"
| "spawn_step ts S_Lock = with_sys ts (step (sys_st ts) (Lock 1)) (\<lambda>t. t\<lparr>spc := S_Write\<rparr>)"
| "spawn_step ts S_Write = Some (ts\<lparr>data := 123, spc := S_Unlock\<rparr>)"
| "spawn_step ts S_Unlock = with_sys ts (step (sys_st ts) (Unlock 1)) (\<lambda>t. t\<lparr>spc := S_Notify\<rparr>)"
| "spawn_step ts S_Notify = with_sys ts (step (sys_st ts) (Call_notify 1 One)) (\<lambda>t. t\<lparr>spc := S_InNotify\<rparr>)"
| "spawn_step ts S_InNotify = (if pcs (sys_st ts) ! 1 = Idle then Some (ts\<lparr>spc := S_Done\<rparr>) else None)"
| "spawn_step ts S_Done = None"

text \<open>The steps of the condition variable that no client statement starts.\<close>

fun internal :: "event \<Rightarrow> bool" where
  "internal (Exec t) = True"
| "internal (Wake t w) = True"
| "internal (Spurious w) = True"
| "internal _ = False"

fun test_step :: "test_state \<Rightarrow> test_event \<Rightarrow> test_state option" where
  "test_step ts Main = main_step ts (mpc ts)"
| "test_step ts Spawn = spawn_step ts (spc ts)"
| "test_step ts (Internal e) =
     (if internal e then with_sys ts (step (sys_st ts) e) id else None)"

text \<open>Spurious returns of \<open>atomic_wait::wait\<close>; the properties without them exclude
  exactly these events.\<close>

fun spurious :: "test_event \<Rightarrow> bool" where
  "spurious (Internal (Spurious w)) = True"
| "spurious _ = False"

subsection \<open>The invariant of the test\<close>

text \<open>
  \<open>test_inv\<close> ties the two client threads to the condition variable's state: the lock
  holder, the value of \<open>data\<close>, the generation \<open>counter\<close> (0 before the notification,
  1 after it), the snapshot of the waiter (always 0) and the queue of the futex.
\<close>

fun snap_of :: "pc \<Rightarrow> u32 option" where
  "snap_of (Wait_Drop v) = Some v"
| "snap_of (Wait_Futex v) = Some v"
| "snap_of (Wait_Blocked v) = Some v"
| "snap_of _ = None"

fun in_wait :: "pc \<Rightarrow> bool" where
  "in_wait Idle = False"
| "in_wait (Notify_Inc k) = False"
| "in_wait (Notify_Wake k) = False"
| "in_wait _ = True"

fun after_loop :: "main_pc \<Rightarrow> bool" where
  "after_loop M_Lock = False"
| "after_loop M_Check = False"
| "after_loop M_InWait = False"
| "after_loop M_Panic = False"
| "after_loop M_Add_Panic = False"
| "after_loop _ = True"

definition notify_done :: "test_state \<Rightarrow> bool" where
  "notify_done ts \<longleftrightarrow> (spc ts = S_InNotify \<or> spc ts = S_Done) \<and> pcs (sys_st ts) ! 1 = Idle"

definition before_write :: "spawn_pc \<Rightarrow> bool" where
  "before_write p \<longleftrightarrow> p = S_Sleep \<or> p = S_Lock \<or> p = S_Write"

definition main_holds :: "test_state \<Rightarrow> bool" where
  "main_holds ts \<longleftrightarrow> mpc ts = M_Check \<or> mpc ts = M_Assert \<or> mpc ts = M_Drop \<or> mpc ts = M_Panic \<or>
     mpc ts = M_Add_Panic \<or> (mpc ts = M_InWait \<and> (holds_guard (pcs (sys_st ts) ! 0) \<or> pcs (sys_st ts) ! 0 = Idle))"

definition test_inv :: "test_state \<Rightarrow> bool" where
  "test_inv ts \<longleftrightarrow>
     length (pcs (sys_st ts)) = 2 \<and>
     (mpc ts \<noteq> M_InWait \<longrightarrow> pcs (sys_st ts) ! 0 = Idle) \<and>
     (mpc ts = M_InWait \<longrightarrow> in_wait (pcs (sys_st ts) ! 0) \<or> pcs (sys_st ts) ! 0 = Idle) \<and>
     (spc ts \<noteq> S_InNotify \<longrightarrow> pcs (sys_st ts) ! 1 = Idle) \<and>
     (spc ts = S_InNotify \<longrightarrow> pcs (sys_st ts) ! 1 \<in> {Notify_Inc One, Notify_Wake One, Idle}) \<and>
     (lock (sys_st ts) = Some 0 \<longleftrightarrow> main_holds ts) \<and>
     (lock (sys_st ts) = Some 1 \<longleftrightarrow> spc ts = S_Write \<or> spc ts = S_Unlock) \<and>
     (lock (sys_st ts) = None \<or> lock (sys_st ts) = Some 0 \<or> lock (sys_st ts) = Some 1) \<and>
     data ts = (if before_write (spc ts) then 0 else 123) \<and>
     (after_loop (mpc ts) \<longrightarrow> data ts = 123) \<and>
     mpc ts \<noteq> M_Panic \<and>
     (mpc ts = M_Wakeups_Panic \<longrightarrow> 10 \<le> wakeups ts) \<and>
     (counter (cv (sys_st ts)) = 0 \<or> counter (cv (sys_st ts)) = 1) \<and>
     (spc ts \<notin> {S_InNotify, S_Done} \<longrightarrow> counter (cv (sys_st ts)) = 0) \<and>
     (pcs (sys_st ts) ! 1 = Notify_Inc One \<longrightarrow> counter (cv (sys_st ts)) = 0) \<and>
     (pcs (sys_st ts) ! 1 = Notify_Wake One \<longrightarrow> counter (cv (sys_st ts)) = 1) \<and>
     (holds_guard (pcs (sys_st ts) ! 0) \<longrightarrow> spc ts = S_Sleep \<or> spc ts = S_Lock) \<and>
     (\<forall>v. snap_of (pcs (sys_st ts) ! 0) = Some v \<longrightarrow> v = 0) \<and>
     (registered (pcs (sys_st ts) ! 0) \<and> pcs (sys_st ts) ! 0 \<noteq> Wait_Dec \<and> notify_done ts \<longrightarrow>
        counter (cv (sys_st ts)) = 1) \<and>
     (blocked (pcs (sys_st ts) ! 0) \<longrightarrow> \<not> notify_done ts) \<and>
     0 \<le> wakeups ts \<and> wakeups ts \<le> i32_max \<and>
     (mpc ts = M_Add_Panic \<longrightarrow> wakeups ts = i32_max)"

text \<open>The end of both threads.\<close>

definition test_final :: "test_state \<Rightarrow> bool" where
  "test_final ts \<longleftrightarrow> mpc ts = M_Done \<and> spc ts = S_Done"

text \<open>Concrete schedules: \<open>finish_sched\<close> runs one iteration of the loop from the first
  check of the loop condition to the end of both threads; \<open>spurious_round\<close> is one
  iteration ended by a spurious wake-up, from and back to \<open>loop_state\<close>.\<close>

definition finish_sched :: "test_event list" where
  "finish_sched =
     [Main, Internal (Exec 0), Internal (Exec 0), Internal (Exec 0),
      Spawn, Spawn, Spawn, Spawn, Spawn, Internal (Exec 1), Internal (Wake 1 0), Spawn,
      Internal (Exec 0), Internal (Exec 0), Main, Main, Main, Main, Main, Main]"

definition spurious_round :: "test_event list" where
  "spurious_round =
     [Main, Internal (Exec 0), Internal (Exec 0), Internal (Exec 0), Internal (Spurious 0),
      Internal (Exec 0), Internal (Exec 0), Main]"

definition loop_state :: "nat \<Rightarrow> test_state" where
  "loop_state k =
     \<lparr>sys_st = \<lparr>cv = condvar_new, futex = [], lock = Some 0, pcs = [Idle, Idle]\<rparr>,
      data = 0, wakeups = int k, mpc = M_Check, spc = S_Sleep\<rparr>"

text \<open>Reachable test states; with \<open>sp = False\<close> spurious wake-ups are not taken.\<close>

inductive test_reach :: "bool \<Rightarrow> test_state \<Rightarrow> bool" where
  init: "test_reach sp test_init"
| step: "test_reach sp ts \<Longrightarrow> test_step ts e = Some ts' \<Longrightarrow> sp \<or> \<not> spurious e \<Longrightarrow> test_reach sp ts'"

fun test_run :: "test_state \<Rightarrow> test_event list \<Rightarrow> test_state option" where
  "test_run ts [] = Some ts"
| "test_run ts (e # es) = (case test_step ts e of None \<Rightarrow> None | Some ts' \<Rightarrow> test_run ts' es)"

subsection \<open>The test invariant\<close>

lemma with_sys_Some:
  "with_sys ts r f = Some ts' \<longleftrightarrow> (\<exists>s'. r = Some s' \<and> ts' = f (ts\<lparr>sys_st := s'\<rparr>))"
  by (cases r) (auto simp: with_sys_def)

lemma test_step_sys:
  "test_step ts e = Some ts' \<Longrightarrow> sys_st ts' = sys_st ts \<or> (\<exists>ev. step (sys_st ts) ev = Some (sys_st ts'))"
proof (cases e)
  case Main
  assume "test_step ts e = Some ts'"
  with Main show ?thesis
    by (cases "mpc ts") (auto simp del: step.simps simp: with_sys_Some split: if_splits option.splits)
next
  case Spawn
  assume "test_step ts e = Some ts'"
  with Spawn show ?thesis
    by (cases "spc ts") (auto simp del: step.simps simp: with_sys_Some split: if_splits)
next
  case (Internal ev)
  assume "test_step ts e = Some ts'"
  with Internal show ?thesis
    by (auto simp del: step.simps simp: with_sys_Some split: if_splits)
qed

lemma test_reach_sys: "test_reach sp ts \<Longrightarrow> reachable (sys_st ts)"
proof (induction rule: test_reach.induct)
  case init
  show ?case by (simp add: test_init_def reachable.init)
next
  case (step sp ts e ts')
  from test_step_sys [OF step.hyps(2)] step.IH show ?case
    by (auto intro: reachable.step)
qed

lemma test_inv_init: "test_inv test_init"
  by (simp add: test_inv_def test_init_def sys_init_def condvar_new_def numeral_2_eq_2 main_holds_def
      before_write_def notify_done_def i32_max_def)

lemma length_2_cases: "length xs = 2 \<Longrightarrow> \<exists>a b. xs = [a, b]"
  by (cases xs; cases "tl xs"; simp)

lemma test_inv_length: "test_inv ts \<Longrightarrow> length (pcs (sys_st ts)) = 2"
  unfolding test_inv_def by (elim conjE)

lemma test_inv_pcs: "test_inv ts \<Longrightarrow> \<exists>p0 p1. pcs (sys_st ts) = [p0, p1]"
  by (rule length_2_cases [OF test_inv_length])

lemmas test_inv_simps = test_inv_def main_holds_def before_write_def notify_done_def

lemma test_invD:
  "test_inv ts \<Longrightarrow> spc ts \<noteq> S_InNotify \<longrightarrow> pcs (sys_st ts) ! 1 = Idle"
  "test_inv ts \<Longrightarrow> spc ts = S_InNotify \<longrightarrow> pcs (sys_st ts) ! 1 \<in> {Notify_Inc One, Notify_Wake One, Idle}"
  "test_inv ts \<Longrightarrow> mpc ts \<noteq> M_InWait \<longrightarrow> pcs (sys_st ts) ! 0 = Idle"
  "test_inv ts \<Longrightarrow> mpc ts \<noteq> M_Panic"
  "test_inv ts \<Longrightarrow> after_loop (mpc ts) \<longrightarrow> data ts = 123"
  "test_inv ts \<Longrightarrow> blocked (pcs (sys_st ts) ! 0) \<longrightarrow> \<not> notify_done ts"
  "test_inv ts \<Longrightarrow> counter (cv (sys_st ts)) = 0 \<or> counter (cv (sys_st ts)) = 1"
  "test_inv ts \<Longrightarrow> spc ts \<notin> {S_InNotify, S_Done} \<longrightarrow> counter (cv (sys_st ts)) = 0"
  "test_inv ts \<Longrightarrow> data ts = (if before_write (spc ts) then 0 else 123)"
  "test_inv ts \<Longrightarrow> pcs (sys_st ts) ! 1 = Notify_Wake One \<longrightarrow> counter (cv (sys_st ts)) = 1"
  "test_inv ts \<Longrightarrow> \<forall>v. snap_of (pcs (sys_st ts) ! 0) = Some v \<longrightarrow> v = 0"
  "test_inv ts \<Longrightarrow> mpc ts = M_InWait \<longrightarrow> in_wait (pcs (sys_st ts) ! 0) \<or> pcs (sys_st ts) ! 0 = Idle"
  "test_inv ts \<Longrightarrow> pcs (sys_st ts) ! 1 = Notify_Inc One \<longrightarrow> counter (cv (sys_st ts)) = 0"
  "test_inv ts \<Longrightarrow> lock (sys_st ts) = Some 0 \<longleftrightarrow> main_holds ts"
  "test_inv ts \<Longrightarrow> lock (sys_st ts) = Some 1 \<longleftrightarrow> spc ts = S_Write \<or> spc ts = S_Unlock"
  "test_inv ts \<Longrightarrow> lock (sys_st ts) = None \<or> lock (sys_st ts) = Some 0 \<or> lock (sys_st ts) = Some 1"
  "test_inv ts \<Longrightarrow> mpc ts = M_Wakeups_Panic \<longrightarrow> 10 \<le> wakeups ts"
  "test_inv ts \<Longrightarrow> holds_guard (pcs (sys_st ts) ! 0) \<longrightarrow> spc ts = S_Sleep \<or> spc ts = S_Lock"
  "test_inv ts \<Longrightarrow> 0 \<le> wakeups ts"
  "test_inv ts \<Longrightarrow> wakeups ts \<le> i32_max"
  "test_inv ts \<Longrightarrow> mpc ts = M_Add_Panic \<longrightarrow> wakeups ts = i32_max"
  unfolding test_inv_def by (elim conjE, assumption)+

text \<open>Line 74 on a valid counter: the increment, or the overflow panic at \<open>i32::MAX\<close>.\<close>

lemma i32_add_one:
  "0 \<le> w \<Longrightarrow> i32_add w 1 = (if w < i32_max then Some (w + 1) else None)"
  by (auto simp: i32_add_def i32_min_def)

lemma main_step_InWait:
  assumes "0 \<le> wakeups ts"
  shows "main_step ts M_InWait = Some ts' \<longleftrightarrow> pcs (sys_st ts) ! 0 = Idle \<and>
    ts' = (if wakeups ts < i32_max then ts\<lparr>wakeups := wakeups ts + 1, mpc := M_Check\<rparr>
           else ts\<lparr>mpc := M_Add_Panic\<rparr>)"
  using assms by (auto simp: i32_add_one)

lemma test_inv_p1:
  assumes "test_inv ts"
  shows "pcs (sys_st ts) ! 1 = Notify_Inc One \<or> pcs (sys_st ts) ! 1 = Notify_Wake One \<or>
         pcs (sys_st ts) ! 1 = Idle"
proof (cases "spc ts = S_InNotify")
  case True
  with test_invD(2) [OF assms] show ?thesis by simp
next
  case False
  with test_invD(1) [OF assms] show ?thesis by simp
qed

lemma test_inv_data:
  assumes "test_inv ts" and "counter (cv (sys_st ts)) = 1"
  shows "data ts = 123"
proof -
  from test_invD(8) [OF assms(1)] assms(2) have "spc ts = S_InNotify \<or> spc ts = S_Done" by auto
  with test_invD(9) [OF assms(1)] show ?thesis by (auto simp: before_write_def)
qed

lemma test_inv_p0_wait:
  assumes "test_inv ts"
  shows "pcs (sys_st ts) ! 0 \<noteq> Notify_Inc k \<and> pcs (sys_st ts) ! 0 \<noteq> Notify_Wake k"
  using test_invD(3,12) [OF assms] by (cases "mpc ts = M_InWait") auto

lemma step_client_iff:
  "step s (Lock t) = Some s' \<longleftrightarrow> t < length (pcs s) \<and> pcs s ! t = Idle \<and> lock s = None \<and> s' = s\<lparr>lock := Some t\<rparr>"
  "step s (Unlock t) = Some s' \<longleftrightarrow> t < length (pcs s) \<and> pcs s ! t = Idle \<and> lock s = Some t \<and> s' = s\<lparr>lock := None\<rparr>"
  "step s (Call_wait t) = Some s' \<longleftrightarrow> t < length (pcs s) \<and> pcs s ! t = Idle \<and> lock s = Some t \<and>
     s' = set_pc t Wait_Load (s\<lparr>cv := register_waiter (cv s)\<rparr>)"
  "step s (Call_notify t k) = Some s' \<longleftrightarrow> t < length (pcs s) \<and> pcs s ! t = Idle \<and>
     s' = (if has_waiters (cv s) then set_pc t (Notify_Inc k) s else s)"
  by (auto simp: mutex_lock_Some_iff mutex_unlock_def wait_entry_def notify_entry_def)

text \<open>The shape of a \<open>wake_one\<close> and of a spurious wake-up in the test: the spawned
  thread wakes the blocked main thread.\<close>

lemma test_wakeD:
  assumes inv: "test_inv ts" and q0: "\<And>w. w \<in> set (futex (sys_st ts)) \<Longrightarrow> w = 0"
    and q: "\<And>w. w \<in> set (futex (sys_st ts)) \<Longrightarrow> blocked (pcs (sys_st ts) ! w)"
    and st: "step (sys_st ts) (Wake t w) = Some s'"
  obtains v where "pcs (sys_st ts) = [Wait_Blocked v, Notify_Wake One]" "t = 1" "w = 0"
    "s' = set_pc 1 Idle (set_pc 0 Wait_Dec ((sys_st ts)\<lparr>futex := remove1 0 (futex (sys_st ts))\<rparr>))"
proof -
  from test_inv_pcs [OF inv] obtain p0 p1 where ps: "pcs (sys_st ts) = [p0, p1]" by blast
  from st have t: "t < 2" and nt: "pcs (sys_st ts) ! t = Notify_Wake One" and w: "w \<in> set (futex (sys_st ts))"
    and s': "s' = set_pc t Idle (set_pc w Wait_Dec ((sys_st ts)\<lparr>futex := remove1 w (futex (sys_st ts))\<rparr>))"
    using ps by (simp_all add: wake_one_step_def futex_wake_one_def split: if_splits)
  from test_inv_p0_wait [OF inv] nt t have t1: "t = 1" by (cases t) auto
  from w q0 have w0: "w = 0" by blast
  from q [OF w] w0 ps have "blocked p0" by simp
  then obtain v where "p0 = Wait_Blocked v" by (cases p0) auto
  with ps nt t1 w0 s' that show thesis by simp
qed

lemma test_spuriousD:
  assumes inv: "test_inv ts" and q0: "\<And>w. w \<in> set (futex (sys_st ts)) \<Longrightarrow> w = 0"
    and q: "\<And>w. w \<in> set (futex (sys_st ts)) \<Longrightarrow> blocked (pcs (sys_st ts) ! w)"
    and st: "step (sys_st ts) (Spurious w) = Some s'"
  obtains v p1 where "pcs (sys_st ts) = [Wait_Blocked v, p1]" "w = 0"
    "s' = set_pc 0 Wait_Dec ((sys_st ts)\<lparr>futex := remove1 0 (futex (sys_st ts))\<rparr>)"
proof -
  from test_inv_pcs [OF inv] obtain p0 p1 where ps: "pcs (sys_st ts) = [p0, p1]" by blast
  from st have w: "w \<in> set (futex (sys_st ts))"
    and s': "s' = set_pc w Wait_Dec ((sys_st ts)\<lparr>futex := remove1 w (futex (sys_st ts))\<rparr>)"
    by (simp_all split: if_splits)
  from w q0 have w0: "w = 0" by blast
  from q [OF w] w0 ps have "blocked p0" by simp
  then obtain v where "p0 = Wait_Blocked v" by (cases p0) auto
  with ps w0 s' that show thesis by simp
qed

lemma test_inv_main_lock:
  "test_inv ts \<Longrightarrow> mpc ts = M_Lock \<Longrightarrow> main_step ts M_Lock = Some ts' \<Longrightarrow> test_inv ts'"
  by (clarsimp simp: test_inv_simps with_sys_Some step_client_iff simp del: step.simps)

lemma test_inv_main_check:
  "test_inv ts \<Longrightarrow> mpc ts = M_Check \<Longrightarrow> main_step ts M_Check = Some ts' \<Longrightarrow> test_inv ts'"
  by (clarsimp simp: test_inv_simps with_sys_Some step_client_iff set_pc_def register_waiter_def
      simp del: step.simps split: if_splits)

lemma test_inv_main_inwait:
  assumes inv: "test_inv ts" and m: "mpc ts = M_InWait" and st: "main_step ts M_InWait = Some ts'"
  shows "test_inv ts'"
  using inv m st [unfolded main_step_InWait [OF test_invD(19) [OF inv]]]
  by (clarsimp simp: test_inv_simps split: if_splits)

lemma test_inv_main_assert:
  "test_inv ts \<Longrightarrow> mpc ts = M_Assert \<Longrightarrow> main_step ts M_Assert = Some ts' \<Longrightarrow> test_inv ts'"
  by (clarsimp simp: test_inv_simps split: if_splits)

lemma test_inv_main_drop:
  "test_inv ts \<Longrightarrow> mpc ts = M_Drop \<Longrightarrow> main_step ts M_Drop = Some ts' \<Longrightarrow> test_inv ts'"
  by (clarsimp simp: test_inv_simps with_sys_Some step_client_iff simp del: step.simps)

lemma test_inv_main_join:
  "test_inv ts \<Longrightarrow> mpc ts = M_Join \<Longrightarrow> main_step ts M_Join = Some ts' \<Longrightarrow> test_inv ts'"
  by (clarsimp simp: test_inv_simps split: if_splits)

lemma test_inv_main_check_wakeups:
  "test_inv ts \<Longrightarrow> mpc ts = M_Check_Wakeups \<Longrightarrow> main_step ts M_Check_Wakeups = Some ts' \<Longrightarrow> test_inv ts'"
  by (clarsimp simp: test_inv_simps split: if_splits)

lemma test_inv_spawn_sleep:
  "test_inv ts \<Longrightarrow> spc ts = S_Sleep \<Longrightarrow> spawn_step ts S_Sleep = Some ts' \<Longrightarrow> test_inv ts'"
  by (clarsimp simp: test_inv_simps)

lemma test_inv_spawn_lock:
  "test_inv ts \<Longrightarrow> spc ts = S_Lock \<Longrightarrow> spawn_step ts S_Lock = Some ts' \<Longrightarrow> test_inv ts'"
  by (clarsimp simp: test_inv_simps with_sys_Some step_client_iff simp del: step.simps)

lemma test_inv_spawn_write:
  "test_inv ts \<Longrightarrow> spc ts = S_Write \<Longrightarrow> spawn_step ts S_Write = Some ts' \<Longrightarrow> test_inv ts'"
  by (clarsimp simp: test_inv_simps)

lemma test_inv_spawn_unlock:
  "test_inv ts \<Longrightarrow> spc ts = S_Unlock \<Longrightarrow> spawn_step ts S_Unlock = Some ts' \<Longrightarrow> test_inv ts'"
  by (clarsimp simp: test_inv_simps with_sys_Some step_client_iff simp del: step.simps)

lemma test_inv_spawn_notify:
  assumes inv: "test_inv ts" and w: "registered (pcs (sys_st ts) ! 0) \<Longrightarrow> has_waiters (cv (sys_st ts))"
    and sp: "spc ts = S_Notify" and st: "spawn_step ts S_Notify = Some ts'"
  shows "test_inv ts'"
proof (cases "has_waiters (cv (sys_st ts))")
  case True
  with inv sp st show ?thesis
    by (clarsimp simp: test_inv_simps with_sys_Some step_client_iff set_pc_def simp del: step.simps)
next
  case False
  with w have "\<not> registered (pcs (sys_st ts) ! 0)" by blast
  then have "\<not> blocked (pcs (sys_st ts) ! 0)" by (blast dest: blocked_registered)
  with \<open>\<not> registered _\<close> False inv sp st show ?thesis
    by (clarsimp simp: test_inv_simps with_sys_Some step_client_iff simp del: step.simps)
qed

lemma test_inv_spawn_innotify:
  "test_inv ts \<Longrightarrow> spc ts = S_InNotify \<Longrightarrow> spawn_step ts S_InNotify = Some ts' \<Longrightarrow> test_inv ts'"
  by (clarsimp simp: test_inv_simps split: if_splits)

lemma test_inv_exec0:
  assumes inv: "test_inv ts" and st: "step (sys_st ts) (Exec 0) = Some s'"
  shows "test_inv (ts\<lparr>sys_st := s'\<rparr>)"
proof -
  from test_inv_pcs [OF inv] obtain p0 p1 where ps: "pcs (sys_st ts) = [p0, p1]" by blast
  with st have ex: "exec_pc 0 p0 (sys_st ts) = Some s'" by simp
  show ?thesis
  proof (cases p0)
    case Wait_Load
    with inv ps ex show ?thesis by (clarsimp simp: test_inv_simps step_simps set_pc_def) auto
  next
    case (Wait_Drop v)
    with inv ps ex show ?thesis by (clarsimp simp: test_inv_simps step_simps set_pc_def)
  next
    case (Wait_Futex v)
    with inv ps ex show ?thesis
      by (clarsimp simp: test_inv_simps step_simps set_pc_def split: if_splits)
  next
    case Wait_Dec
    with inv ps ex show ?thesis
      by (clarsimp simp: test_inv_simps step_simps set_pc_def)
  next
    case Wait_Lock
    with inv ps ex show ?thesis
      by (clarsimp simp: test_inv_simps set_pc_def mutex_lock_Some_iff)
  next
    case (Notify_Inc k)
    with inv ps show ?thesis by (clarsimp simp: test_inv_simps)
  next
    case (Notify_Wake k)
    with inv ps show ?thesis by (clarsimp simp: test_inv_simps)
  qed (use ex in simp_all)
qed

lemma test_inv_exec1:
  assumes inv: "test_inv ts" and q1: "blocked (pcs (sys_st ts) ! 0) \<Longrightarrow> 0 \<in> set (futex (sys_st ts))"
    and st: "step (sys_st ts) (Exec 1) = Some s'"
  shows "test_inv (ts\<lparr>sys_st := s'\<rparr>)"
proof -
  from test_inv_pcs [OF inv] obtain p0 p1 where ps: "pcs (sys_st ts) = [p0, p1]" by blast
  with st have ex: "exec_pc 1 p1 (sys_st ts) = Some s'" by simp
  from inv ps have p1: "p1 = Notify_Inc One \<or> p1 = Notify_Wake One \<or> p1 = Idle"
    by (cases "spc ts = S_InNotify") (simp_all add: test_inv_def)
  then show ?thesis
  proof (elim disjE)
    assume "p1 = Notify_Inc One"
    with inv ps ex show ?thesis by (clarsimp simp: test_inv_simps step_simps set_pc_def)
  next
    assume p: "p1 = Notify_Wake One"
    with ex have "futex (sys_st ts) = []" by (simp split: if_splits)
    with q1 ps have "\<not> blocked p0" by auto
    with inv ps ex p show ?thesis by (clarsimp simp: test_inv_simps set_pc_def split: if_splits)
  next
    assume "p1 = Idle"
    with ex show ?thesis by simp
  qed
qed

lemma test_inv_wake:
  assumes inv: "test_inv ts" and q0: "\<And>w. w \<in> set (futex (sys_st ts)) \<Longrightarrow> w = 0"
    and q: "\<And>w. w \<in> set (futex (sys_st ts)) \<Longrightarrow> blocked (pcs (sys_st ts) ! w)"
    and st: "step (sys_st ts) (Wake t w) = Some s'"
  shows "test_inv (ts\<lparr>sys_st := s'\<rparr>)"
proof (rule test_wakeD [OF inv q0 q st])
  fix v
  assume "pcs (sys_st ts) = [Wait_Blocked v, Notify_Wake One]"
    and "s' = set_pc 1 Idle (set_pc 0 Wait_Dec ((sys_st ts)\<lparr>futex := remove1 0 (futex (sys_st ts))\<rparr>))"
  with inv show ?thesis by (clarsimp simp: test_inv_simps set_pc_def)
qed

lemma test_inv_spurious:
  assumes inv: "test_inv ts" and q0: "\<And>w. w \<in> set (futex (sys_st ts)) \<Longrightarrow> w = 0"
    and q: "\<And>w. w \<in> set (futex (sys_st ts)) \<Longrightarrow> blocked (pcs (sys_st ts) ! w)"
    and st: "step (sys_st ts) (Spurious w) = Some s'"
  shows "test_inv (ts\<lparr>sys_st := s'\<rparr>)"
proof (rule test_spuriousD [OF inv q0 q st])
  fix v p1
  assume "pcs (sys_st ts) = [Wait_Blocked v, p1]"
    and "s' = set_pc 0 Wait_Dec ((sys_st ts)\<lparr>futex := remove1 0 (futex (sys_st ts))\<rparr>)"
  with inv show ?thesis by (clarsimp simp: test_inv_simps set_pc_def)
qed

lemma sys_facts_for_test:
  assumes inv: "test_inv ts" and si: "sys_inv (sys_st ts)"
  shows "blocked (pcs (sys_st ts) ! 0) \<Longrightarrow> 0 \<in> set (futex (sys_st ts))"
    and "w \<in> set (futex (sys_st ts)) \<Longrightarrow> w = 0"
    and "w \<in> set (futex (sys_st ts)) \<Longrightarrow> blocked (pcs (sys_st ts) ! w)"
    and "registered (pcs (sys_st ts) ! 0) \<Longrightarrow> has_waiters (cv (sys_st ts))"
proof -
  from test_inv_pcs [OF inv] obtain p0 p1 where ps: "pcs (sys_st ts) = [p0, p1]" by blast
  from si have Q: "set (futex (sys_st ts)) = {t. t < length (pcs (sys_st ts)) \<and> blocked (pcs (sys_st ts) ! t)}"
    by (simp add: sys_inv_def queue_inv_def)
  from test_inv_p1 [OF inv] ps have nb1: "\<not> blocked p1" by auto
  show "blocked (pcs (sys_st ts) ! 0) \<Longrightarrow> 0 \<in> set (futex (sys_st ts))" using Q ps by simp
  show "w \<in> set (futex (sys_st ts)) \<Longrightarrow> blocked (pcs (sys_st ts) ! w)" using Q by simp
  show "w = 0" if w: "w \<in> set (futex (sys_st ts))"
  proof -
    from Q ps w have "w < 2" and "blocked ([p0, p1] ! w)" by simp_all
    with nb1 show "w = 0" by (cases w) (simp_all add: less_Suc_eq numeral_2_eq_2)
  qed
  assume r: "registered (pcs (sys_st ts) ! 0)"
  from si have "num_waiters (cv (sys_st ts)) = of_nat (length (filter registered (pcs (sys_st ts))))"
    by (simp add: sys_inv_def waiters_inv_def)
  moreover from r ps have "length (filter registered (pcs (sys_st ts))) \<in> {1, 2}" by auto
  ultimately show "has_waiters (cv (sys_st ts))" by (auto simp: has_waiters_def)
qed

lemma test_step_internalE:
  assumes inv: "test_inv ts" and st: "test_step ts (Internal ev) = Some ts'"
  obtains (exec0) s' where "ts' = ts\<lparr>sys_st := s'\<rparr>" "ev = Exec 0" "step (sys_st ts) (Exec 0) = Some s'"
  | (exec1) s' where "ts' = ts\<lparr>sys_st := s'\<rparr>" "ev = Exec 1" "step (sys_st ts) (Exec 1) = Some s'"
  | (wake) s' t w where "ts' = ts\<lparr>sys_st := s'\<rparr>" "ev = Wake t w" "step (sys_st ts) (Wake t w) = Some s'"
  | (spurious) s' w where "ts' = ts\<lparr>sys_st := s'\<rparr>" "ev = Spurious w"
      "step (sys_st ts) (Spurious w) = Some s'"
proof -
  from st obtain s' where ie: "internal ev" and sst: "step (sys_st ts) ev = Some s'"
    and ts': "ts' = ts\<lparr>sys_st := s'\<rparr>"
    by (auto simp: with_sys_Some simp del: step.simps split: if_splits)
  from test_inv_length [OF inv] have l: "length (pcs (sys_st ts)) = 2" .
  show thesis
  proof (cases ev)
    case (Exec t)
    with sst l have "t = 0 \<or> t = 1" by (auto split: if_splits)
    with Exec sst ts' that show thesis by auto
  qed (use ie sst ts' that in auto)
qed

lemma test_step_inv:
  assumes inv: "test_inv ts" and si: "sys_inv (sys_st ts)" and st: "test_step ts e = Some ts'"
  shows "test_inv ts'"
proof (cases e)
  case Main
  with st have m: "main_step ts (mpc ts) = Some ts'" by simp
  show ?thesis
  proof (cases "mpc ts")
    case M_Lock with inv m show ?thesis by (simp add: test_inv_main_lock)
  next
    case M_Check with inv m show ?thesis by (simp add: test_inv_main_check)
  next
    case M_InWait with inv m show ?thesis by (simp add: test_inv_main_inwait)
  next
    case M_Assert with inv m show ?thesis by (simp add: test_inv_main_assert)
  next
    case M_Drop with inv m show ?thesis by (simp add: test_inv_main_drop)
  next
    case M_Join with inv m show ?thesis by (simp add: test_inv_main_join)
  next
    case M_Check_Wakeups with inv m show ?thesis by (simp add: test_inv_main_check_wakeups)
  qed (use m in simp_all)
next
  case Spawn
  with st have m: "spawn_step ts (spc ts) = Some ts'" by simp
  show ?thesis
  proof (cases "spc ts")
    case S_Sleep with inv m show ?thesis by (simp add: test_inv_spawn_sleep)
  next
    case S_Lock with inv m show ?thesis by (simp add: test_inv_spawn_lock)
  next
    case S_Write with inv m show ?thesis by (simp add: test_inv_spawn_write)
  next
    case S_Unlock with inv m show ?thesis by (simp add: test_inv_spawn_unlock)
  next
    case S_Notify with inv m sys_facts_for_test(4) [OF inv si] show ?thesis
      by (simp add: test_inv_spawn_notify)
  next
    case S_InNotify with inv m show ?thesis by (simp add: test_inv_spawn_innotify)
  qed (use m in simp_all)
next
  case (Internal ev)
  with st have st': "test_step ts (Internal ev) = Some ts'" by simp
  note facts = sys_facts_for_test [OF inv si]
  from inv st' show ?thesis
  proof (cases rule: test_step_internalE)
    case (exec0 s')
    with test_inv_exec0 [OF inv] show ?thesis by simp
  next
    case (exec1 s')
    with test_inv_exec1 [OF inv facts(1)] show ?thesis by simp
  next
    case (wake s' t w)
    with test_inv_wake [OF inv facts(2,3)] show ?thesis by simp
  next
    case (spurious s' w)
    with test_inv_spurious [OF inv facts(2,3)] show ?thesis by simp
  qed
qed

lemma test_reach_inv: "test_reach sp ts \<Longrightarrow> test_inv ts"
proof (induction rule: test_reach.induct)
  case init
  show ?case by (rule test_inv_init)
next
  case (step sp ts e ts')
  from test_reach_sys [OF step.hyps(1)] have "sys_inv (sys_st ts)" by (rule reachable_sys_inv)
  from test_step_inv [OF step.IH this step.hyps(2)] show ?case .
qed


lemma test_run_append:
  "test_run ts (es @ es') = (case test_run ts es of None \<Rightarrow> None | Some ts' \<Rightarrow> test_run ts' es')"
  by (induction es arbitrary: ts) (auto split: option.splits)

lemma test_run_reach:
  "test_reach sp ts \<Longrightarrow> test_run ts es = Some ts' \<Longrightarrow> sp \<or> list_all (\<lambda>e. \<not> spurious e) es \<Longrightarrow>
   test_reach sp ts'"
proof (induction es arbitrary: ts)
  case Nil
  then show ?case by simp
next
  case (Cons e es)
  then obtain ts1 where "test_step ts e = Some ts1" and "test_run ts1 es = Some ts'"
    by (auto split: option.splits)
  with Cons show ?case by (auto intro: test_reach.step)
qed

lemma test_init_run: "test_run test_init [Main] = Some (loop_state 0)"
  by (simp add: test_init_def loop_state_def sys_init_def with_sys_def numeral_2_eq_2 mutex_lock_def)

lemma spurious_round_run:
  assumes "int k < i32_max"
  shows "test_run (loop_state k) spurious_round = Some (loop_state (Suc k))"
  using assms by (simp add: spurious_round_def loop_state_def with_sys_def step_simps wait_entry_def
      set_pc_def condvar_new_def i32_add_one)

lemma spurious_rounds_run:
  "int (k + n) \<le> i32_max \<Longrightarrow>
   test_run (loop_state k) (concat (replicate n spurious_round)) = Some (loop_state (k + n))"
proof (induction n arbitrary: k)
  case 0
  then show ?case by simp
next
  case (Suc n)
  from Suc.prems have "int k < i32_max" and "int (Suc k + n) \<le> i32_max" by simp_all
  with Suc.IH [of "Suc k"] show ?case by (simp add: test_run_append spurious_round_run)
qed

lemma finish_sched_run:
  assumes "int k < i32_max"
  shows "\<exists>ts. test_run (loop_state k) finish_sched = Some ts \<and> wakeups ts = int (Suc k) \<and>
    spc ts = S_Done \<and> mpc ts = (if Suc k < 10 then M_Done else M_Wakeups_Panic)"
  using assms by (simp add: finish_sched_def loop_state_def with_sys_def step_simps wait_entry_def
      notify_entry_def wake_one_step_def set_pc_def condvar_new_def i32_add_one)

lemma spurious_rounds_finish:
  assumes n: "int n < i32_max"
  shows "\<exists>ts. test_run test_init (Main # concat (replicate n spurious_round) @ finish_sched) = Some ts \<and>
    wakeups ts = int (Suc n) \<and> spc ts = S_Done \<and> mpc ts = (if Suc n < 10 then M_Done else M_Wakeups_Panic)"
proof -
  from finish_sched_run [OF n] obtain ts where r: "test_run (loop_state n) finish_sched = Some ts"
    and f: "wakeups ts = int (Suc n)" "spc ts = S_Done"
      "mpc ts = (if Suc n < 10 then M_Done else M_Wakeups_Panic)"
    by blast
  from n have "int (0 + n) \<le> i32_max" by simp
  note rs = spurious_rounds_run [OF this]
  have "test_run test_init ([Main] @ concat (replicate n spurious_round) @ finish_sched) = Some ts"
    using r rs by (simp only: test_run_append test_init_run option.case) simp
  with f show ?thesis by auto
qed

lemma loop_state_reach:
  assumes k: "int k \<le> i32_max"
  shows "test_reach True (loop_state k)"
proof -
  from k have "int (0 + k) \<le> i32_max" by simp
  note rs = spurious_rounds_run [OF this]
  have "test_run test_init ([Main] @ concat (replicate k spurious_round)) = Some (loop_state k)"
    using rs by (simp only: test_run_append test_init_run option.case) simp
  from test_run_reach [OF test_reach.init this] show ?thesis by simp
qed

lemma finish_run_reach:
  "\<exists>ts. test_run test_init (Main # finish_sched) = Some ts \<and> test_reach False ts \<and>
        wakeups ts = 1 \<and> test_final ts"
proof -
  have "int 0 < i32_max" by (simp add: i32_max_def)
  from finish_sched_run [OF this] obtain ts where r: "test_run (loop_state 0) finish_sched = Some ts"
    and f: "wakeups ts = 1" "spc ts = S_Done" "mpc ts = M_Done" by auto
  have "test_run test_init ([Main] @ finish_sched) = Some ts"
    by (simp only: test_run_append test_init_run r option.case)
  then have r': "test_run test_init (Main # finish_sched) = Some ts" by (simp only: append.simps)
  have "list_all (\<lambda>e. \<not> spurious e) (Main # finish_sched)" by (simp add: finish_sched_def)
  from test_run_reach [OF test_reach.init r'] this have "test_reach False ts" by simp
  with r' f show ?thesis by (auto simp: test_final_def)
qed


subsection \<open>Properties of the test\<close>

text \<open>
  C16: the main thread reads \<open>*m\<close> only under the mutex, and \<open>assert_eq!(*m, 123)\<close>
  (line 77) never fails. In every interleaving, with any number of spurious wake-ups, the lock
  is held by the main thread whenever it evaluates the loop test \<open>*m < 100\<close> (line 72,
  also right after \<open>wait\<close> has returned its guard) or the assertion (line 77); it leaves the
  loop only when it reads the value the spawned thread wrote, and never reaches the panic of
  that assertion.
\<close>

theorem test_assert_eq_holds:
  assumes "test_reach sp ts"
  shows "(mpc ts = M_Check \<or> mpc ts = M_Assert \<longrightarrow> lock (sys_st ts) = Some 0) \<and>
    mpc ts \<noteq> M_Panic \<and> (after_loop (mpc ts) \<longrightarrow> data ts = 123)"
  using test_invD(4,5,14) [OF test_reach_inv [OF assms]] by (simp add: main_holds_def)

theorem test_assert_eq_holds_witness:
  "lock (sys_st (loop_state 0)) = Some 0 \<and>
   (\<exists>ts. test_run test_init (Main # finish_sched) = Some ts \<and> mpc ts \<noteq> M_Panic \<and> data ts = 123)"
proof
  have "int 0 \<le> i32_max" by (simp add: i32_max_def)
  from test_assert_eq_holds [OF loop_state_reach [OF this]]
  show "lock (sys_st (loop_state 0)) = Some 0" by (simp add: loop_state_def)
  from finish_run_reach obtain ts where r: "test_run test_init (Main # finish_sched) = Some ts"
    and re: "test_reach False ts" and f: "test_final ts" by blast
  from test_assert_eq_holds [OF re] f r
  show "\<exists>ts. test_run test_init (Main # finish_sched) = Some ts \<and> mpc ts \<noteq> M_Panic \<and> data ts = 123"
    by (auto simp: test_final_def)
qed

text \<open>
  C17: no lost wake-up in the test: whenever the main thread is blocked in the futex wait of
  \<open>Condvar::wait\<close>, the spawned thread has not yet returned from \<open>notify_one\<close>, so the
  notification that will release it is still to come.
\<close>

theorem test_no_lost_wakeup:
  assumes "test_reach sp ts" and "blocked (pcs (sys_st ts) ! 0)"
  shows "\<not> notify_done ts"
  using test_invD(6) [OF test_reach_inv [OF assms(1)]] assms(2) by simp

theorem test_no_lost_wakeup_witness:
  "\<exists>ts. test_run (loop_state 0) (take 4 finish_sched) = Some ts \<and>
        blocked (pcs (sys_st ts) ! 0) \<and> \<not> notify_done ts"
proof -
  have r: "test_run (loop_state 0) (take 4 finish_sched) =
           Some (loop_state 0\<lparr>sys_st := \<lparr>cv = \<lparr>counter = 0, num_waiters = 1\<rparr>, futex = [0], lock = None,
                   pcs = [Wait_Blocked 0, Idle]\<rparr>, mpc := M_InWait\<rparr>)" (is "_ = Some ?ts")
    by (simp add: finish_sched_def loop_state_def with_sys_def step_simps wait_entry_def set_pc_def
        condvar_new_def)
  have "int 0 \<le> i32_max" by (simp add: i32_max_def)
  from loop_state_reach [OF this] r have "test_reach True ?ts"
    by (rule test_run_reach) simp
  from test_no_lost_wakeup [OF this] r show ?thesis by simp
qed

text \<open>
  C22: the bound of line 82 is not implied by the contract of \<open>atomic_wait::wait\<close>, which
  allows spurious returns: with nine spurious wake-ups of the main thread the test body runs its
  loop ten times and \<open>assert!(wakeups < 10)\<close> fails.
\<close>

theorem test_spurious_wakeups_panic:
  "\<exists>ts. test_run test_init (Main # concat (replicate 9 spurious_round) @ finish_sched) = Some ts \<and>
        mpc ts = M_Wakeups_Panic \<and> wakeups ts = 10 \<and>
        length (filter spurious (Main # concat (replicate 9 spurious_round) @ finish_sched)) = 9"
proof -
  have "length (filter spurious (Main # concat (replicate 9 spurious_round) @ finish_sched)) = 9"
    by (simp add: spurious_round_def finish_sched_def numeral_eq_Suc)
  moreover have "int 9 < i32_max" by (simp add: i32_max_def)
  ultimately show ?thesis using spurious_rounds_finish [of 9] by auto
qed

end
