(* ===== verification/Test_Wakeups.thy ===== *)
theory Test_Wakeups
  imports Test_Condvar
begin

text \<open>
  How often the main thread of the test returns from \<open>wait\<close>. \<open>wake_inv\<close> holds in the
  runs without spurious wake-ups: the main thread returns from the futex only after the
  notification, so its loop body runs at most once. \<open>spur_inv k\<close> holds after \<open>k\<close>
  spurious wake-ups: every return is one of them or the one the notification causes, so
  \<open>wakeups\<close> is at most \<open>k + 1\<close>, and the overflow of \<open>wakeups += 1\<close> (line 74)
  needs \<open>i32::MAX\<close> of them.
\<close>

text \<open>The main thread has returned from the futex in its current \<open>wait\<close> call, and its
  \<open>wakeups += 1\<close> has not run yet.\<close>

definition pending_return :: "test_state \<Rightarrow> bool" where
  "pending_return ts \<longleftrightarrow>
     pcs (sys_st ts) ! 0 = Wait_Dec \<or> pcs (sys_st ts) ! 0 = Wait_Lock \<or>
     mpc ts = M_InWait \<and> pcs (sys_st ts) ! 0 = Idle"

definition wake_inv :: "test_state \<Rightarrow> bool" where
  "wake_inv ts \<longleftrightarrow>
     (pending_return ts \<longrightarrow> counter (cv (sys_st ts)) = 1) \<and>
     (wakeups ts = 0 \<or> wakeups ts = 1 \<and> data ts = 123 \<and> mpc ts \<noteq> M_InWait) \<and>
     mpc ts \<noteq> M_Add_Panic"

fun at_futex :: "pc \<Rightarrow> bool" where
  "at_futex (Wait_Futex v) = True"
| "at_futex (Wait_Blocked v) = True"
| "at_futex _ = False"

text \<open>
  The returns of the main thread from the futex so far, counted, pending, or the one whose
  count overflowed. With \<open>k\<close> spurious wake-ups, at most one more return happens, the one
  the notification causes: \<open>spur_inv k\<close>.
\<close>

definition returns :: "test_state \<Rightarrow> int" where
  "returns ts = wakeups ts + (if pending_return ts \<or> mpc ts = M_Add_Panic then 1 else 0)"

definition spur_inv :: "nat \<Rightarrow> test_state \<Rightarrow> bool" where
  "spur_inv k ts \<longleftrightarrow> returns ts \<le> int k + 1 \<and>
     (returns ts = int k + 1 \<longrightarrow> counter (cv (sys_st ts)) = 1 \<and> \<not> at_futex (pcs (sys_st ts) ! 0))"

subsection \<open>The runs without spurious wake-ups\<close>

lemma wake_inv_init: "wake_inv test_init"
  by (simp add: wake_inv_def pending_return_def test_init_def sys_init_def numeral_2_eq_2)

lemma wake_inv_main:
  assumes inv: "test_inv ts" and wi: "wake_inv ts" and st: "main_step ts (mpc ts) = Some ts'"
  shows "wake_inv ts'"
proof (cases "mpc ts")
  case M_Lock
  with inv have "pcs (sys_st ts) ! 0 = Idle" by (simp add: test_invD(3))
  with M_Lock wi st show ?thesis
    by (clarsimp simp: wake_inv_def pending_return_def with_sys_Some step_client_iff simp del: step.simps)
next
  case M_Check
  with inv have p0: "pcs (sys_st ts) ! 0 = Idle" by (simp add: test_invD(3))
  show ?thesis
  proof (cases "data ts < 100")
    case True
    with wi have "wakeups ts = 0" by (auto simp: wake_inv_def pending_return_def)
    with True M_Check p0 wi st show ?thesis
      by (clarsimp simp: wake_inv_def pending_return_def with_sys_Some step_client_iff set_pc_def simp del: step.simps)
  next
    case False
    with M_Check p0 wi st show ?thesis by (clarsimp simp: wake_inv_def pending_return_def)
  qed
next
  case M_InWait
  note iw = main_step_InWait [OF test_invD(19) [OF inv]]
  from M_InWait st iw have p0: "pcs (sys_st ts) ! 0 = Idle" by (simp del: main_step.simps)
  from M_InWait p0 wi have c: "counter (cv (sys_st ts)) = 1" and w: "wakeups ts = 0"
    by (auto simp: wake_inv_def pending_return_def)
  from w have "wakeups ts < i32_max" by (simp add: i32_max_def)
  with M_InWait st iw have ts': "ts' = ts\<lparr>wakeups := wakeups ts + 1, mpc := M_Check\<rparr>"
    by (simp del: main_step.simps)
  from test_inv_data [OF inv c] w p0 ts' show ?thesis by (simp add: wake_inv_def pending_return_def)
next
  case M_Assert
  with inv have "pcs (sys_st ts) ! 0 = Idle" by (simp add: test_invD(3))
  with M_Assert wi st show ?thesis by (auto simp: wake_inv_def pending_return_def split: if_splits)
next
  case M_Drop
  with inv have "pcs (sys_st ts) ! 0 = Idle" by (simp add: test_invD(3))
  with M_Drop wi st show ?thesis
    by (clarsimp simp: wake_inv_def pending_return_def with_sys_Some step_client_iff simp del: step.simps)
next
  case M_Join
  with inv have "pcs (sys_st ts) ! 0 = Idle" by (simp add: test_invD(3))
  with M_Join wi st show ?thesis by (auto simp: wake_inv_def pending_return_def split: if_splits)
next
  case M_Check_Wakeups
  with inv have "pcs (sys_st ts) ! 0 = Idle" by (simp add: test_invD(3))
  with M_Check_Wakeups wi st show ?thesis by (auto simp: wake_inv_def pending_return_def)
qed (use st in simp_all)

lemma spawn_step_frame:
  assumes st: "spawn_step ts (spc ts) = Some ts'"
  shows "mpc ts' = mpc ts \<and> wakeups ts' = wakeups ts \<and> counter (cv (sys_st ts')) = counter (cv (sys_st ts)) \<and>
    pcs (sys_st ts') ! 0 = pcs (sys_st ts) ! 0 \<and> (spc ts \<noteq> S_Write \<longrightarrow> data ts' = data ts)"
  using st by (cases "spc ts")
    (auto simp: with_sys_Some step_client_iff set_pc_def simp del: step.simps split: if_splits)

lemma wake_inv_spawn:
  assumes wi: "wake_inv ts" and st: "spawn_step ts (spc ts) = Some ts'"
  shows "wake_inv ts'"
proof (cases "spc ts = S_Write")
  case True
  with wi st show ?thesis by (auto simp: wake_inv_def pending_return_def)
next
  case False
  with wi spawn_step_frame [OF st] show ?thesis by (auto simp: wake_inv_def pending_return_def)
qed

lemma wake_inv_exec0:
  assumes inv: "test_inv ts" and wi: "wake_inv ts" and st: "step (sys_st ts) (Exec 0) = Some s'"
  shows "wake_inv (ts\<lparr>sys_st := s'\<rparr>)"
proof -
  from test_inv_pcs [OF inv] obtain p0 p1 where ps: "pcs (sys_st ts) = [p0, p1]" by blast
  with st have ex: "exec_pc 0 p0 (sys_st ts) = Some s'" by simp
  from test_invD(3) [OF inv] ps have mw: "mpc ts \<noteq> M_InWait \<Longrightarrow> p0 = Idle" by simp
  show ?thesis
  proof (cases p0)
    case (Wait_Futex v)
    from test_invD(11) [OF inv] ps Wait_Futex have "v = 0" by simp
    with test_invD(7) [OF inv] have "counter (cv (sys_st ts)) \<noteq> v \<Longrightarrow> counter (cv (sys_st ts)) = 1"
      by auto
    with Wait_Futex wi ps ex show ?thesis
      by (clarsimp simp: wake_inv_def pending_return_def step_simps set_pc_def split: if_splits)
  next
    case Wait_Lock
    with mw have "mpc ts = M_InWait" by auto
    with Wait_Lock wi ps ex show ?thesis
      by (clarsimp simp: wake_inv_def pending_return_def set_pc_def mutex_lock_Some_iff)
  qed (use wi ps ex mw test_inv_p0_wait [OF inv] in \<open>auto simp: wake_inv_def pending_return_def step_simps set_pc_def\<close>)
qed

lemma wake_inv_exec1:
  assumes inv: "test_inv ts" and wi: "wake_inv ts" and st: "step (sys_st ts) (Exec 1) = Some s'"
  shows "wake_inv (ts\<lparr>sys_st := s'\<rparr>)"
proof -
  from test_inv_pcs [OF inv] obtain p0 p1 where ps: "pcs (sys_st ts) = [p0, p1]" by blast
  with st have ex: "exec_pc 1 p1 (sys_st ts) = Some s'" by simp
  from test_inv_p1 [OF inv] ps have "p1 = Notify_Inc One \<or> p1 = Notify_Wake One \<or> p1 = Idle" by simp
  then show ?thesis
  proof (elim disjE)
    assume p1: "p1 = Notify_Inc One"
    with test_invD(13) [OF inv] ps have "counter (cv (sys_st ts)) = 0" by simp
    with p1 wi ps ex show ?thesis by (auto simp: wake_inv_def pending_return_def step_simps set_pc_def)
  next
    assume "p1 = Notify_Wake One"
    with wi ps ex show ?thesis by (auto simp: wake_inv_def pending_return_def set_pc_def split: if_splits)
  next
    assume "p1 = Idle"
    with ex show ?thesis by simp
  qed
qed

lemma wake_inv_wake:
  assumes inv: "test_inv ts" and wi: "wake_inv ts" and q0: "\<And>w. w \<in> set (futex (sys_st ts)) \<Longrightarrow> w = 0"
    and q: "\<And>w. w \<in> set (futex (sys_st ts)) \<Longrightarrow> blocked (pcs (sys_st ts) ! w)"
    and st: "step (sys_st ts) (Wake t w) = Some s'"
  shows "wake_inv (ts\<lparr>sys_st := s'\<rparr>)"
proof (rule test_wakeD [OF inv q0 q st])
  fix v
  assume ps: "pcs (sys_st ts) = [Wait_Blocked v, Notify_Wake One]"
    and s': "s' = set_pc 1 Idle (set_pc 0 Wait_Dec ((sys_st ts)\<lparr>futex := remove1 0 (futex (sys_st ts))\<rparr>))"
  from ps test_invD(10) [OF inv] have "counter (cv (sys_st ts)) = 1" by simp
  with wi s' ps show ?thesis by (auto simp: wake_inv_def pending_return_def set_pc_def)
qed

lemma wake_inv_step:
  assumes inv: "test_inv ts" and si: "sys_inv (sys_st ts)" and wi: "wake_inv ts"
    and st: "test_step ts e = Some ts'" and ns: "\<not> spurious e"
  shows "wake_inv ts'"
proof (cases e)
  case Main
  with st wake_inv_main [OF inv wi] show ?thesis by simp
next
  case Spawn
  with st wake_inv_spawn [OF wi] show ?thesis by simp
next
  case (Internal ev)
  with st have st': "test_step ts (Internal ev) = Some ts'" by simp
  note facts = sys_facts_for_test [OF inv si]
  from inv st' show ?thesis
  proof (cases rule: test_step_internalE)
    case (exec0 s')
    with wake_inv_exec0 [OF inv wi] show ?thesis by simp
  next
    case (exec1 s')
    with wake_inv_exec1 [OF inv wi] show ?thesis by simp
  next
    case (wake s' t w)
    with wake_inv_wake [OF inv wi facts(2,3)] show ?thesis by simp
  next
    case (spurious s' w)
    with ns Internal show ?thesis by simp
  qed
qed


lemma test_reach_wake: "test_reach sp ts \<Longrightarrow> \<not> sp \<Longrightarrow> wake_inv ts"
proof (induction rule: test_reach.induct)
  case init
  show ?case by (rule wake_inv_init)
next
  case (step sp ts e ts')
  from step.hyps(3) step.prems have ns: "\<not> spurious e" by simp
  from test_reach_sys [OF step.hyps(1)] have si: "sys_inv (sys_st ts)" by (rule reachable_sys_inv)
  from wake_inv_step [OF test_reach_inv [OF step.hyps(1)] si step.IH [OF step.prems] step.hyps(2) ns]
  show ?case .
qed

lemma test_reach_wakeups: "test_reach False ts \<Longrightarrow> wakeups ts \<le> 1"
  using test_reach_wake [of False ts] by (auto simp: wake_inv_def pending_return_def)

lemma test_reach_no_wakeups_panic: "test_reach False ts \<Longrightarrow> mpc ts \<noteq> M_Wakeups_Panic"
  using test_reach_wakeups [of ts] test_invD(17) [OF test_reach_inv [of False ts]] by auto

lemma test_reach_no_add_panic: "test_reach False ts \<Longrightarrow> mpc ts \<noteq> M_Add_Panic"
  using test_reach_wake [of False ts] by (simp add: wake_inv_def)

subsection \<open>Any number of spurious wake-ups\<close>

lemma spur_inv_init: "spur_inv 0 test_init"
  by (simp add: spur_inv_def returns_def pending_return_def test_init_def sys_init_def numeral_2_eq_2)

lemma spur_inv_main:
  assumes inv: "test_inv ts" and si: "spur_inv k ts" and st: "main_step ts (mpc ts) = Some ts'"
  shows "spur_inv k ts'"
proof (cases "mpc ts = M_InWait")
  case True
  with st main_step_InWait [OF test_invD(19) [OF inv]] have "pcs (sys_st ts) ! 0 = Idle"
    and "ts' = (if wakeups ts < i32_max then ts\<lparr>wakeups := wakeups ts + 1, mpc := M_Check\<rparr>
                else ts\<lparr>mpc := M_Add_Panic\<rparr>)"
    by (simp_all del: main_step.simps)
  with True si show ?thesis by (simp add: spur_inv_def returns_def pending_return_def)
next
  case False
  with test_invD(3) [OF inv] have p0: "pcs (sys_st ts) ! 0 = Idle" by simp
  from test_inv_length [OF inv] have l: "length (pcs (sys_st ts)) = 2" .
  from st have "mpc ts \<noteq> M_Add_Panic" by auto
  moreover have "wakeups ts' = wakeups ts \<and> counter (cv (sys_st ts')) = counter (cv (sys_st ts)) \<and>
      \<not> pending_return ts' \<and> \<not> at_futex (pcs (sys_st ts') ! 0) \<and> mpc ts' \<noteq> M_Add_Panic"
    using st p0 l False
    by (cases "mpc ts")
      (auto simp: with_sys_Some step_client_iff set_pc_def pending_return_def simp del: step.simps
        split: if_splits)
  ultimately show ?thesis using False p0 si by (auto simp: spur_inv_def returns_def pending_return_def)
qed

lemma spur_inv_spawn:
  assumes si: "spur_inv k ts" and st: "spawn_step ts (spc ts) = Some ts'"
  shows "spur_inv k ts'"
  using si spawn_step_frame [OF st] by (simp add: spur_inv_def returns_def pending_return_def)

lemma spur_inv_exec0:
  assumes inv: "test_inv ts" and si: "spur_inv k ts" and st: "step (sys_st ts) (Exec 0) = Some s'"
  shows "spur_inv k (ts\<lparr>sys_st := s'\<rparr>)"
proof -
  from test_inv_pcs [OF inv] obtain p0 p1 where ps: "pcs (sys_st ts) = [p0, p1]" by blast
  with st have ex: "exec_pc 0 p0 (sys_st ts) = Some s'" by simp
  with test_invD(3) [OF inv] ps have mw: "mpc ts = M_InWait" by auto
  show ?thesis
  proof (cases p0)
    case (Wait_Drop v)
    from test_invD(8) [OF inv] test_invD(18) [OF inv] ps Wait_Drop
    have "counter (cv (sys_st ts)) = 0" by auto
    with Wait_Drop si ps ex show ?thesis
      by (auto simp: spur_inv_def returns_def pending_return_def step_simps set_pc_def)
  next
    case (Wait_Futex v)
    from test_invD(11) [OF inv] ps Wait_Futex have "v = 0" by simp
    with test_invD(7) [OF inv] have "counter (cv (sys_st ts)) \<noteq> v \<Longrightarrow> counter (cv (sys_st ts)) = 1"
      by auto
    with Wait_Futex si ps ex mw show ?thesis
      by (auto simp: spur_inv_def returns_def pending_return_def step_simps set_pc_def split: if_splits)
  next
    case Wait_Lock
    with si ps ex mw show ?thesis
      by (auto simp: spur_inv_def returns_def pending_return_def set_pc_def mutex_lock_Some_iff)
  qed (use si ps ex mw test_inv_p0_wait [OF inv] in
       \<open>auto simp: spur_inv_def returns_def pending_return_def step_simps set_pc_def\<close>)
qed

lemma spur_inv_exec1:
  assumes inv: "test_inv ts" and si: "spur_inv k ts" and st: "step (sys_st ts) (Exec 1) = Some s'"
  shows "spur_inv k (ts\<lparr>sys_st := s'\<rparr>)"
proof -
  from test_inv_pcs [OF inv] obtain p0 p1 where ps: "pcs (sys_st ts) = [p0, p1]" by blast
  with st have ex: "exec_pc 1 p1 (sys_st ts) = Some s'" by simp
  from test_inv_p1 [OF inv] ps have "p1 = Notify_Inc One \<or> p1 = Notify_Wake One \<or> p1 = Idle" by simp
  then show ?thesis
  proof (elim disjE)
    assume p1: "p1 = Notify_Inc One"
    with test_invD(13) [OF inv] ps have "counter (cv (sys_st ts)) = 0" by simp
    with p1 si ps ex show ?thesis
      by (auto simp: spur_inv_def returns_def pending_return_def step_simps set_pc_def)
  next
    assume "p1 = Notify_Wake One"
    with si ps ex show ?thesis
      by (auto simp: spur_inv_def returns_def pending_return_def set_pc_def split: if_splits)
  next
    assume "p1 = Idle"
    with ex show ?thesis by simp
  qed
qed

lemma spur_inv_wake:
  assumes inv: "test_inv ts" and si: "spur_inv k ts" and q0: "\<And>w. w \<in> set (futex (sys_st ts)) \<Longrightarrow> w = 0"
    and q: "\<And>w. w \<in> set (futex (sys_st ts)) \<Longrightarrow> blocked (pcs (sys_st ts) ! w)"
    and st: "step (sys_st ts) (Wake t w) = Some s'"
  shows "spur_inv k (ts\<lparr>sys_st := s'\<rparr>)"
proof (rule test_wakeD [OF inv q0 q st])
  fix v
  assume ps: "pcs (sys_st ts) = [Wait_Blocked v, Notify_Wake One]"
    and s': "s' = set_pc 1 Idle (set_pc 0 Wait_Dec ((sys_st ts)\<lparr>futex := remove1 0 (futex (sys_st ts))\<rparr>))"
  from ps test_invD(10) [OF inv] have "counter (cv (sys_st ts)) = 1" by simp
  moreover from ps test_invD(3) [OF inv] have "mpc ts = M_InWait" by auto
  ultimately show ?thesis using si ps s'
    by (auto simp: spur_inv_def returns_def pending_return_def set_pc_def)
qed

lemma spur_inv_spurious:
  assumes inv: "test_inv ts" and si: "spur_inv k ts" and q0: "\<And>w. w \<in> set (futex (sys_st ts)) \<Longrightarrow> w = 0"
    and q: "\<And>w. w \<in> set (futex (sys_st ts)) \<Longrightarrow> blocked (pcs (sys_st ts) ! w)"
    and st: "step (sys_st ts) (Spurious w) = Some s'"
  shows "spur_inv (Suc k) (ts\<lparr>sys_st := s'\<rparr>)"
proof (rule test_spuriousD [OF inv q0 q st])
  fix v p1
  assume ps: "pcs (sys_st ts) = [Wait_Blocked v, p1]"
    and s': "s' = set_pc 0 Wait_Dec ((sys_st ts)\<lparr>futex := remove1 0 (futex (sys_st ts))\<rparr>)"
  from ps test_invD(3) [OF inv] have "mpc ts = M_InWait" by auto
  with si ps s' show ?thesis by (auto simp: spur_inv_def returns_def pending_return_def set_pc_def)
qed

lemma spur_inv_step:
  assumes inv: "test_inv ts" and si: "sys_inv (sys_st ts)" and sp: "spur_inv k ts"
    and st: "test_step ts e = Some ts'"
  shows "spur_inv (k + (if spurious e then 1 else 0)) ts'"
proof (cases e)
  case Main
  with st spur_inv_main [OF inv sp] show ?thesis by simp
next
  case Spawn
  with st spur_inv_spawn [OF sp] show ?thesis by simp
next
  case (Internal ev)
  with st have st': "test_step ts (Internal ev) = Some ts'" by simp
  note facts = sys_facts_for_test [OF inv si]
  from inv st' show ?thesis
  proof (cases rule: test_step_internalE)
    case (exec0 s')
    with Internal spur_inv_exec0 [OF inv sp] show ?thesis by simp
  next
    case (exec1 s')
    with Internal spur_inv_exec1 [OF inv sp] show ?thesis by simp
  next
    case (wake s' t w)
    with Internal spur_inv_wake [OF inv sp facts(2,3)] show ?thesis by simp
  next
    case (spurious s' w)
    with Internal spur_inv_spurious [OF inv sp facts(2,3)] show ?thesis by simp
  qed
qed

lemma test_run_spur:
  "test_reach True ts \<Longrightarrow> spur_inv k ts \<Longrightarrow> test_run ts es = Some ts' \<Longrightarrow>
   spur_inv (k + length (filter spurious es)) ts'"
proof (induction es arbitrary: ts k)
  case Nil
  then show ?case by simp
next
  case (Cons e es)
  then obtain ts1 where st: "test_step ts e = Some ts1" and r: "test_run ts1 es = Some ts'"
    by (auto split: option.splits)
  from Cons.prems(1) st have reach1: "test_reach True ts1" by (auto intro: test_reach.step)
  from spur_inv_step [OF test_reach_inv [OF Cons.prems(1)]
      reachable_sys_inv [OF test_reach_sys [OF Cons.prems(1)]] Cons.prems(2) st]
  have "spur_inv (k + (if spurious e then 1 else 0)) ts1" .
  from Cons.IH [OF reach1 this r] show ?case by (cases "spurious e") simp_all
qed


subsection \<open>Properties of the test\<close>

text \<open>
  C18: without spurious wake-ups the loop of the test body (lines 72--75) runs at most once
  more than needed: \<open>wakeups\<close> is at most 1, and \<open>assert!(wakeups < 10)\<close> (line 82) never fails.
\<close>

theorem test_wakeups_bound:
  assumes "test_reach False ts"
  shows "wakeups ts \<le> 1 \<and> mpc ts \<noteq> M_Wakeups_Panic"
  using test_reach_wakeups [OF assms] test_reach_no_wakeups_panic [OF assms] by simp

theorem test_wakeups_bound_witness:
  "\<exists>ts. test_run test_init (Main # finish_sched) = Some ts \<and> wakeups ts \<le> 1 \<and> mpc ts \<noteq> M_Wakeups_Panic"
proof -
  from finish_run_reach obtain ts where r: "test_run test_init (Main # finish_sched) = Some ts"
    and re: "test_reach False ts" by blast
  from test_wakeups_bound [OF re] r show ?thesis by blast
qed

text \<open>Every return of \<open>wait\<close> but one is a spurious wake-up; so is every return but
  one before the overflow of line 74, which takes \<open>i32::MAX + 1\<close> returns.\<close>

lemma test_run_returns:
  "test_run test_init es = Some ts \<Longrightarrow> returns ts \<le> int (length (filter spurious es)) + 1"
  using test_run_spur [OF test_reach.init spur_inv_init, of es ts] by (simp add: spur_inv_def)

lemma test_run_wakeups:
  "test_run test_init es = Some ts \<Longrightarrow> wakeups ts \<le> int (length (filter spurious es)) + 1"
  using test_run_returns [of es ts] by (simp add: returns_def split: if_splits)

lemma test_run_add_panic:
  assumes r: "test_run test_init es = Some ts" and m: "mpc ts = M_Add_Panic"
  shows "i32_max \<le> int (length (filter spurious es))"
proof -
  from test_run_reach [of True, OF test_reach.init r] have "test_reach True ts" by simp
  from test_invD(21) [OF test_reach_inv [OF this]] m have "wakeups ts = i32_max" by simp
  with test_run_returns [OF r] m show ?thesis by (simp add: returns_def)
qed

text \<open>
  C28: the test tolerates exactly eight spurious wake-ups. In every run the main thread's
  \<open>wakeups\<close> is at most the number of spurious wake-ups plus one (the return the
  notification causes), so with at most eight of them \<open>assert!(wakeups < 10)\<close> never
  fails; C22 shows that nine can make it fail.
\<close>

theorem test_wakeups_spurious_bound:
  assumes r: "test_run test_init es = Some ts"
  shows "wakeups ts \<le> int (length (filter spurious es)) + 1 \<and>
         (length (filter spurious es) \<le> 8 \<longrightarrow> mpc ts \<noteq> M_Wakeups_Panic)"
proof -
  from test_run_wakeups [OF r] have w: "wakeups ts \<le> int (length (filter spurious es)) + 1" .
  from test_run_reach [OF test_reach.init r] have "test_reach True ts" by simp
  from test_invD(17) [OF test_reach_inv [OF this]] w show ?thesis by auto
qed

theorem test_wakeups_spurious_bound_witness:
  "\<exists>ts. test_run test_init (Main # concat (replicate 1 spurious_round) @ finish_sched) = Some ts \<and>
        wakeups ts = 2 \<and>
        wakeups ts \<le> int (length (filter spurious (Main # concat (replicate 1 spurious_round) @ finish_sched))) + 1"
proof -
  have "int 1 < i32_max" by (simp add: i32_max_def)
  from spurious_rounds_finish [OF this] obtain ts where
    r: "test_run test_init (Main # concat (replicate 1 spurious_round) @ finish_sched) = Some ts"
    and w: "wakeups ts = 2" by auto
  from test_wakeups_spurious_bound [OF r] r w show ?thesis by blast
qed



end
