(* ===== verification/Test_Liveness.thy ===== *)
theory Test_Liveness
  imports Test_Wakeups
begin

text \<open>
  Termination and progress of the test. \<open>test_rank\<close> counts the steps both threads have
  left; every step without a spurious wake-up decreases it, which bounds every run. In every
  reachable state that is not final some thread can take an ordinary step, so without
  spurious wake-ups a run that completes both threads always exists.
\<close>

fun wait_rank :: "pc \<Rightarrow> nat" where
  "wait_rank Wait_Load = 13"
| "wait_rank (Wait_Drop v) = 12"
| "wait_rank (Wait_Futex v) = 11"
| "wait_rank (Wait_Blocked v) = 10"
| "wait_rank Wait_Dec = 9"
| "wait_rank Wait_Lock = 8"
| "wait_rank Idle = 7"
| "wait_rank _ = 0"

fun main_rank :: "main_pc \<Rightarrow> int \<Rightarrow> pc \<Rightarrow> nat" where
  "main_rank M_Lock d p = 15"
| "main_rank M_Check d p = (if d < 100 then 14 else 6)"
| "main_rank M_InWait d p = wait_rank p"
| "main_rank M_Assert d p = 5"
| "main_rank M_Drop d p = 4"
| "main_rank M_Join d p = 3"
| "main_rank M_Check_Wakeups d p = 2"
| "main_rank M_Done d p = 1"
| "main_rank _ d p = 0"

fun notify_rank :: "pc \<Rightarrow> nat" where
  "notify_rank (Notify_Inc k) = 3"
| "notify_rank (Notify_Wake k) = 2"
| "notify_rank Idle = 1"
| "notify_rank _ = 0"

fun spawn_rank :: "spawn_pc \<Rightarrow> pc \<Rightarrow> nat" where
  "spawn_rank S_Sleep p = 8"
| "spawn_rank S_Lock p = 7"
| "spawn_rank S_Write p = 6"
| "spawn_rank S_Unlock p = 5"
| "spawn_rank S_Notify p = 4"
| "spawn_rank S_InNotify p = notify_rank p"
| "spawn_rank S_Done p = 0"

definition test_rank :: "test_state \<Rightarrow> nat" where
  "test_rank ts = main_rank (mpc ts) (data ts) (pcs (sys_st ts) ! 0) + spawn_rank (spc ts) (pcs (sys_st ts) ! 1)"

lemma main_rank_data: "main_rank m 123 p \<le> main_rank m d p"
  by (cases m) simp_all

lemma rank_main:
  assumes inv: "test_inv ts" and wi: "wake_inv ts" and st: "main_step ts (mpc ts) = Some ts'"
  shows "test_rank ts' < test_rank ts"
proof (cases "mpc ts")
  case M_Check
  with inv have "pcs (sys_st ts) ! 0 = Idle" by (simp add: test_invD(3))
  with M_Check st inv show ?thesis
    by (clarsimp simp: test_rank_def with_sys_Some step_client_iff set_pc_def test_inv_length
        simp del: step.simps split: if_splits)
next
  case M_InWait
  note iw = main_step_InWait [OF test_invD(19) [OF inv]]
  from M_InWait st iw have p0: "pcs (sys_st ts) ! 0 = Idle" by (simp del: main_step.simps)
  from M_InWait p0 wi have c: "counter (cv (sys_st ts)) = 1" and "wakeups ts = 0"
    by (auto simp: wake_inv_def pending_return_def)
  then have "wakeups ts < i32_max" by (simp add: i32_max_def)
  with M_InWait st iw have ts': "ts' = ts\<lparr>wakeups := wakeups ts + 1, mpc := M_Check\<rparr>"
    by (simp del: main_step.simps)
  from test_inv_data [OF inv c] M_InWait p0 ts' show ?thesis by (simp add: test_rank_def)
qed (use st in \<open>auto simp: test_rank_def with_sys_Some step_client_iff simp del: step.simps split: if_splits\<close>)

lemma rank_spawn:
  assumes inv: "test_inv ts" and st: "spawn_step ts (spc ts) = Some ts'"
  shows "test_rank ts' < test_rank ts"
proof (cases "spc ts")
  case S_Write
  with st main_rank_data [of "mpc ts" "pcs (sys_st ts) ! 0" "data ts"] show ?thesis
    by (auto simp: test_rank_def)
next
  case S_Notify
  from test_inv_pcs [OF inv] obtain p0 p1 where "pcs (sys_st ts) = [p0, p1]" by blast
  with S_Notify st show ?thesis
    by (clarsimp simp: test_rank_def with_sys_Some step_client_iff set_pc_def simp del: step.simps)
next
  case S_InNotify
  with st show ?thesis by (auto simp: test_rank_def split: if_splits)
qed (use st in \<open>auto simp: test_rank_def with_sys_Some step_client_iff simp del: step.simps\<close>)

lemma rank_exec0:
  assumes inv: "test_inv ts" and st: "step (sys_st ts) (Exec 0) = Some s'"
  shows "test_rank (ts\<lparr>sys_st := s'\<rparr>) < test_rank ts"
proof -
  from test_inv_pcs [OF inv] obtain p0 p1 where ps: "pcs (sys_st ts) = [p0, p1]" by blast
  with st have ex: "exec_pc 0 p0 (sys_st ts) = Some s'" by simp
  with test_invD(3) [OF inv] ps have mw: "mpc ts = M_InWait" by auto
  from ex have "length (pcs s') = 2" using ps by (simp add: exec_pc_length)
  show ?thesis
  proof (cases p0)
    case Wait_Lock
    with mw ps ex show ?thesis by (clarsimp simp: test_rank_def set_pc_def mutex_lock_Some_iff)
  next
    case (Notify_Inc k)
    with test_inv_p0_wait [OF inv, of k] ps show ?thesis by simp
  next
    case (Notify_Wake k)
    with test_inv_p0_wait [OF inv, of k] ps show ?thesis by simp
  qed (use mw ps ex in \<open>auto simp: test_rank_def step_simps set_pc_def split: if_splits\<close>)
qed

lemma rank_exec1:
  assumes inv: "test_inv ts" and st: "step (sys_st ts) (Exec 1) = Some s'"
  shows "test_rank (ts\<lparr>sys_st := s'\<rparr>) < test_rank ts"
proof -
  from test_inv_pcs [OF inv] obtain p0 p1 where ps: "pcs (sys_st ts) = [p0, p1]" by blast
  with st have ex: "exec_pc 1 p1 (sys_st ts) = Some s'" by simp
  from ex have "p1 \<noteq> Idle" by auto
  with test_invD(1) [OF inv] ps have sp: "spc ts = S_InNotify" by auto
  from test_inv_p1 [OF inv] ps \<open>p1 \<noteq> Idle\<close> have "p1 = Notify_Inc One \<or> p1 = Notify_Wake One" by simp
  with sp ps ex show ?thesis by (auto simp: test_rank_def step_simps set_pc_def split: if_splits)
qed

lemma rank_wake:
  assumes inv: "test_inv ts" and q0: "\<And>w. w \<in> set (futex (sys_st ts)) \<Longrightarrow> w = 0"
    and q: "\<And>w. w \<in> set (futex (sys_st ts)) \<Longrightarrow> blocked (pcs (sys_st ts) ! w)"
    and st: "step (sys_st ts) (Wake t w) = Some s'"
  shows "test_rank (ts\<lparr>sys_st := s'\<rparr>) < test_rank ts"
proof (rule test_wakeD [OF inv q0 q st])
  fix v
  assume ps: "pcs (sys_st ts) = [Wait_Blocked v, Notify_Wake One]"
    and s': "s' = set_pc 1 Idle (set_pc 0 Wait_Dec ((sys_st ts)\<lparr>futex := remove1 0 (futex (sys_st ts))\<rparr>))"
  from ps test_invD(1) [OF inv] have "spc ts = S_InNotify" by auto
  moreover from ps test_invD(3) [OF inv] have "mpc ts = M_InWait" by auto
  ultimately show ?thesis using ps s' by (simp add: test_rank_def set_pc_def)
qed

lemma rank_step:
  assumes inv: "test_inv ts" and si: "sys_inv (sys_st ts)" and wi: "wake_inv ts"
    and st: "test_step ts e = Some ts'" and ns: "\<not> spurious e"
  shows "test_rank ts' < test_rank ts"
proof (cases e)
  case Main
  with st rank_main [OF inv wi] show ?thesis by simp
next
  case Spawn
  with st rank_spawn [OF inv] show ?thesis by simp
next
  case (Internal ev)
  with st have st': "test_step ts (Internal ev) = Some ts'" by simp
  note facts = sys_facts_for_test [OF inv si]
  from inv st' show ?thesis
  proof (cases rule: test_step_internalE)
    case (exec0 s')
    with rank_exec0 [OF inv] show ?thesis by simp
  next
    case (exec1 s')
    with rank_exec1 [OF inv] show ?thesis by simp
  next
    case (wake s' t w)
    with rank_wake [OF inv facts(2,3)] show ?thesis by simp
  next
    case (spurious s' w)
    with ns Internal show ?thesis by simp
  qed
qed

lemma test_run_rank:
  "test_reach False ts \<Longrightarrow> test_run ts es = Some ts' \<Longrightarrow> list_all (\<lambda>e. \<not> spurious e) es \<Longrightarrow>
   length es + test_rank ts' \<le> test_rank ts"
proof (induction es arbitrary: ts)
  case Nil
  then show ?case by simp
next
  case (Cons e es)
  then obtain ts1 where st: "test_step ts e = Some ts1" and r: "test_run ts1 es = Some ts'"
    by (auto split: option.splits)
  from Cons.prems(3) have ns: "\<not> spurious e" by simp
  from Cons.prems(1) st ns have reach1: "test_reach False ts1" by (auto intro: test_reach.step)
  have "test_rank ts1 < test_rank ts"
    by (rule rank_step [OF test_reach_inv [OF Cons.prems(1)]
          reachable_sys_inv [OF test_reach_sys [OF Cons.prems(1)]]
          test_reach_wake [OF Cons.prems(1)] st ns]) simp
  with Cons.IH [OF reach1 r] Cons.prems(3) show ?case by simp
qed

lemma main_progress:
  assumes inv: "test_inv ts" and mh: "main_holds ts" and na: "mpc ts \<noteq> M_Add_Panic"
  shows "\<exists>e. \<not> spurious e \<and> test_step ts e \<noteq> None"
proof -
  from test_inv_pcs [OF inv] obtain p0 p1 where ps: "pcs (sys_st ts) = [p0, p1]" by blast
  from test_invD(14) [OF inv] mh have l0: "lock (sys_st ts) = Some 0" by simp
  from test_invD(3) [OF inv] ps have mw: "mpc ts \<noteq> M_InWait \<Longrightarrow> p0 = Idle" by simp
  from mh na test_invD(4) [OF inv] have
    "mpc ts = M_Check \<or> mpc ts = M_Assert \<or> mpc ts = M_Drop \<or>
     mpc ts = M_InWait \<and> (holds_guard p0 \<or> p0 = Idle)"
    using ps by (auto simp: main_holds_def)
  then show ?thesis
  proof (elim disjE conjE)
    assume m: "mpc ts = M_InWait" and "holds_guard p0"
    then have "p0 = Wait_Load \<or> (\<exists>v. p0 = Wait_Drop v)" by (cases p0) auto
    with ps have "test_step ts (Internal (Exec 0)) \<noteq> None" by (auto simp: with_sys_def)
    then show ?thesis by (intro exI [of _ "Internal (Exec 0)"]) simp
  qed (use l0 mw ps in \<open>auto simp: with_sys_def wait_entry_def mutex_unlock_def
        intro!: exI [of _ Main] split: option.splits\<close>)
qed

lemma spawn_progress:
  assumes inv: "test_inv ts" and sd: "spc ts \<noteq> S_Done" and sl: "spc ts = S_Lock \<Longrightarrow> \<not> main_holds ts"
  shows "\<exists>e. \<not> spurious e \<and> test_step ts e \<noteq> None"
proof -
  from test_inv_pcs [OF inv] obtain p0 p1 where ps: "pcs (sys_st ts) = [p0, p1]" by blast
  from test_invD(1) [OF inv] ps have p1: "spc ts \<noteq> S_InNotify \<Longrightarrow> p1 = Idle" by simp
  show ?thesis
  proof (cases "spc ts = S_InNotify \<and> p1 = Notify_Wake One \<and> futex (sys_st ts) \<noteq> []")
    case True
    then obtain w ws where "futex (sys_st ts) = w # ws" by (cases "futex (sys_st ts)") auto
    with True ps have "test_step ts (Internal (Wake 1 w)) \<noteq> None"
      by (simp add: with_sys_def wake_one_step_def futex_wake_one_def)
    then show ?thesis by (intro exI [of _ "Internal (Wake 1 w)"]) simp
  next
    case nw: False
    show ?thesis
    proof (cases "spc ts = S_InNotify \<and> p1 \<noteq> Idle")
      case True
      with test_inv_p1 [OF inv] ps nw have "test_step ts (Internal (Exec 1)) \<noteq> None"
        by (auto simp: with_sys_def)
      then show ?thesis by (intro exI [of _ "Internal (Exec 1)"]) simp
    next
      case False
      with p1 have p1i: "p1 = Idle" by auto
      from test_invD(14,15,16) [OF inv] sl
      have "spc ts = S_Lock \<Longrightarrow> lock (sys_st ts) = None" by auto
      with p1i ps sd test_invD(15) [OF inv] have "test_step ts Spawn \<noteq> None"
        by (cases "spc ts") (auto simp: with_sys_def mutex_unlock_def mutex_lock_def notify_entry_def)
      then show ?thesis by (intro exI [of _ Spawn]) simp
    qed
  qed
qed

lemma main_progress_alone:
  assumes inv: "test_inv ts" and sd: "spc ts = S_Done" and mh: "\<not> main_holds ts"
    and nd: "mpc ts \<noteq> M_Done" and np: "mpc ts \<noteq> M_Wakeups_Panic"
  shows "\<exists>e. \<not> spurious e \<and> test_step ts e \<noteq> None"
proof -
  from test_inv_pcs [OF inv] obtain p0 p1 where ps: "pcs (sys_st ts) = [p0, p1]" by blast
  from test_invD(1) [OF inv] sd ps have p1: "p1 = Idle" by simp
  from test_invD(14,15,16) [OF inv] sd mh have l: "lock (sys_st ts) = None" by auto
  from test_invD(3) [OF inv] ps have mw: "mpc ts \<noteq> M_InWait \<Longrightarrow> p0 = Idle" by simp
  show ?thesis
  proof (cases "mpc ts = M_InWait \<and> p0 \<noteq> Idle")
    case True
    from test_invD(6) [OF inv] sd p1 ps have "\<not> blocked p0" by (simp add: notify_done_def)
    with True test_inv_p0_wait [OF inv] ps l have "test_step ts (Internal (Exec 0)) \<noteq> None"
      by (cases p0) (auto simp: with_sys_def mutex_lock_def futex_wait_def)
    then show ?thesis by (intro exI [of _ "Internal (Exec 0)"]) simp
  next
    case False
    with mw have p0: "p0 = Idle" by auto
    from test_invD(4) [OF inv] mh nd np p0 l sd ps have "test_step ts Main \<noteq> None"
      by (cases "mpc ts") (auto simp: with_sys_def mutex_lock_def main_holds_def)
    then show ?thesis by (intro exI [of _ Main]) simp
  qed
qed

lemma test_step_enabled:
  assumes inv: "test_inv ts" and nf: "\<not> test_final ts" and np: "mpc ts \<noteq> M_Wakeups_Panic"
    and na: "mpc ts \<noteq> M_Add_Panic"
  shows "\<exists>e. \<not> spurious e \<and> test_step ts e \<noteq> None"
proof (cases "main_holds ts")
  case True
  from main_progress [OF inv True na] show ?thesis .
next
  case mh: False
  show ?thesis
  proof (cases "spc ts = S_Done")
    case True
    with nf have "mpc ts \<noteq> M_Done" by (simp add: test_final_def)
    from main_progress_alone [OF inv True mh this np] show ?thesis .
  next
    case False
    from spawn_progress [OF inv False] mh show ?thesis by blast
  qed
qed

lemma test_reach_completes:
  "test_reach False ts \<Longrightarrow>
   \<exists>es ts'. test_run ts es = Some ts' \<and> list_all (\<lambda>e. \<not> spurious e) es \<and> test_final ts'"
proof (induction "test_rank ts" arbitrary: ts rule: less_induct)
  case less
  show ?case
  proof (cases "test_final ts")
    case True
    then show ?thesis by (intro exI [of _ "[]"]) simp
  next
    case False
    from test_step_enabled [OF test_reach_inv [OF less.prems] False test_reach_no_wakeups_panic [OF less.prems]
        test_reach_no_add_panic [OF less.prems]]
    obtain e ts1 where ns: "\<not> spurious e" and st: "test_step ts e = Some ts1" by blast
    from less.prems st ns have r1: "test_reach False ts1" by (auto intro: test_reach.step)
    have "test_rank ts1 < test_rank ts"
      by (rule rank_step [OF test_reach_inv [OF less.prems]
            reachable_sys_inv [OF test_reach_sys [OF less.prems]]
            test_reach_wake [OF less.prems] st ns]) simp
    from less.hyps [OF this r1] obtain es ts' where
      "test_run ts1 es = Some ts'" "list_all (\<lambda>e. \<not> spurious e) es" "test_final ts'" by blast
    with st ns show ?thesis by (intro exI [of _ "e # es"]) auto
  qed
qed


subsection \<open>Properties of the test\<close>

text \<open>
  C19: without spurious wake-ups the test terminates: every schedule of its two threads and of
  the condition variable's steps has at most 23 steps.
\<close>

theorem test_terminates:
  assumes "test_run test_init es = Some ts" and "list_all (\<lambda>e. \<not> spurious e) es"
  shows "length es \<le> 23"
proof -
  from test_run_rank [OF test_reach.init assms] have "length es \<le> test_rank test_init" by simp
  then show ?thesis by (simp add: test_rank_def test_init_def sys_init_def numeral_2_eq_2)
qed

theorem test_terminates_witness:
  "\<exists>ts. test_run test_init (Main # finish_sched) = Some ts \<and> length (Main # finish_sched) \<le> 23"
proof -
  from finish_run_reach obtain ts where r: "test_run test_init (Main # finish_sched) = Some ts" by blast
  have "list_all (\<lambda>e. \<not> spurious e) (Main # finish_sched)" by (simp add: finish_sched_def)
  from test_terminates [OF r this] r show ?thesis by blast
qed

text \<open>
  C20: the test never deadlocks: in every reachable state, with or without spurious wake-ups,
  that is neither the end of both threads nor one of the panics of the main thread that end
  the test (\<open>assert!(wakeups < 10)\<close> of line 82, the \<open>i32\<close> overflow of
  \<open>wakeups += 1\<close> at line 74), some thread can take a step that is not a spurious wake-up.
\<close>

theorem test_no_deadlock:
  assumes "test_reach sp ts" and "\<not> test_final ts" and "mpc ts \<noteq> M_Wakeups_Panic"
    and "mpc ts \<noteq> M_Add_Panic"
  shows "\<exists>e. \<not> spurious e \<and> test_step ts e \<noteq> None"
  using test_step_enabled [OF test_reach_inv [OF assms(1)] assms(2,3,4)] .

theorem test_no_deadlock_witness:
  "\<exists>e. \<not> spurious e \<and> test_step (loop_state 2) e \<noteq> None"
proof -
  have "int 2 \<le> i32_max" by (simp add: i32_max_def)
  note r = loop_state_reach [OF this]
  have "\<not> test_final (loop_state 2)" "mpc (loop_state 2) \<noteq> M_Wakeups_Panic"
    "mpc (loop_state 2) \<noteq> M_Add_Panic"
    by (simp_all add: test_final_def loop_state_def)
  from test_no_deadlock [OF r this] show ?thesis .
qed

text \<open>
  C21: without spurious wake-ups the test always completes: from every reachable state a
  schedule of ordinary steps takes both threads to their end, the main thread past both
  assertions.
\<close>

theorem test_completes:
  assumes "test_reach False ts"
  shows "\<exists>es ts'. test_run ts es = Some ts' \<and> list_all (\<lambda>e. \<not> spurious e) es \<and> test_final ts' \<and>
           wakeups ts' \<le> 1"
proof -
  from test_reach_completes [OF assms] obtain es ts' where r: "test_run ts es = Some ts'"
    and ns: "list_all (\<lambda>e. \<not> spurious e) es" and f: "test_final ts'" by blast
  from test_run_reach [OF assms r] ns have "test_reach False ts'" by simp
  from test_reach_wakeups [OF this] r ns f show ?thesis by blast
qed

theorem test_completes_witness:
  "\<exists>es ts'. test_run test_init es = Some ts' \<and> list_all (\<lambda>e. \<not> spurious e) es \<and> test_final ts' \<and>
            wakeups ts' \<le> 1"
  using test_completes [OF test_reach.init] .

end
