(* ===== verification/Test_Outcome.thy ===== *)
theory Test_Outcome
  imports Test_Liveness
begin

text \<open>
  The verdict of the test harness on \<open>#[test] fn test_condvar()\<close> (lines 56--83): the
  test passes when the function returns and fails when it panics, at
  \<open>assert_eq!(*m, 123)\<close> (line 77, inside the scope, which re-raises the panic after
  joining the spawned thread), at the overflow of \<open>wakeups += 1\<close> (line 74, inside the
  scope as well) or at \<open>assert!(wakeups < 10)\<close> (line 82). \<open>test_outcome\<close>
  reads the verdict off a state of the test model; a state in which the main thread has
  neither returned nor panicked is still running.
\<close>

datatype test_result = Test_Passed | Test_Failed string | Test_Running

definition test_outcome :: "test_state \<Rightarrow> test_result" where
  "test_outcome ts =
     (case mpc ts of
        M_Done \<Rightarrow> Test_Passed
      | M_Panic \<Rightarrow> Test_Failed ''assertion `left == right` failed''
      | M_Add_Panic \<Rightarrow> Test_Failed ''attempt to add with overflow''
      | M_Wakeups_Panic \<Rightarrow> Test_Failed ''assertion failed: wakeups < 10''
      | _ \<Rightarrow> Test_Running)"

lemma test_final_stuck:
  assumes inv: "test_inv ts" and f: "test_final ts" and ns: "\<not> spurious e"
  shows "test_step ts e = None"
proof -
  from f have m: "mpc ts = M_Done" and sd: "spc ts = S_Done" by (simp_all add: test_final_def)
  from test_invD(1,3) [OF inv] m sd have "pcs (sys_st ts) ! 0 = Idle" "pcs (sys_st ts) ! 1 = Idle"
    by simp_all
  moreover from test_inv_length [OF inv] have "length (pcs (sys_st ts)) = 2" .
  ultimately have idle: "\<And>t. t < length (pcs (sys_st ts)) \<Longrightarrow> pcs (sys_st ts) ! t = Idle"
    by (auto simp: less_2_cases_iff)
  show ?thesis
  proof (cases e)
    case (Internal ev)
    with ns idle show ?thesis by (cases ev) (auto simp: wake_one_step_def with_sys_def)
  qed (use m sd in simp_all)
qed

lemma spurious_rounds_count: "length (filter spurious (concat (replicate n spurious_round))) = n"
  by (induction n) (simp_all add: spurious_round_def)

subsection \<open>The test passes\<close>

text \<open>
  C33: \<open>test_condvar\<close> passes. Whatever the scheduler does and with up to eight spurious
  returns of \<open>atomic_wait::wait\<close>, a run of the test in which no step other than a spurious
  wake-up is enabled any more has ended with the verdict \<open>Test_Passed\<close>: both threads
  have finished and neither assertion has fired.
\<close>

theorem test_condvar_passes:
  assumes r: "test_run test_init es = Some ts" and sp: "length (filter spurious es) \<le> 8"
    and stuck: "\<forall>e. \<not> spurious e \<longrightarrow> test_step ts e = None"
  shows "test_outcome ts = Test_Passed"
proof -
  from test_run_reach [of True, OF test_reach.init r] have "test_reach True ts" by simp
  then have inv: "test_inv ts" by (rule test_reach_inv)
  from test_run_wakeups [OF r] sp have w: "wakeups ts \<le> 9" by linarith
  have np: "mpc ts \<noteq> M_Wakeups_Panic"
  proof
    assume "mpc ts = M_Wakeups_Panic"
    with test_invD(17) [OF inv] w show False by simp
  qed
  have na: "mpc ts \<noteq> M_Add_Panic"
  proof
    assume "mpc ts = M_Add_Panic"
    from test_run_add_panic [OF r this] sp show False by (simp add: i32_max_def)
  qed
  have "test_final ts"
  proof (rule ccontr)
    assume "\<not> test_final ts"
    from test_step_enabled [OF inv this np na] obtain e
      where e: "\<not> spurious e" "test_step ts e \<noteq> None" by blast
    from e(2) mp [OF spec [OF stuck, of e] e(1)] show False by (rule notE)
  qed
  then show ?thesis by (simp add: test_final_def test_outcome_def)
qed

theorem test_condvar_passes_witness:
  "\<exists>ts. test_run test_init (Main # concat (replicate 8 spurious_round) @ finish_sched) = Some ts \<and>
        wakeups ts = 9 \<and> test_outcome ts = Test_Passed"
proof -
  have "int 8 < i32_max" by (simp add: i32_max_def)
  from spurious_rounds_finish [OF this] obtain ts
    where r: "test_run test_init (Main # concat (replicate 8 spurious_round) @ finish_sched) = Some ts"
      and w: "wakeups ts = 9" "spc ts = S_Done" "mpc ts = M_Done" by auto
  from w have f: "test_final ts" by (simp add: test_final_def)
  from test_run_reach [of True, OF test_reach.init r] have "test_reach True ts" by simp
  then have inv: "test_inv ts" by (rule test_reach_inv)
  have sp: "length (filter spurious (Main # concat (replicate 8 spurious_round) @ finish_sched)) \<le> 8"
    by (simp add: spurious_rounds_count finish_sched_def)
  from test_condvar_passes [OF r sp] test_final_stuck [OF inv f] r w show ?thesis by blast
qed

end
