(* ===== verification/Fast_Path.thy ===== *)
theory Fast_Path
  imports Properties
begin

text \<open>
  The fast path of \<open>notify_one\<close> / \<open>notify_all\<close>: the guard
  \<open>if self.num_waiters.load(Relaxed) > 0\<close> (lines 21 and 27) skips the \<open>fetch_add\<close>
  and the wake when no waiter is seen. The spec (section 9) calls the check an
  optimisation that must not change what waiters observe. Two facts make this precise:
  the absolute value of \<open>counter\<close> is unobservable, because shifting the generation and
  every waiter's snapshot by the same amount commutes with every step of every thread
  (\<open>shift\<close>); and from a reachable state in which no waiter is seen, the notification
  without the guard (\<open>notify_unguarded\<close>, the same lines 22--23 / 28--29 run
  unconditionally) ends in the state of the guarded one shifted by one generation.
\<close>

text \<open>A waiter's snapshot, carried by its program counter, moved by \<open>d\<close> generations.\<close>

fun shift_pc :: "u32 \<Rightarrow> pc \<Rightarrow> pc" where
  "shift_pc d (Wait_Drop v) = Wait_Drop (v + d)"
| "shift_pc d (Wait_Futex v) = Wait_Futex (v + d)"
| "shift_pc d (Wait_Blocked v) = Wait_Blocked (v + d)"
| "shift_pc d p = p"

definition shift :: "u32 \<Rightarrow> sys \<Rightarrow> sys" where
  "shift d s = s\<lparr>cv := (cv s)\<lparr>counter := counter (cv s) + d\<rparr>, pcs := map (shift_pc d) (pcs s)\<rparr>"

text \<open>
  The reference notification: the body of \<open>notify_one\<close> / \<open>notify_all\<close> without the
  guard of line 21 / 27, run by thread \<open>t\<close> from client code to its return.
\<close>

definition notify_unguarded :: "kind \<Rightarrow> tid \<Rightarrow> sys \<Rightarrow> sys option" where
  "notify_unguarded k t s =
     (if pcs s ! t = Idle then
        Option.bind (exec_pc t (Notify_Inc k) (set_pc t (Notify_Inc k) s))
          (\<lambda>s1. exec_pc t (Notify_Wake k) s1)
      else None)"

subsection \<open>Shifting the generation\<close>

lemma shift_pc_eq_simps [simp]:
  "shift_pc d p = Idle \<longleftrightarrow> p = Idle"
  "shift_pc d p = Wait_Load \<longleftrightarrow> p = Wait_Load"
  "shift_pc d p = Wait_Dec \<longleftrightarrow> p = Wait_Dec"
  "shift_pc d p = Wait_Lock \<longleftrightarrow> p = Wait_Lock"
  "shift_pc d p = Notify_Inc k \<longleftrightarrow> p = Notify_Inc k"
  "shift_pc d p = Notify_Wake k \<longleftrightarrow> p = Notify_Wake k"
  by (cases p; simp)+

lemma shift_simps [simp]:
  "futex (shift d s) = futex s" "lock (shift d s) = lock s"
  "num_waiters (cv (shift d s)) = num_waiters (cv s)"
  "counter (cv (shift d s)) = counter (cv s) + d"
  "pcs (shift d s) = map (shift_pc d) (pcs s)"
  by (simp_all add: shift_def)

lemma shift_update [simp]:
  "(shift d s)\<lparr>lock := m\<rparr> = shift d (s\<lparr>lock := m\<rparr>)"
  "(shift d s)\<lparr>futex := q\<rparr> = shift d (s\<lparr>futex := q\<rparr>)"
  "(shift d s)\<lparr>cv := register_waiter (cv (shift d s))\<rparr> = shift d (s\<lparr>cv := register_waiter (cv s)\<rparr>)"
  "(shift d s)\<lparr>cv := deregister_waiter (cv (shift d s))\<rparr> = shift d (s\<lparr>cv := deregister_waiter (cv s)\<rparr>)"
  "(shift d s)\<lparr>cv := bump_counter (cv (shift d s))\<rparr> = shift d (s\<lparr>cv := bump_counter (cv s)\<rparr>)"
  by (simp_all add: shift_def register_waiter_def deregister_waiter_def bump_counter_def ac_simps)

lemma set_pc_shift: "set_pc t (shift_pc d p) (shift d s) = shift d (set_pc t p s)"
  by (simp add: set_pc_def shift_def map_update)

lemma set_pc_shift_fixed [simp]: "shift_pc d p = p \<Longrightarrow> set_pc t p (shift d s) = shift d (set_pc t p s)"
  using set_pc_shift [of t d p s] by simp

lemma wake_threads_shift [simp]: "wake_threads ws (shift d s) = shift d (wake_threads ws s)"
  by (induction ws arbitrary: s) simp_all

lemma exec_pc_shift: "exec_pc t (shift_pc d p) (shift d s) = map_option (shift d) (exec_pc t p s)"
proof (cases "(t, p, s)" rule: exec_pc.cases)
  case (2 t s)
  then show ?thesis
    using set_pc_shift [of t d "Wait_Drop (counter (cv s))" s] by (simp add: snapshot_def)
next
  case (3 t v s)
  then show ?thesis
    using set_pc_shift [of t d "Wait_Futex v" "s\<lparr>lock := mutex_unlock (lock s)\<rparr>"] by simp
next
  case (4 t v s)
  then show ?thesis
    using set_pc_shift [of t d "Wait_Blocked v" "s\<lparr>futex := q\<rparr>" for q]
    by (simp add: futex_wait_def)
next
  case (7 t s)
  then show ?thesis by (simp add: mutex_lock_def split: option.splits)
next
  case (10 t s)
  then show ?thesis by (simp add: futex_wake_all_def)
qed simp_all

lemma step_shift: "step (shift d s) e = map_option (shift d) (step s e)"
  by (cases e) (auto simp: exec_pc_shift wait_entry_def notify_entry_def has_waiters_def
      wake_one_step_def futex_wake_one_def option.map_comp comp_def split: option.splits)

lemma shift_pc_unregistered: "\<not> registered p \<Longrightarrow> shift_pc d p = p"
  by (cases p) simp_all

lemma no_waiters_unregistered:
  assumes r: "reachable s" and n: "length (pcs s) < 2 ^ 64" and w: "\<not> has_waiters (cv s)"
  shows "\<forall>p \<in> set (pcs s). \<not> registered p"
proof -
  from w have "num_waiters (cv s) = 0" by (simp add: has_waiters_def word_gt_0)
  then have "unat (num_waiters (cv s)) = 0" by simp
  with unat_num_waiters [OF r n] have "filter registered (pcs s) = []" by simp
  then show ?thesis by (simp add: filter_empty_conv)
qed

lemma no_waiters_shift:
  assumes "\<forall>p \<in> set (pcs s). \<not> registered p"
  shows "shift d s = s\<lparr>cv := (cv s)\<lparr>counter := counter (cv s) + d\<rparr>\<rparr>"
proof -
  from assms have "map (shift_pc d) (pcs s) = pcs s"
    by (simp add: map_idI shift_pc_unregistered)
  then show ?thesis by (simp add: shift_def)
qed

lemma no_waiters_futex:
  assumes r: "reachable s" and u: "\<forall>p \<in> set (pcs s). \<not> registered p"
  shows "futex s = []"
proof (rule ccontr)
  assume "futex s \<noteq> []"
  then obtain w where "w \<in> set (futex s)" by (cases "futex s") auto
  from reachable_queue_blocked [OF r this] have "w < length (pcs s)" "blocked (pcs s ! w)" by simp_all
  with u blocked_registered show False by (metis nth_mem)
qed

subsection \<open>Properties of the fast path\<close>

text \<open>
  C23: the generation is unobservable: running any schedule from a state whose
  \<open>counter\<close> and waiters' snapshots are all moved by \<open>d\<close> is running it from the
  original state and moving the result by \<open>d\<close>; the same steps are enabled and blocked.
\<close>

theorem run_shift: "run (shift d s) es = map_option (shift d) (run s es)"
  by (induction es arbitrary: s) (simp_all add: step_shift split: option.splits)

text \<open>
  C24: the fast path of \<open>notify_one\<close> / \<open>notify_all\<close> is sound: when no waiter is seen
  (lines 21 / 27), the guarded call returns at once and leaves the state unchanged, and the
  same call without the guard bumps the generation and wakes nobody, ending in the same
  state moved by one generation, which by C23 no schedule can tell apart.
\<close>

theorem notify_fast_path_equiv:
  assumes r: "reachable s" and t: "t < length (pcs s)" and i: "pcs s ! t = Idle"
    and w: "\<not> has_waiters (cv s)" and n: "length (pcs s) < 2 ^ 64"
  shows "step s (Call_notify t k) = Some s \<and> notify_unguarded k t s = Some (shift 1 s)"
proof -
  from no_waiters_unregistered [OF r n w] have u: "\<forall>p \<in> set (pcs s). \<not> registered p" .
  from no_waiters_futex [OF r u] have q: "futex s = []" .
  from t i have same: "(pcs s)[t := Idle] = pcs s" by (simp add: list_update_same_conv)
  have "notify_unguarded k t s = Some (s\<lparr>cv := (cv s)\<lparr>counter := counter (cv s) + 1\<rparr>\<rparr>)"
    using i q same by (cases k) (simp_all add: notify_unguarded_def set_pc_def step_simps)
  with no_waiters_shift [OF u, of 1] t i w show ?thesis by (simp add: notify_entry_def)
qed

theorem notify_fast_path_equiv_witness:
  "step (sys_init 3) (Call_notify 1 One) = Some (sys_init 3) \<and>
   notify_unguarded One 1 (sys_init 3) = Some (shift 1 (sys_init 3))"
proof -
  have "1 < length (pcs (sys_init 3))" "pcs (sys_init 3) ! 1 = Idle" "\<not> has_waiters (cv (sys_init 3))"
    "length (pcs (sys_init 3)) < 2 ^ 64"
    by (simp_all add: sys_init_def condvar_new_def has_waiters_def)
  from notify_fast_path_equiv [OF reachable.init this] show ?thesis .
qed

end
