(* ===== verification/Monitor.thy ===== *)
theory Monitor
  imports Properties
begin

text \<open>
  The contract of a condition variable used with a mutex, as the spec states it
  (sections 1, 4.1 and 8): \<open>wait\<close> releases the lock and makes the caller wait, in one
  step as far as other threads can tell; a waiting thread may be woken by a notification
  or spuriously; a woken thread returns from \<open>wait\<close> only by taking the lock again;
  notifications do not touch the lock. \<open>amon\<close> is the abstract state (the lock holder
  and one status per thread), \<open>astep\<close> the abstract steps, \<open>a_reach\<close> the abstractly
  reachable states. \<open>abs_sys\<close> maps a state of the implementation to it: a thread
  before line 38 still runs client code (it holds the lock), a thread between lines 38
  and 40 or blocked in the futex waits, a thread after the futex call is woken.
\<close>

datatype astat = A_Run | A_Wait | A_Ready

record amon =
  a_holder :: "tid option"
  a_st :: "astat list"

definition a_init :: "nat \<Rightarrow> amon" where
  "a_init n = \<lparr>a_holder = None, a_st = replicate n A_Run\<rparr>"

text \<open>Waking the waiting threads \<open>ws\<close> at once (a notification, or a spurious return).\<close>

definition wake_set :: "tid list \<Rightarrow> astat list \<Rightarrow> astat list" where
  "wake_set ws xs = fold (\<lambda>w ys. ys[w := A_Ready]) ws xs"

inductive astep :: "amon \<Rightarrow> amon \<Rightarrow> bool" where
  a_lock: "t < length (a_st m) \<Longrightarrow> a_st m ! t = A_Run \<Longrightarrow> a_holder m = None \<Longrightarrow>
    astep m (m\<lparr>a_holder := Some t\<rparr>)"
| a_unlock: "t < length (a_st m) \<Longrightarrow> a_st m ! t = A_Run \<Longrightarrow> a_holder m = Some t \<Longrightarrow>
    astep m (m\<lparr>a_holder := None\<rparr>)"
| a_wait: "t < length (a_st m) \<Longrightarrow> a_st m ! t = A_Run \<Longrightarrow> a_holder m = Some t \<Longrightarrow>
    astep m \<lparr>a_holder = None, a_st = (a_st m)[t := A_Wait]\<rparr>"
| a_wake: "\<forall>w \<in> set ws. w < length (a_st m) \<and> a_st m ! w = A_Wait \<Longrightarrow>
    astep m (m\<lparr>a_st := wake_set ws (a_st m)\<rparr>)"
| a_return: "t < length (a_st m) \<Longrightarrow> a_st m ! t = A_Ready \<Longrightarrow> a_holder m = None \<Longrightarrow>
    astep m \<lparr>a_holder = Some t, a_st = (a_st m)[t := A_Run]\<rparr>"

code_pred astep .

inductive a_reach :: "amon \<Rightarrow> bool" where
  init: "a_reach (a_init n)"
| step: "a_reach m \<Longrightarrow> astep m m' \<Longrightarrow> a_reach m'"

fun abs_pc :: "pc \<Rightarrow> astat" where
  "abs_pc (Wait_Futex v) = A_Wait"
| "abs_pc (Wait_Blocked v) = A_Wait"
| "abs_pc Wait_Dec = A_Ready"
| "abs_pc Wait_Lock = A_Ready"
| "abs_pc _ = A_Run"

definition abs_sys :: "sys \<Rightarrow> amon" where
  "abs_sys s = \<lparr>a_holder = lock s, a_st = map abs_pc (pcs s)\<rparr>"

subsection \<open>The simulation\<close>

lemma abs_sys_simps [simp]:
  "a_holder (abs_sys s) = lock s" "a_st (abs_sys s) = map abs_pc (pcs s)"
  by (simp_all add: abs_sys_def)

lemma abs_sys_frame [simp]:
  "abs_sys (s\<lparr>futex := q\<rparr>) = abs_sys s" "abs_sys (s\<lparr>cv := c\<rparr>) = abs_sys s"
  by (simp_all add: abs_sys_def)

lemma blocked_abs_wait: "blocked p \<Longrightarrow> abs_pc p = A_Wait"
  by (cases p) simp_all

lemma abs_sys_lock: "abs_sys (s\<lparr>lock := m\<rparr>) = (abs_sys s)\<lparr>a_holder := m\<rparr>"
  by (simp add: abs_sys_def)

lemma abs_set_pc_same:
  "t < length (pcs s) \<Longrightarrow> abs_pc p = abs_pc (pcs s ! t) \<Longrightarrow> abs_sys (set_pc t p s) = abs_sys s"
  by (simp add: abs_sys_def set_pc_def map_update list_update_same_conv)

lemma wake_set_simps [simp]:
  "wake_set [] xs = xs" "wake_set (w # ws) xs = wake_set ws (xs[w := A_Ready])"
  "length (wake_set ws xs) = length xs"
  by (simp_all add: wake_set_def)
     (induction ws arbitrary: xs; simp)

lemma wake_set_nth:
  "i < length xs \<Longrightarrow> wake_set ws xs ! i = (if i \<in> set ws then A_Ready else xs ! i)"
  by (induction ws arbitrary: xs) auto

lemma abs_wake_threads:
  "abs_sys (wake_threads ws s) = (abs_sys s)\<lparr>a_st := wake_set ws (a_st (abs_sys s))\<rparr>"
  by (induction ws arbitrary: s) (simp_all add: abs_sys_def set_pc_def map_update)

lemma astep_abs_wait:
  assumes "t < length (pcs s)" "pcs s ! t = Wait_Drop v" "lock s = Some t"
  shows "astep (abs_sys s) (abs_sys (set_pc t (Wait_Futex v) (s\<lparr>lock := None\<rparr>)))"
  using astep.a_wait [of t "abs_sys s"] assms by (simp add: abs_sys_def set_pc_def map_update)

lemma astep_abs_wake:
  assumes "w < length (pcs s)" "abs_pc (pcs s ! w) = A_Wait"
  shows "astep (abs_sys s) (abs_sys (set_pc w Wait_Dec s))"
  using astep.a_wake [of "[w]" "abs_sys s"] assms by (simp add: abs_sys_def set_pc_def map_update)

lemma astep_abs_return:
  assumes "t < length (pcs s)" "pcs s ! t = Wait_Lock" "lock s = None"
  shows "astep (abs_sys s) (abs_sys (set_pc t Idle (s\<lparr>lock := Some t\<rparr>)))"
  using astep.a_return [of t "abs_sys s"] assms by (simp add: abs_sys_def set_pc_def map_update)

lemma sys_inv_queue_blocked:
  "sys_inv s \<Longrightarrow> w \<in> set (futex s) \<Longrightarrow> w < length (pcs s) \<and> blocked (pcs s ! w)"
  by (simp add: sys_inv_def queue_inv_def)

lemma exec_pc_astep:
  assumes I: "sys_inv s" and t: "t < length (pcs s)" and ex: "exec_pc t (pcs s ! t) s = Some s'"
  shows "astep (abs_sys s) (abs_sys s') \<or> abs_sys s' = abs_sys s"
proof (cases "pcs s ! t")
  case (Wait_Drop v)
  with I lock_invD(1) [of s t] t have "lock s = Some t" by (simp add: sys_inv_def)
  with Wait_Drop ex astep_abs_wait [OF t Wait_Drop] show ?thesis by (auto simp: step_simps)
next
  case (Wait_Futex v)
  show ?thesis
  proof (cases "counter (cv s) = v")
    case True
    with Wait_Futex ex t show ?thesis by (auto simp: step_simps abs_set_pc_same)
  next
    case False
    with Wait_Futex ex astep_abs_wake [of t s] t show ?thesis by (auto simp: step_simps)
  qed
next
  case Wait_Lock
  with ex have "lock s = None" and s': "s' = set_pc t Idle (s\<lparr>lock := Some t\<rparr>)"
    by (auto simp: mutex_lock_Some_iff)
  with astep_abs_return [OF t Wait_Lock] show ?thesis by simp
next
  case (Notify_Wake k)
  show ?thesis
  proof (cases k)
    case One
    with Notify_Wake ex t show ?thesis by (auto simp: abs_set_pc_same split: if_splits)
  next
    case All
    let ?s0 = "s\<lparr>futex := []\<rparr>"
    from sys_inv_queue_blocked [OF I] have q: "\<forall>w \<in> set (futex s). w < length (pcs s) \<and> blocked (pcs s ! w)"
      by blast
    then have "\<forall>w \<in> set (futex s). w < length (a_st (abs_sys s)) \<and> a_st (abs_sys s) ! w = A_Wait"
      by (simp add: blocked_abs_wait)
    from astep.a_wake [OF this]
    have w: "astep (abs_sys s) (abs_sys (wake_threads (futex s) ?s0))"
      by (simp add: abs_wake_threads)
    from q Notify_Wake have "t \<notin> set (futex s)" by auto
    with Notify_Wake All t have "abs_sys (set_pc t Idle (wake_threads (futex s) ?s0)) =
        abs_sys (wake_threads (futex s) ?s0)"
      by (intro abs_set_pc_same) (simp_all add: wake_threads_nth)
    with w Notify_Wake All ex show ?thesis by (simp add: futex_wake_all_def)
  qed
qed (use ex t in \<open>auto simp: step_simps abs_set_pc_same\<close>)

lemma step_astep:
  assumes I: "sys_inv s" and st: "step s e = Some s'"
  shows "astep (abs_sys s) (abs_sys s') \<or> abs_sys s' = abs_sys s"
proof (cases e)
  case (Lock t)
  with st have "t < length (pcs s)" "pcs s ! t = Idle" "lock s = None" "s' = s\<lparr>lock := Some t\<rparr>"
    by (auto simp: mutex_lock_Some_iff split: if_splits)
  with astep.a_lock [of t "abs_sys s"] show ?thesis by (simp add: abs_sys_lock)
next
  case (Unlock t)
  with st have "t < length (pcs s)" "pcs s ! t = Idle" "lock s = Some t" "s' = s\<lparr>lock := None\<rparr>"
    by (auto simp: mutex_unlock_def split: if_splits)
  with astep.a_unlock [of t "abs_sys s"] show ?thesis by (simp add: abs_sys_lock)
next
  case (Exec t)
  with st exec_pc_astep [OF I] show ?thesis by (simp split: if_splits)
next
  case (Wake t w)
  with st have t: "t < length (pcs s)" and nt: "pcs s ! t = Notify_Wake One" and w: "w \<in> set (futex s)"
    and s': "s' = set_pc t Idle (set_pc w Wait_Dec (s\<lparr>futex := remove1 w (futex s)\<rparr>))"
    by (auto simp: wake_one_step_def futex_wake_one_def split: if_splits)
  from sys_inv_queue_blocked [OF I w] have wl: "w < length (pcs s)" and b: "blocked (pcs s ! w)" by simp_all
  let ?s1 = "set_pc w Wait_Dec (s\<lparr>futex := remove1 w (futex s)\<rparr>)"
  from astep_abs_wake [of w "s\<lparr>futex := remove1 w (futex s)\<rparr>"] wl blocked_abs_wait [OF b]
  have "astep (abs_sys s) (abs_sys ?s1)" by simp
  moreover from b nt have "t \<noteq> w" by auto
  with t nt have "abs_sys (set_pc t Idle ?s1) = abs_sys ?s1"
    by (intro abs_set_pc_same) (simp_all add: set_pc_def)
  ultimately show ?thesis using s' by simp
next
  case (Spurious w)
  with st have w: "w \<in> set (futex s)" and s': "s' = set_pc w Wait_Dec (s\<lparr>futex := remove1 w (futex s)\<rparr>)"
    by (auto split: if_splits)
  from sys_inv_queue_blocked [OF I w] have "w < length (pcs s)" and b: "blocked (pcs s ! w)" by simp_all
  with astep_abs_wake [of w "s\<lparr>futex := remove1 w (futex s)\<rparr>"] blocked_abs_wait [OF b] s'
  show ?thesis by simp
qed (use st in \<open>auto simp: wait_entry_def notify_entry_def abs_set_pc_same split: if_splits\<close>)

lemma abs_sys_init: "abs_sys (sys_init n) = a_init n"
  by (simp add: abs_sys_def sys_init_def a_init_def)

lemma reachable_a_reach: "reachable s \<Longrightarrow> a_reach (abs_sys s)"
proof (induction rule: reachable.induct)
  case (init n)
  show ?case by (simp add: abs_sys_init a_reach.init)
next
  case (step s e s')
  from step_astep [OF reachable_sys_inv [OF step.hyps(1)] step.hyps(2)] step.IH show ?case
    by (auto intro: a_reach.step)
qed

text \<open>The abstract contract itself guarantees that only a running thread holds the lock.\<close>

lemma a_reach_holder: "a_reach m \<Longrightarrow> a_holder m = Some t \<Longrightarrow> t < length (a_st m) \<and> a_st m ! t = A_Run"
proof (induction arbitrary: t rule: a_reach.induct)
  case (init n)
  then show ?case by (simp add: a_init_def)
next
  case (step m m')
  from step.hyps(2) step.prems step.IH show ?case
    by (cases rule: astep.cases) (auto simp: nth_list_update wake_set_nth)
qed

subsection \<open>The refinement\<close>

text \<open>
  C27: the implementation refines the monitor contract. Every state that any interleaving
  of \<open>wait\<close>, \<open>notify_one\<close>, \<open>notify_all\<close> and client code reaches is, seen through
  \<open>abs_sys\<close>, a state of the abstract monitor, and every step of the implementation is
  one abstract step or none: the drop of the guard at line 38 is the abstract release and
  wait, a return from the futex (notified or spurious) and the \<open>wake_all\<close> of line 29 are
  an abstract wake, the \<open>mutex.lock()\<close> of line 44 is the abstract return with the lock,
  and every other line of the condition variable leaves the abstract state unchanged.
\<close>

theorem implementation_refines_monitor:
  assumes "reachable s" and "step s e = Some s'"
  shows "a_reach (abs_sys s) \<and> (astep (abs_sys s) (abs_sys s') \<or> abs_sys s' = abs_sys s)"
  using reachable_a_reach [OF assms(1)] step_astep [OF reachable_sys_inv [OF assms(1)] assms(2)] by simp

theorem implementation_refines_monitor_witness:
  "a_reach \<lparr>a_holder = None, a_st = [A_Wait, A_Run]\<rparr> \<and>
   astep \<lparr>a_holder = None, a_st = [A_Wait, A_Run]\<rparr> \<lparr>a_holder = None, a_st = [A_Ready, A_Run]\<rparr>"
proof -
  have st: "step demo_blocked (Spurious 0) =
      Some \<lparr>cv = \<lparr>counter = 0, num_waiters = 1\<rparr>, futex = [], lock = None, pcs = [Wait_Dec, Idle]\<rparr>"
    by (simp add: demo_blocked_def set_pc_def)
  from implementation_refines_monitor [OF demo_reachable(2) st] show ?thesis
    by (simp add: abs_sys_def demo_blocked_def)
qed

end
