(* ===== verification/Progress.thy ===== *)
theory Progress
  imports Properties
begin

text \<open>
  Progress of the threads of the interleaving model. The only place where a thread of
  \<open>wait\<close>, \<open>notify_one\<close> or \<open>notify_all\<close> waits for an event it cannot cause is the
  futex at line 40; \<open>mutex.lock()\<close> at line 44 waits for the holder of the mutex, and the
  holder can always take a step of its own (client code can unlock, a holder inside
  \<open>wait\<close> is before line 38, a holder inside a notification finishes it). \<open>actor\<close> is the
  thread whose action an event is.
\<close>

text \<open>A waiter that a notification has released and that waits for the mutex, which thread 1
  holds in client code: thread 0 locks and waits, thread 1 locks the mutex and calls
  \<open>notify_one\<close>, which wakes thread 0.\<close>

definition relock_sched :: "event list" where
  "relock_sched =
     [Lock 0, Call_wait 0, Exec 0, Exec 0, Exec 0, Lock 1, Call_notify 1 One, Exec 1, Wake 1 0, Exec 0]"

fun actor :: "event \<Rightarrow> tid" where
  "actor (Lock t) = t"
| "actor (Unlock t) = t"
| "actor (Call_wait t) = t"
| "actor (Call_notify t k) = t"
| "actor (Exec t) = t"
| "actor (Wake t w) = t"
| "actor (Spurious w) = w"

lemma notify_can_step:
  assumes t: "t < length (pcs s)" and p: "pcs s ! t = Notify_Inc k \<or> pcs s ! t = Notify_Wake k"
  shows "\<exists>e. actor e = t \<and> step s e \<noteq> None"
proof (cases "pcs s ! t = Notify_Wake One \<and> futex s \<noteq> []")
  case True
  then obtain w ws where q: "futex s = w # ws" by (cases "futex s") auto
  with True t have "step s (Wake t w) \<noteq> None" by (simp add: wake_one_step_def futex_wake_one_def)
  then show ?thesis by (intro exI [of _ "Wake t w"]) simp
next
  case False
  with t p have "step s (Exec t) \<noteq> None"
    by (cases k) (auto simp: futex_wake_all_def split: prod.splits)
  then show ?thesis by (intro exI [of _ "Exec t"]) simp
qed

lemma holder_can_step:
  assumes r: "reachable s" and h: "lock s = Some h"
  shows "\<exists>e. actor e = h \<and> step s e \<noteq> None"
proof -
  from lock_invD(2,3) [OF reachable_lock [OF r] h] have hl: "h < length (pcs s)"
    and nr: "\<not> released (pcs s ! h)" by simp_all
  show ?thesis
  proof (cases "pcs s ! h")
    case Idle
    with hl h have "step s (Unlock h) \<noteq> None" by simp
    then show ?thesis by (intro exI [of _ "Unlock h"]) simp
  next
    case (Notify_Inc k)
    with notify_can_step [OF hl] show ?thesis by simp
  next
    case (Notify_Wake k)
    with notify_can_step [OF hl] show ?thesis by simp
  next
    case Wait_Load
    with hl have "step s (Exec h) \<noteq> None" by simp
    then show ?thesis by (intro exI [of _ "Exec h"]) simp
  next
    case (Wait_Drop v)
    with hl have "step s (Exec h) \<noteq> None" by simp
    then show ?thesis by (intro exI [of _ "Exec h"]) simp
  qed (use nr in simp_all)
qed

subsection \<open>No thread is stuck outside the futex\<close>

text \<open>
  C29: a thread that is not blocked in the futex is never stuck: it can take a step of its
  own (client code can always call \<open>notify_one\<close>; every line of \<open>wait\<close> and of the
  notifications other than the futex wait and \<open>mutex.lock()\<close> is always enabled), or it
  waits at line 44 for a mutex whose holder, another thread, can take a step.
\<close>

theorem never_stuck_outside_futex:
  assumes r: "reachable s" and t: "t < length (pcs s)" and nb: "\<not> blocked (pcs s ! t)"
  shows "(\<exists>e. actor e = t \<and> step s e \<noteq> None) \<or>
         (\<exists>h e. lock s = Some h \<and> h \<noteq> t \<and> actor e = h \<and> step s e \<noteq> None)"
proof (cases "pcs s ! t = Wait_Lock \<and> lock s \<noteq> None")
  case True
  then obtain h where h: "lock s = Some h" by auto
  from lock_invD(3) [OF reachable_lock [OF r] h] True have "h \<noteq> t" by auto
  with holder_can_step [OF r h] h show ?thesis by blast
next
  case False
  have "\<exists>e. actor e = t \<and> step s e \<noteq> None"
  proof (cases "pcs s ! t")
    case Idle
    with t have "step s (Call_notify t One) \<noteq> None" by (simp add: notify_entry_def)
    then show ?thesis by (intro exI [of _ "Call_notify t One"]) simp
  next
    case (Notify_Inc k)
    with notify_can_step [OF t] show ?thesis by simp
  next
    case (Notify_Wake k)
    with notify_can_step [OF t] show ?thesis by simp
  next
    case (Wait_Blocked v)
    with nb show ?thesis by simp
  next
    case Wait_Lock
    with False t have "step s (Exec t) \<noteq> None" by (simp add: mutex_lock_def)
    then show ?thesis by (intro exI [of _ "Exec t"]) simp
  next
    case (Wait_Futex v)
    with t have "step s (Exec t) \<noteq> None" by (simp add: futex_wait_def)
    then show ?thesis by (intro exI [of _ "Exec t"]) simp
  qed (use t in \<open>auto intro!: exI [of _ "Exec t"]\<close>)
  then show ?thesis ..
qed

theorem never_stuck_outside_futex_witness:
  "\<exists>s. run (sys_init 2) relock_sched = Some s \<and> pcs s ! 0 = Wait_Lock \<and> lock s = Some 1 \<and>
     ((\<exists>e. actor e = 0 \<and> step s e \<noteq> None) \<or>
      (\<exists>h e. lock s = Some h \<and> h \<noteq> 0 \<and> actor e = h \<and> step s e \<noteq> None))"
proof -
  define s where "s = \<lparr>cv = \<lparr>counter = 1, num_waiters = 0\<rparr>, futex = [], lock = Some 1,
      pcs = [Wait_Lock, Idle]\<rparr>"
  have r: "run (sys_init 2) relock_sched = Some s"
    by (simp add: relock_sched_def s_def sys_init_def numeral_2_eq_2 condvar_new_def step_simps
        wait_entry_def notify_entry_def wake_one_step_def set_pc_def)
  have "0 < length (pcs s)" "\<not> blocked (pcs s ! 0)" by (simp_all add: s_def)
  from never_stuck_outside_futex [OF reachable_run_init [OF r] this] r show ?thesis
    by (simp add: s_def)
qed

end
