(* ===== verification/Overflow.thy ===== *)
theory Overflow
  imports Properties
begin

text \<open>
  The wrap of \<open>num_waiters\<close>. The field is an \<open>AtomicUsize\<close> (line 9), incremented by
  every \<open>wait\<close> at line 34 and read by the fast path of \<open>notify_one\<close> and
  \<open>notify_all\<close> at lines 21 and 27. With \<open>2^64\<close> threads inside \<open>wait\<close> at once the
  count wraps to 0, and a notification then takes the fast path although every one of
  them is blocked on a snapshot equal to the current generation. The bound
  \<open>length (pcs s) < 2^64\<close> of C2 and C5 is therefore tight.
\<close>

text \<open>Client code of thread \<open>t\<close> locking the mutex and calling \<open>wait\<close> until it blocks in
  the futex at line 40.\<close>

definition block_call :: "tid \<Rightarrow> event list" where
  "block_call t = [Lock t, Call_wait t, Exec t, Exec t, Exec t]"

lemma block_call_run:
  assumes "t < length (pcs x)" and "pcs x ! t = Idle" and "lock x = None"
  shows "run x (block_call t) =
           Some (x\<lparr>cv := register_waiter (cv x), futex := futex x @ [t],
                   pcs := (pcs x)[t := Wait_Blocked (counter (cv x))]\<rparr>)"
  using assms by (simp add: block_call_def step_simps wait_entry_def set_pc_def)

lemma replicate_blocked_update:
  "k < n \<Longrightarrow> (replicate k p @ replicate (n - k) q)[k := p] = replicate (Suc k) p @ replicate (n - Suc k) q"
proof -
  assume "k < n"
  then have "n - k = Suc (n - Suc k)" by simp
  then show ?thesis by (simp add: list_update_append replicate_app_Cons_same)
qed

lemma block_calls_run:
  "k \<le> n \<Longrightarrow> run (sys_init n) (concat (map block_call [0..<k])) =
     Some \<lparr>cv = \<lparr>counter = 0, num_waiters = of_nat k\<rparr>, futex = [0..<k], lock = None,
           pcs = replicate k (Wait_Blocked 0) @ replicate (n - k) Idle\<rparr>"
proof (induction k)
  case 0
  then show ?case by (simp add: sys_init_def condvar_new_def)
next
  case (Suc k)
  then have k: "k < n" by simp
  let ?x = "\<lparr>cv = \<lparr>counter = 0, num_waiters = of_nat k\<rparr>, futex = [0..<k], lock = None,
           pcs = replicate k (Wait_Blocked 0) @ replicate (n - k) Idle\<rparr> :: sys"
  have "k < length (pcs ?x)" "pcs ?x ! k = Idle" "lock ?x = None"
    using k by (simp_all add: nth_append)
  from block_call_run [OF this] k
  have "run ?x (block_call k) =
     Some \<lparr>cv = \<lparr>counter = 0, num_waiters = of_nat (Suc k)\<rparr>, futex = [0..<Suc k], lock = None,
           pcs = replicate (Suc k) (Wait_Blocked 0) @ replicate (n - Suc k) Idle\<rparr>"
    by (simp add: register_waiter_def replicate_blocked_update)
  with Suc.IH k show ?case by (simp add: run_append)
qed

subsection \<open>The wrap of the fast-path count\<close>

text \<open>
  C32. With \<open>2^64 + 1\<close> threads, \<open>2^64\<close> of them can lock the mutex and block in
  \<open>wait\<close> one after the other. The \<open>fetch_add\<close> of line 34 then wraps
  \<open>num_waiters\<close> to 0, and both \<open>notify_one\<close> and \<open>notify_all\<close> by the last
  thread return at once from the fast path of lines 21 and 27. The state is unchanged, so
  every waiter stays blocked on a snapshot equal to the current generation.
\<close>

theorem num_waiters_wrap_loses_notify:
  "\<exists>s. run (sys_init (2 ^ 64 + 1)) (concat (map block_call [0..<2 ^ 64])) = Some s \<and>
       futex s = [0..<2 ^ 64] \<and> pcs s = replicate (2 ^ 64) (Wait_Blocked (counter (cv s))) @ [Idle] \<and>
       num_waiters (cv s) = 0 \<and>
       step s (Call_notify (2 ^ 64) One) = Some s \<and> step s (Call_notify (2 ^ 64) All) = Some s"
proof -
  have "(2 ^ 64 :: nat) \<le> 2 ^ 64 + 1" by simp
  note r = block_calls_run [OF this]
  show ?thesis
    by (rule exI, rule conjI, rule r)
      (simp add: nth_append notify_entry_def has_waiters_def)
qed

end
