(* ===== verification/Relaxed.thy ===== *)
theory Relaxed
  imports Properties
begin

text \<open>
  The \<open>Relaxed\<close> orderings of \<open>src/src/cond_var.rs\<close>. Every access of
  \<open>counter\<close> and \<open>num_waiters\<close> is \<open>Relaxed\<close> (lines 21, 22, 27, 28, 34, 35, 42). Theory
  \<open>Interleaving\<close> runs them sequentially consistently; here they run in a view-based
  weak-memory semantics in the style of the promise-free fragment of the promising
  semantics. Each atomic location keeps its history of values in modification order
  (\<open>nw_hist\<close>, \<open>cnt_hist\<close>; a value's timestamp is its index). Each thread has a view,
  the latest timestamp of each location it has seen. A read-modify-write
  (\<open>fetch_add\<close>, \<open>fetch_sub\<close>) reads the last value and appends the new one. A relaxed
  \<open>load\<close> may return any value not older than the thread's view, so it may be stale.
  The mutex synchronises: its unlock releases the unlocking thread's view and its lock
  acquires that view. The futex compares against the current value of \<open>counter\<close>, as
  its contract says (spec section 6). The wait/wake pair is given no synchronisation,
  which allows more behaviours, not fewer. Load buffering, which needs promises, is not
  modelled.
\<close>

record view =
  v_nw :: nat
  v_cnt :: nat

definition vjoin :: "view \<Rightarrow> view \<Rightarrow> view" where
  "vjoin a b = \<lparr>v_nw = max (v_nw a) (v_nw b), v_cnt = max (v_cnt a) (v_cnt b)\<rparr>"

definition vle :: "view \<Rightarrow> view \<Rightarrow> bool" where
  "vle a b \<longleftrightarrow> v_nw a \<le> v_nw b \<and> v_cnt a \<le> v_cnt b"

definition view0 :: view where
  "view0 = \<lparr>v_nw = 0, v_cnt = 0\<rparr>"

text \<open>
  The shared state with the \<open>Relaxed\<close> atomics (lines 1--10): the histories of the two
  fields of \<open>Condvar\<close>, the queue of \<open>atomic_wait\<close>, the mutex of
  \<open>crate::locks::MutexGuard\<close> with the view its last unlock released, and per thread a
  view and a program counter.
\<close>

record rsys =
  nw_hist :: "usize list"
  cnt_hist :: "u32 list"
  rfutex :: futex_queue
  rlock :: mutex
  mview :: view
  tview :: "view list"
  rpcs :: "pc list"

definition rsys_init :: "nat \<Rightarrow> rsys" where
  "rsys_init n =
     \<lparr>nw_hist = [num_waiters condvar_new], cnt_hist = [counter condvar_new], rfutex = [],
      rlock = None, mview = view0, tview = replicate n view0, rpcs = replicate n Idle\<rparr>"

definition rset_pc :: "tid \<Rightarrow> pc \<Rightarrow> rsys \<Rightarrow> rsys" where
  "rset_pc t p rs = rs\<lparr>rpcs := (rpcs rs)[t := p]\<rparr>"

subsection \<open>The atomic accesses\<close>

text \<open>\<open>self.num_waiters.fetch_add(1, Relaxed)\<close> (line 34) and \<open>fetch_sub\<close> (line 42):
  read the last value, append the new one, and move the thread's view to it.\<close>

definition r_register :: "tid \<Rightarrow> rsys \<Rightarrow> rsys" where
  "r_register t rs =
     rs\<lparr>nw_hist := nw_hist rs @ [last (nw_hist rs) + 1],
        tview := (tview rs)[t := (tview rs ! t)\<lparr>v_nw := length (nw_hist rs)\<rparr>]\<rparr>"

definition r_deregister :: "tid \<Rightarrow> rsys \<Rightarrow> rsys" where
  "r_deregister t rs =
     rs\<lparr>nw_hist := nw_hist rs @ [last (nw_hist rs) - 1],
        tview := (tview rs)[t := (tview rs ! t)\<lparr>v_nw := length (nw_hist rs)\<rparr>]\<rparr>"

text \<open>\<open>self.counter.fetch_add(1, Relaxed)\<close> (lines 22 and 28).\<close>

definition r_bump :: "tid \<Rightarrow> rsys \<Rightarrow> rsys" where
  "r_bump t rs =
     rs\<lparr>cnt_hist := cnt_hist rs @ [last (cnt_hist rs) + 1],
        tview := (tview rs)[t := (tview rs ! t)\<lparr>v_cnt := length (cnt_hist rs)\<rparr>]\<rparr>"

text \<open>\<open>self.num_waiters.load(Relaxed)\<close> (lines 21 and 27) reading the value with timestamp
  \<open>i\<close>, which must not be older than the thread's view; the view moves to \<open>i\<close>.\<close>

definition r_load_waiters :: "tid \<Rightarrow> nat \<Rightarrow> rsys \<Rightarrow> (usize \<times> rsys) option" where
  "r_load_waiters t i rs =
     (if v_nw (tview rs ! t) \<le> i \<and> i < length (nw_hist rs)
      then Some (nw_hist rs ! i, rs\<lparr>tview := (tview rs)[t := (tview rs ! t)\<lparr>v_nw := i\<rparr>]\<rparr>)
      else None)"

text \<open>\<open>self.counter.load(Relaxed)\<close> (line 35), likewise.\<close>

definition r_snapshot :: "tid \<Rightarrow> nat \<Rightarrow> rsys \<Rightarrow> (u32 \<times> rsys) option" where
  "r_snapshot t i rs =
     (if v_cnt (tview rs ! t) \<le> i \<and> i < length (cnt_hist rs)
      then Some (cnt_hist rs ! i, rs\<lparr>tview := (tview rs)[t := (tview rs ! t)\<lparr>v_cnt := i\<rparr>]\<rparr>)
      else None)"

text \<open>\<open>Mutex::lock\<close> acquires the view released by the last unlock; dropping a guard
  releases the thread's view.\<close>

definition r_acquire :: "tid \<Rightarrow> rsys \<Rightarrow> rsys" where
  "r_acquire t rs = rs\<lparr>tview := (tview rs)[t := vjoin (tview rs ! t) (mview rs)]\<rparr>"

definition r_release :: "tid \<Rightarrow> rsys \<Rightarrow> rsys" where
  "r_release t rs = rs\<lparr>mview := tview rs ! t\<rparr>"

fun rwake_threads :: "tid list \<Rightarrow> rsys \<Rightarrow> rsys" where
  "rwake_threads [] rs = rs"
| "rwake_threads (w # ws) rs = rwake_threads ws (rset_pc w Wait_Dec rs)"

subsection \<open>The methods\<close>

definition r_wait_entry :: "tid \<Rightarrow> rsys \<Rightarrow> rsys option" where
  "r_wait_entry t rs =
     (if rpcs rs ! t = Idle \<and> rlock rs = Some t then Some (rset_pc t Wait_Load (r_register t rs))
      else None)"

definition r_notify_entry :: "kind \<Rightarrow> tid \<Rightarrow> nat \<Rightarrow> rsys \<Rightarrow> rsys option" where
  "r_notify_entry k t i rs =
     (if rpcs rs ! t = Idle then
        (case r_load_waiters t i rs of
           None \<Rightarrow> None
         | Some (n, rs1) \<Rightarrow> Some (if 0 < n then rset_pc t (Notify_Inc k) rs1 else rs1))
      else None)"

fun rexec_pc :: "tid \<Rightarrow> pc \<Rightarrow> rsys \<Rightarrow> rsys option" where
  "rexec_pc t Idle rs = None"
| "rexec_pc t Wait_Load rs = None"
| "rexec_pc t (Wait_Drop v) rs =
     Some (rset_pc t (Wait_Futex v) (r_release t (rs\<lparr>rlock := mutex_unlock (rlock rs)\<rparr>)))"
| "rexec_pc t (Wait_Futex v) rs =
     (case futex_wait (last (cnt_hist rs)) v t (rfutex rs) of
        (blk, q) \<Rightarrow> Some (rset_pc t (if blk then Wait_Blocked v else Wait_Dec) (rs\<lparr>rfutex := q\<rparr>)))"
| "rexec_pc t (Wait_Blocked v) rs = None"
| "rexec_pc t Wait_Dec rs = Some (rset_pc t Wait_Lock (r_deregister t rs))"
| "rexec_pc t Wait_Lock rs =
     map_option (\<lambda>m. rset_pc t Idle (r_acquire t (rs\<lparr>rlock := m\<rparr>))) (mutex_lock t (rlock rs))"
| "rexec_pc t (Notify_Inc k) rs = Some (rset_pc t (Notify_Wake k) (r_bump t rs))"
| "rexec_pc t (Notify_Wake One) rs = (if rfutex rs = [] then Some (rset_pc t Idle rs) else None)"
| "rexec_pc t (Notify_Wake All) rs =
     (case futex_wake_all (rfutex rs) of
        (ws, q) \<Rightarrow> Some (rset_pc t Idle (rwake_threads ws (rs\<lparr>rfutex := q\<rparr>))))"

definition rwake_one_step :: "tid \<Rightarrow> tid \<Rightarrow> rsys \<Rightarrow> rsys option" where
  "rwake_one_step t w rs =
     (if rpcs rs ! t = Notify_Wake One then
        (case futex_wake_one w (rfutex rs) of
           (Some w', q) \<Rightarrow> Some (rset_pc t Idle (rset_pc w' Wait_Dec (rs\<lparr>rfutex := q\<rparr>)))
         | (None, q) \<Rightarrow> None)
      else None)"

text \<open>The events of the relaxed model: those of \<open>Interleaving\<close>, where the two relaxed
  loads carry the timestamp of the value they read.\<close>

datatype revent =
    RLock tid
  | RUnlock tid
  | RCall_wait tid
  | RCall_notify tid kind nat
  | RExec tid
  | RRead tid nat
  | RWake tid tid
  | RSpurious tid

fun rstep :: "rsys \<Rightarrow> revent \<Rightarrow> rsys option" where
  "rstep rs (RLock t) =
     (if t < length (rpcs rs) \<and> rpcs rs ! t = Idle
      then map_option (\<lambda>m. r_acquire t (rs\<lparr>rlock := m\<rparr>)) (mutex_lock t (rlock rs)) else None)"
| "rstep rs (RUnlock t) =
     (if t < length (rpcs rs) \<and> rpcs rs ! t = Idle \<and> rlock rs = Some t
      then Some (r_release t (rs\<lparr>rlock := mutex_unlock (rlock rs)\<rparr>)) else None)"
| "rstep rs (RCall_wait t) = (if t < length (rpcs rs) then r_wait_entry t rs else None)"
| "rstep rs (RCall_notify t k i) = (if t < length (rpcs rs) then r_notify_entry k t i rs else None)"
| "rstep rs (RExec t) = (if t < length (rpcs rs) then rexec_pc t (rpcs rs ! t) rs else None)"
| "rstep rs (RRead t i) =
     (if t < length (rpcs rs) \<and> rpcs rs ! t = Wait_Load then
        (case r_snapshot t i rs of None \<Rightarrow> None | Some (v, rs1) \<Rightarrow> Some (rset_pc t (Wait_Drop v) rs1))
      else None)"
| "rstep rs (RWake t w) = (if t < length (rpcs rs) then rwake_one_step t w rs else None)"
| "rstep rs (RSpurious w) =
     (if w < length (rpcs rs) \<and> w \<in> set (rfutex rs)
      then Some (rset_pc w Wait_Dec (rs\<lparr>rfutex := remove1 w (rfutex rs)\<rparr>)) else None)"

fun rrun :: "rsys \<Rightarrow> revent list \<Rightarrow> rsys option" where
  "rrun rs [] = Some rs"
| "rrun rs (e # es) = (case rstep rs e of None \<Rightarrow> None | Some rs' \<Rightarrow> rrun rs' es)"

inductive rreachable :: "rsys \<Rightarrow> bool" where
  init: "rreachable (rsys_init n)"
| step: "rreachable rs \<Longrightarrow> rstep rs e = Some rs' \<Longrightarrow> rreachable rs'"

text \<open>The state of \<open>Interleaving\<close> the relaxed state stands for: the last value of each
  location, the queue, the mutex and the program counters.\<close>

definition proj :: "rsys \<Rightarrow> sys" where
  "proj rs =
     \<lparr>cv = \<lparr>counter = last (cnt_hist rs), num_waiters = last (nw_hist rs)\<rparr>, futex = rfutex rs,
      lock = rlock rs, pcs = rpcs rs\<rparr>"

text \<open>While a waiter is registered (lines 34--42), no value of \<open>num_waiters\<close> from its
  own \<open>fetch_add\<close> on is 0.\<close>

definition nw_inv :: "rsys \<Rightarrow> bool" where
  "nw_inv rs \<longleftrightarrow>
     (\<forall>w < length (rpcs rs). registered (rpcs rs ! w) \<longrightarrow>
        0 \<notin> set (drop (v_nw (tview rs ! w)) (nw_hist rs)))"

text \<open>The mutex carries every registration whose guard has been dropped at line 38, and its
  holder has seen everything the mutex carries.\<close>

definition mview_inv :: "rsys \<Rightarrow> bool" where
  "mview_inv rs \<longleftrightarrow>
     (\<forall>w < length (rpcs rs). registered (rpcs rs ! w) \<and> released (rpcs rs ! w) \<longrightarrow>
        v_nw (tview rs ! w) \<le> v_nw (mview rs)) \<and>
     (case rlock rs of None \<Rightarrow> True | Some h \<Rightarrow> vle (mview rs) (tview rs ! h))"

definition rwf :: "rsys \<Rightarrow> bool" where
  "rwf rs \<longleftrightarrow> nw_hist rs \<noteq> [] \<and> cnt_hist rs \<noteq> [] \<and> length (tview rs) = length (rpcs rs) \<and>
     (\<forall>v \<in> set (tview rs). v_nw v < length (nw_hist rs) \<and> v_cnt v < length (cnt_hist rs)) \<and>
     v_nw (mview rs) < length (nw_hist rs) \<and> v_cnt (mview rs) < length (cnt_hist rs)"

text \<open>The thread whose action an event is.\<close>

fun ractor :: "revent \<Rightarrow> tid" where
  "ractor (RLock t) = t"
| "ractor (RUnlock t) = t"
| "ractor (RCall_wait t) = t"
| "ractor (RCall_notify t k i) = t"
| "ractor (RExec t) = t"
| "ractor (RRead t i) = t"
| "ractor (RWake t w) = t"
| "ractor (RSpurious w) = w"

definition rframe :: "tid \<Rightarrow> rsys \<Rightarrow> rsys \<Rightarrow> bool" where
  "rframe t rs rs' \<longleftrightarrow>
     length (rpcs rs') = length (rpcs rs) \<and> length (tview rs') = length (tview rs) \<and>
     (\<forall>w < length (tview rs). w \<noteq> t \<longrightarrow> tview rs' ! w = tview rs ! w) \<and>
     vle (tview rs ! t) (tview rs' ! t) \<and>
     (mview rs' = mview rs \<or> rlock rs = Some t \<and> rlock rs' = None \<and> mview rs' = tview rs ! t)"

text \<open>How one step changes the history of \<open>num_waiters\<close> and the views of the
  registered threads: a thread registered after the step was registered before with the
  same view, or has just appended its \<open>fetch_add\<close> (line 34) and sees exactly that value.\<close>

definition nw_shape :: "rsys \<Rightarrow> rsys \<Rightarrow> tid \<Rightarrow> bool" where
  "nw_shape rs rs' w \<longleftrightarrow>
     registered (rpcs rs ! w) \<and> v_nw (tview rs' ! w) = v_nw (tview rs ! w) \<or>
     v_nw (tview rs' ! w) = length (nw_hist rs) \<and> nw_hist rs' \<noteq> [] \<and> butlast (nw_hist rs') = nw_hist rs"

definition mv_shape :: "rsys \<Rightarrow> rsys \<Rightarrow> tid \<Rightarrow> bool" where
  "mv_shape rs rs' w \<longleftrightarrow>
     tview rs' ! w = tview rs ! w \<and>
     (registered (rpcs rs ! w) \<and> released (rpcs rs ! w) \<or> mview rs' = tview rs ! w)"

definition lock_shape :: "rsys \<Rightarrow> rsys \<Rightarrow> tid \<Rightarrow> bool" where
  "lock_shape rs rs' h \<longleftrightarrow>
     rlock rs = Some h \<and> mview rs' = mview rs \<or>
     tview rs' ! h = vjoin (tview rs ! h) (mview rs) \<and> mview rs' = mview rs"

text \<open>The event of \<open>Interleaving\<close> a relaxed event stands for; the two relaxed loads,
  and the program-counter moves they make, which depend on the value read.\<close>

fun sc_event :: "revent \<Rightarrow> event" where
  "sc_event (RLock t) = Lock t"
| "sc_event (RUnlock t) = Unlock t"
| "sc_event (RCall_wait t) = Call_wait t"
| "sc_event (RCall_notify t k i) = Call_notify t k"
| "sc_event (RExec t) = Exec t"
| "sc_event (RRead t i) = Exec t"
| "sc_event (RWake t w) = Wake t w"
| "sc_event (RSpurious w) = Spurious w"

fun rload :: "revent \<Rightarrow> bool" where
  "rload (RCall_notify t k i) = True"
| "rload (RRead t i) = True"
| "rload _ = False"

fun load_edge :: "pc \<Rightarrow> pc \<Rightarrow> bool" where
  "load_edge Idle (Notify_Inc k) = True"
| "load_edge Wait_Load (Wait_Drop v) = True"
| "load_edge _ _ = False"

lemmas rops_defs = r_register_def r_deregister_def r_bump_def r_load_waiters_def r_snapshot_def
  r_acquire_def r_release_def rset_pc_def

subsection \<open>The projection to the sequentially consistent state\<close>

lemma proj_simps [simp]:
  "proj (rset_pc t p rs) = set_pc t p (proj rs)"
  "proj (rs\<lparr>tview := vs\<rparr>) = proj rs"
  "proj (rs\<lparr>mview := v\<rparr>) = proj rs"
  "proj (rs\<lparr>rlock := m\<rparr>) = (proj rs)\<lparr>lock := m\<rparr>"
  "proj (rs\<lparr>rfutex := q\<rparr>) = (proj rs)\<lparr>futex := q\<rparr>"
  "proj (r_acquire t rs) = proj rs"
  "proj (r_release t rs) = proj rs"
  "proj (r_register t rs) = (proj rs)\<lparr>cv := register_waiter (cv (proj rs))\<rparr>"
  "proj (r_deregister t rs) = (proj rs)\<lparr>cv := deregister_waiter (cv (proj rs))\<rparr>"
  "proj (r_bump t rs) = (proj rs)\<lparr>cv := bump_counter (cv (proj rs))\<rparr>"
  by (simp_all add: proj_def rops_defs set_pc_def register_waiter_def deregister_waiter_def
      bump_counter_def)

lemma proj_fields [simp]:
  "pcs (proj rs) = rpcs rs" "futex (proj rs) = rfutex rs" "lock (proj rs) = rlock rs"
  "counter (cv (proj rs)) = last (cnt_hist rs)" "num_waiters (cv (proj rs)) = last (nw_hist rs)"
  by (simp_all add: proj_def)

lemma proj_rsys_init [simp]: "proj (rsys_init n) = sys_init n"
  by (simp add: proj_def rsys_init_def sys_init_def condvar_new_def)

lemma proj_rwake_threads [simp]: "proj (rwake_threads ws rs) = wake_threads ws (proj rs)"
  by (induction ws arbitrary: rs) simp_all

lemma rexec_proj: "rexec_pc t p rs = Some rs' \<Longrightarrow> exec_pc t p (proj rs) = Some (proj rs')"
  by (cases "(t, p, rs)" rule: rexec_pc.cases)
    (auto simp: futex_wait_def futex_wake_all_def split: if_splits prod.splits)

text \<open>A relaxed step other than a load is the step of \<open>Interleaving\<close> it stands for on
  the projection; a load leaves the projection unchanged or moves its thread along a
  \<open>load_edge\<close> (a stale value read at line 21 or 35).\<close>

lemma rstep_sc:
  assumes "rstep rs e = Some rs'" and "\<not> rload e"
  shows "step (proj rs) (sc_event e) = Some (proj rs')"
  using assms
  by (cases e) (auto simp: rexec_proj r_wait_entry_def wait_entry_def rwake_one_step_def
      wake_one_step_def futex_wake_one_def mutex_lock_Some_iff split: if_splits)

lemma rstep_load:
  assumes "rstep rs e = Some rs'" and "rload e"
  shows "proj rs' = proj rs \<or>
         (\<exists>t q. t < length (rpcs rs) \<and> load_edge (rpcs rs ! t) q \<and> proj rs' = set_pc t q (proj rs))"
proof (cases e)
  case (RCall_notify t k i)
  with assms have "proj rs' = proj rs \<or> (t < length (rpcs rs) \<and> load_edge (rpcs rs ! t) (Notify_Inc k) \<and>
      proj rs' = set_pc t (Notify_Inc k) (proj rs))"
    by (auto simp: r_notify_entry_def r_load_waiters_def split: if_splits)
  then show ?thesis by blast
next
  case (RRead t i)
  with assms have "t < length (rpcs rs) \<and> load_edge (rpcs rs ! t) (Wait_Drop (cnt_hist rs ! i)) \<and>
      proj rs' = set_pc t (Wait_Drop (cnt_hist rs ! i)) (proj rs)"
    by (auto simp: r_snapshot_def split: if_splits)
  then show ?thesis by blast
qed (use assms in simp_all)

lemma load_edge_same_class: "load_edge p q \<Longrightarrow> same_class p q"
  by (cases "(p, q)" rule: load_edge.cases) (simp_all add: same_class_def)

lemma rstep_proj:
  assumes "rstep rs e = Some rs'"
  shows "proj rs' = proj rs \<or> (\<exists>e'. step (proj rs) e' = Some (proj rs')) \<or>
         (\<exists>t p. t < length (rpcs rs) \<and> same_class (rpcs rs ! t) p \<and> proj rs' = set_pc t p (proj rs))"
proof (cases "rload e")
  case True
  from rstep_load [OF assms True] show ?thesis by (blast dest: load_edge_same_class)
next
  case False
  from rstep_sc [OF assms False] show ?thesis by blast
qed

lemma rreachable_sys_inv: "rreachable rs \<Longrightarrow> sys_inv (proj rs)"
proof (induction rule: rreachable.induct)
  case (init n)
  show ?case by (simp add: sys_inv_init)
next
  case (step rs e rs')
  from rstep_proj [OF step.hyps(2)] show ?case
  proof (elim disjE exE conjE)
    assume "proj rs' = proj rs"
    with step.IH show ?case by simp
  next
    fix e' assume "step (proj rs) e' = Some (proj rs')"
    from step_inv [OF step.IH this] show ?case .
  next
    fix t p assume "t < length (rpcs rs)" "same_class (rpcs rs ! t) p" "proj rs' = set_pc t p (proj rs)"
    with sys_inv_same [OF step.IH, of t p] show ?case by simp
  qed
qed

subsection \<open>Well-formed views\<close>

lemma rset_pc_fields [simp]:
  "nw_hist (rset_pc t p rs) = nw_hist rs" "cnt_hist (rset_pc t p rs) = cnt_hist rs"
  "tview (rset_pc t p rs) = tview rs" "mview (rset_pc t p rs) = mview rs"
  "rlock (rset_pc t p rs) = rlock rs" "rfutex (rset_pc t p rs) = rfutex rs"
  "rpcs (rset_pc t p rs) = (rpcs rs)[t := p]"
  by (simp_all add: rset_pc_def)

lemma rwake_threads_fields [simp]:
  "nw_hist (rwake_threads ws rs) = nw_hist rs" "cnt_hist (rwake_threads ws rs) = cnt_hist rs"
  "tview (rwake_threads ws rs) = tview rs" "mview (rwake_threads ws rs) = mview rs"
  "rlock (rwake_threads ws rs) = rlock rs" "rfutex (rwake_threads ws rs) = rfutex rs"
  "length (rpcs (rwake_threads ws rs)) = length (rpcs rs)"
  by (induction ws arbitrary: rs) simp_all

text \<open>What one step does to the views: only the acting thread's view moves, and only
  forward; the mutex's view changes only when its holder releases it.\<close>

lemma rexec_frame:
  assumes "rexec_pc t (rpcs rs ! t) rs = Some rs'" and "rwf rs" and t: "t < length (rpcs rs)"
    and L: "lock_inv (proj rs)"
  shows "rframe t rs rs'"
proof (cases "rpcs rs ! t")
  case (Wait_Drop v)
  from lock_invD(1) [OF L] t Wait_Drop have "rlock rs = Some t" by simp
  with assms Wait_Drop show ?thesis by (auto simp: rframe_def rops_defs vle_def mutex_unlock_def)
next
  case Wait_Lock
  with assms show ?thesis
    by (auto simp: rframe_def rops_defs vle_def vjoin_def rwf_def mutex_lock_Some_iff nth_list_update)
next
  case Wait_Dec
  with assms show ?thesis
    by (auto simp: rframe_def rops_defs vle_def rwf_def nth_list_update less_imp_le)
next
  case (Notify_Inc k)
  with assms show ?thesis
    by (auto simp: rframe_def rops_defs vle_def rwf_def nth_list_update less_imp_le)
next
  case (Notify_Wake k)
  with assms show ?thesis
    by (cases k) (auto simp: rframe_def vle_def futex_wake_all_def split: if_splits)
qed (use assms in \<open>auto simp: rframe_def vle_def futex_wait_def split: if_splits\<close>)

lemma rstep_frame:
  assumes "rstep rs e = Some rs'" and "rwf rs" and "lock_inv (proj rs)"
  shows "ractor e < length (rpcs rs) \<and> rframe (ractor e) rs rs'"
proof (cases e)
  case (RExec t)
  with assms rexec_frame [of t rs rs'] show ?thesis by (simp split: if_splits)
qed (use assms in \<open>auto simp: rframe_def rops_defs vle_def vjoin_def r_wait_entry_def
      r_notify_entry_def rwake_one_step_def rwf_def mutex_lock_Some_iff mutex_unlock_def
      futex_wake_one_def nth_list_update less_imp_le split: if_splits option.splits prod.splits\<close>)

lemma set_update_elem: "v \<in> set (xs[i := x]) \<Longrightarrow> v = x \<or> v \<in> set xs"
  using set_update_subset_insert by fastforce

lemma rwf_tview_update:
  "rwf rs \<Longrightarrow> v_nw v < length (nw_hist rs) \<Longrightarrow> v_cnt v < length (cnt_hist rs) \<Longrightarrow>
   rwf (rs\<lparr>tview := (tview rs)[t := v]\<rparr>)"
  unfolding rwf_def by (auto dest: set_update_elem)

lemma rwf_simps [simp]:
  "rwf (rset_pc t p rs) = rwf rs" "rwf (rs\<lparr>rlock := m\<rparr>) = rwf rs" "rwf (rs\<lparr>rfutex := q\<rparr>) = rwf rs"
  "rwf (rwake_threads ws rs) = rwf rs"
  by (simp_all add: rwf_def rset_pc_def)

lemma rwf_nth: "rwf rs \<Longrightarrow> t < length (rpcs rs) \<Longrightarrow>
   v_nw (tview rs ! t) < length (nw_hist rs) \<and> v_cnt (tview rs ! t) < length (cnt_hist rs)"
  unfolding rwf_def by (metis nth_mem)

lemma rwf_ops:
  assumes "rwf rs" and "t < length (rpcs rs)"
  shows "rwf (r_register t rs)" "rwf (r_deregister t rs)" "rwf (r_bump t rs)"
    "rwf (r_acquire t rs)" "rwf (r_release t rs)"
  using assms rwf_nth [OF assms]
  by (auto simp: rops_defs vjoin_def rwf_def less_Suc_eq dest!: set_update_elem)

lemma rwf_lock_ops [simp]:
  "rwf rs \<Longrightarrow> t < length (rpcs rs) \<Longrightarrow> rwf (r_release t (rs\<lparr>rlock := m\<rparr>))"
  "rwf rs \<Longrightarrow> t < length (rpcs rs) \<Longrightarrow> rwf (r_acquire t (rs\<lparr>rlock := m\<rparr>))"
  using rwf_ops(4,5) [of "rs\<lparr>rlock := m\<rparr>" t] by simp_all

lemma rexec_rwf: "rexec_pc t p rs = Some rs' \<Longrightarrow> rwf rs \<Longrightarrow> t < length (rpcs rs) \<Longrightarrow> rwf rs'"
  by (cases "(t, p, rs)" rule: rexec_pc.cases)
    (auto intro: rwf_ops split: if_splits prod.splits simp: futex_wake_all_def)

lemma rstep_rwf: "rstep rs e = Some rs' \<Longrightarrow> rwf rs \<Longrightarrow> rwf rs'"
proof (cases e)
  case (RCall_notify t k i)
  then show "rstep rs e = Some rs' \<Longrightarrow> rwf rs \<Longrightarrow> rwf rs'"
    using rwf_nth [of rs t]
    by (auto simp: r_notify_entry_def r_load_waiters_def intro!: rwf_tview_update split: if_splits)
next
  case (RRead t i)
  then show "rstep rs e = Some rs' \<Longrightarrow> rwf rs \<Longrightarrow> rwf rs'"
    using rwf_nth [of rs t]
    by (auto simp: r_snapshot_def intro!: rwf_tview_update split: if_splits)
qed (auto intro: rwf_ops rexec_rwf simp: r_wait_entry_def rwake_one_step_def
      split: if_splits option.splits prod.splits)

lemma rreachable_rwf: "rreachable rs \<Longrightarrow> rwf rs"
proof (induction rule: rreachable.induct)
  case (init n)
  then show ?case by (simp add: rwf_def rsys_init_def view0_def)
next
  case (step rs e rs')
  show ?case by (rule rstep_rwf [OF step.hyps(2) step.IH])
qed

lemma rreachable_frame:
  "rreachable rs \<Longrightarrow> rstep rs e = Some rs' \<Longrightarrow> ractor e < length (rpcs rs) \<and> rframe (ractor e) rs rs'"
  using rstep_frame rreachable_rwf rreachable_sys_inv by (simp add: sys_inv_def)

subsection \<open>A registered waiter is seen by every later value of \<open>num_waiters\<close>\<close>

lemma rwake_threads_nth:
  "j < length (rpcs rs) \<Longrightarrow>
   rpcs (rwake_threads ws rs) ! j = (if j \<in> set ws then Wait_Dec else rpcs rs ! j)"
  by (induction ws arbitrary: rs) auto

lemma queued_registered: "sys_inv (proj rs) \<Longrightarrow> w \<in> set (rfutex rs) \<Longrightarrow> registered (rpcs rs ! w)"
  by (auto simp: sys_inv_def queue_inv_def intro: blocked_registered)

lemma queued_released: "sys_inv (proj rs) \<Longrightarrow> w \<in> set (rfutex rs) \<Longrightarrow> released (rpcs rs ! w)"
proof -
  assume "sys_inv (proj rs)" "w \<in> set (rfutex rs)"
  then have "blocked (rpcs rs ! w)" by (auto simp: sys_inv_def queue_inv_def)
  then show ?thesis by (cases "rpcs rs ! w") simp_all
qed

lemma queued_bound: "sys_inv (proj rs) \<Longrightarrow> w \<in> set (rfutex rs) \<Longrightarrow> w < length (rpcs rs)"
  by (auto simp: sys_inv_def queue_inv_def)

lemma rexec_nw_shape:
  assumes "rexec_pc t (rpcs rs ! t) rs = Some rs'" and "sys_inv (proj rs)" and "t < length (rpcs rs)"
    and "w < length (rpcs rs)" and "registered (rpcs rs' ! w)"
  shows "nw_shape rs rs' w \<and> (nw_hist rs' = nw_hist rs \<or> (\<exists>y. nw_hist rs' = nw_hist rs @ [y]))"
proof (cases "rpcs rs ! t")
  case (Notify_Wake k)
  with assms show ?thesis
    by (cases k; cases "w = t")
      (auto simp: nw_shape_def futex_wake_all_def nth_list_update rwake_threads_nth queued_registered
        split: if_splits)
qed (use assms in \<open>auto simp: nw_shape_def rops_defs vjoin_def mutex_lock_Some_iff
      futex_wait_def nth_list_update split: if_splits\<close>)

lemma rstep_nw_shape:
  assumes "rstep rs e = Some rs'" and "sys_inv (proj rs)" and "w < length (rpcs rs)"
    and "registered (rpcs rs' ! w)" and "length (tview rs) = length (rpcs rs)"
  shows "nw_shape rs rs' w \<and> (nw_hist rs' = nw_hist rs \<or> (\<exists>y. nw_hist rs' = nw_hist rs @ [y]))"
proof (cases e)
  case (RExec t)
  with assms rexec_nw_shape [of t rs rs' w] show ?thesis by (simp split: if_splits)
next
  case (RWake t v)
  with assms queued_bound [of rs v] queued_registered [of rs v] show ?thesis
    by (auto simp: nw_shape_def rwake_one_step_def futex_wake_one_def nth_list_update split: if_splits)
qed (use assms in \<open>auto simp: nw_shape_def rops_defs vjoin_def r_wait_entry_def r_notify_entry_def
      rwake_one_step_def mutex_lock_Some_iff futex_wake_one_def nth_list_update queued_registered
      split: if_splits option.splits prod.splits\<close>)

lemma usize_of_nat_nonzero: "0 < c \<Longrightarrow> c < 2 ^ 64 \<Longrightarrow> (of_nat c :: usize) \<noteq> 0"
  by (auto simp: word_of_nat_eq_0_iff dest: nat_dvd_not_less)

lemma last_nw_nonzero:
  assumes "sys_inv (proj rs)" and "length (rpcs rs) < 2 ^ 64" and "w < length (rpcs rs)"
    and "registered (rpcs rs ! w)"
  shows "last (nw_hist rs) \<noteq> 0"
proof -
  from assms(1) have "last (nw_hist rs) = of_nat (length (filter registered (rpcs rs)))"
    by (simp add: sys_inv_def waiters_inv_def)
  moreover from assms(3,4) have "0 < length (filter registered (rpcs rs))" by (rule length_filter_pos)
  moreover have "length (filter registered (rpcs rs)) < 2 ^ 64"
    using assms(2) length_filter_le [of registered "rpcs rs"] by linarith
  ultimately show ?thesis by (simp add: usize_of_nat_nonzero)
qed

lemma drop_butlast_last: "xs \<noteq> [] \<Longrightarrow> drop (length (butlast xs)) xs = [last xs]"
  by (induction xs rule: rev_induct) simp_all

lemma nw_inv_step:
  assumes st: "rstep rs e = Some rs'" and wf: "rwf rs" and I: "sys_inv (proj rs)"
    and I': "sys_inv (proj rs')" and nw: "nw_inv rs" and n: "length (rpcs rs) < 2 ^ 64"
  shows "nw_inv rs'"
  unfolding nw_inv_def
proof (intro allI impI)
  fix w assume w': "w < length (rpcs rs')" and r: "registered (rpcs rs' ! w)"
  from rstep_frame [OF st wf] I have len: "length (rpcs rs') = length (rpcs rs)"
    by (simp add: sys_inv_def rframe_def)
  with w' have w: "w < length (rpcs rs)" by simp
  from len n w' r I' have nz: "last (nw_hist rs') \<noteq> 0" by (intro last_nw_nonzero) simp_all
  from wf have "length (tview rs) = length (rpcs rs)" by (simp add: rwf_def)
  note shape = rstep_nw_shape [OF st I w r this]
  then have sh: "nw_shape rs rs' w" by (rule conjunct1)
  from shape have h: "nw_hist rs' = nw_hist rs \<or> (\<exists>y. nw_hist rs' = nw_hist rs @ [y])"
    by (rule conjunct2)
  have ys: "\<exists>ys. nw_hist rs' = nw_hist rs @ ys \<and> 0 \<notin> set ys"
    using h
  proof (elim disjE exE)
    assume "nw_hist rs' = nw_hist rs"
    then have "nw_hist rs' = nw_hist rs @ [] \<and> 0 \<notin> set []" by simp
    then show ?thesis by (rule exI)
  next
    fix y assume y: "nw_hist rs' = nw_hist rs @ [y]"
    from nz have "y \<noteq> 0" unfolding y by simp
    with y have "nw_hist rs' = nw_hist rs @ [y] \<and> 0 \<notin> set [y]" by simp
    then show ?thesis by (rule exI)
  qed
  from sh show "0 \<notin> set (drop (v_nw (tview rs' ! w)) (nw_hist rs'))"
    unfolding nw_shape_def
  proof (elim disjE conjE)
    assume "registered (rpcs rs ! w)" and v: "v_nw (tview rs' ! w) = v_nw (tview rs ! w)"
    with nw w have old: "0 \<notin> set (drop (v_nw (tview rs ! w)) (nw_hist rs))" by (simp add: nw_inv_def)
    from rwf_nth [OF wf w] have "v_nw (tview rs ! w) \<le> length (nw_hist rs)" by simp
    with ys old v show ?thesis by (auto simp: drop_append)
  next
    assume v: "v_nw (tview rs' ! w) = length (nw_hist rs)" and ne: "nw_hist rs' \<noteq> []"
      and b: "butlast (nw_hist rs') = nw_hist rs"
    from drop_butlast_last [OF ne] b v nz show ?thesis by simp
  qed
qed

lemma rreachable_length: "rreachable rs \<Longrightarrow> rstep rs e = Some rs' \<Longrightarrow> length (rpcs rs') = length (rpcs rs)"
  using rreachable_frame [of rs e rs'] by (simp add: rframe_def)

lemma rreachable_nw_inv: "rreachable rs \<Longrightarrow> length (rpcs rs) < 2 ^ 64 \<Longrightarrow> nw_inv rs"
proof (induction rule: rreachable.induct)
  case (init n)
  then show ?case by (simp add: nw_inv_def rsys_init_def)
next
  case (step rs e rs')
  from rreachable_length [OF step.hyps] step.prems have n: "length (rpcs rs) < 2 ^ 64" by simp
  from step.hyps have r': "rreachable rs'" by (rule rreachable.step)
  from nw_inv_step [OF step.hyps(2) rreachable_rwf [OF step.hyps(1)] rreachable_sys_inv [OF step.hyps(1)]
      rreachable_sys_inv [OF r'] step.IH [OF n] n]
  show ?case .
qed

subsection \<open>The mutex carries the registrations\<close>

lemma rexec_mv_shape:
  assumes "rexec_pc t (rpcs rs ! t) rs = Some rs'" and "sys_inv (proj rs)" and "t < length (rpcs rs)"
    and "w < length (rpcs rs)" and "length (tview rs) = length (rpcs rs)"
  shows "(registered (rpcs rs' ! w) \<and> released (rpcs rs' ! w) \<longrightarrow> mv_shape rs rs' w) \<and>
         (rlock rs' = Some w \<longrightarrow> lock_shape rs rs' w)"
proof (cases "rpcs rs ! t")
  case (Notify_Wake k)
  with assms show ?thesis
    by (cases k)
      (auto simp: mv_shape_def lock_shape_def futex_wake_all_def nth_list_update rwake_threads_nth
        queued_registered queued_released split: if_splits)
qed (use assms in \<open>auto simp: mv_shape_def lock_shape_def rops_defs mutex_lock_Some_iff
      mutex_unlock_def futex_wait_def nth_list_update split: if_splits\<close>)

lemma rstep_mv_shape:
  assumes "rstep rs e = Some rs'" and "sys_inv (proj rs)" and "w < length (rpcs rs)"
    and "length (tview rs) = length (rpcs rs)"
  shows "(registered (rpcs rs' ! w) \<and> released (rpcs rs' ! w) \<longrightarrow> mv_shape rs rs' w) \<and>
         (rlock rs' = Some w \<longrightarrow> lock_shape rs rs' w)"
proof (cases e)
  case (RExec t)
  with assms rexec_mv_shape [of t rs rs' w] show ?thesis by (simp split: if_splits)
next
  case (RWake t v)
  with assms queued_bound [of rs v] queued_registered [of rs v] queued_released [of rs v] show ?thesis
    by (auto simp: mv_shape_def lock_shape_def rwake_one_step_def futex_wake_one_def nth_list_update
        split: if_splits)
next
  case (RSpurious v)
  with assms queued_registered [of rs v] queued_released [of rs v] show ?thesis
    by (auto simp: mv_shape_def lock_shape_def nth_list_update split: if_splits)
qed (use assms in \<open>auto simp: mv_shape_def lock_shape_def rops_defs r_wait_entry_def r_notify_entry_def
      mutex_lock_Some_iff mutex_unlock_def nth_list_update split: if_splits option.splits prod.splits\<close>)

lemma vle_simps [simp]:
  "vle a a" "vle a (vjoin a b)" "vle b (vjoin a b)"
  by (simp_all add: vle_def vjoin_def)

lemma vle_trans: "vle a b \<Longrightarrow> vle b c \<Longrightarrow> vle a c"
  by (simp add: vle_def)

lemma mview_inv_step:
  assumes st: "rstep rs e = Some rs'" and wf: "rwf rs" and I: "sys_inv (proj rs)"
    and I': "sys_inv (proj rs')" and mv: "mview_inv rs"
  shows "mview_inv rs'"
proof -
  let ?t = "ractor e"
  from rstep_frame [OF st wf] I have F: "rframe ?t rs rs'" by (simp add: sys_inv_def)
  from wf have tl: "length (tview rs) = length (rpcs rs)" by (simp add: rwf_def)
  from F have len: "length (rpcs rs') = length (rpcs rs)" by (simp add: rframe_def)
  from mv have mv1: "\<And>w. w < length (rpcs rs) \<Longrightarrow> registered (rpcs rs ! w) \<Longrightarrow> released (rpcs rs ! w) \<Longrightarrow>
      v_nw (tview rs ! w) \<le> v_nw (mview rs)"
    and mv2: "\<And>h. rlock rs = Some h \<Longrightarrow> vle (mview rs) (tview rs ! h)"
    by (auto simp: mview_inv_def)
  have grow: "v_nw (mview rs) \<le> v_nw (mview rs')"
    using F mv2 [of ?t] by (auto simp: rframe_def vle_def)
  have own: "vle (tview rs ! h) (tview rs' ! h)" if "h < length (rpcs rs)" for h
    using F that tl by (cases "h = ?t") (auto simp: rframe_def)
  have "v_nw (tview rs' ! w) \<le> v_nw (mview rs')"
    if w': "w < length (rpcs rs')" and rr: "registered (rpcs rs' ! w)" "released (rpcs rs' ! w)" for w
  proof -
    from w' len have w: "w < length (rpcs rs)" by simp
    from rstep_mv_shape [OF st I w tl] rr have "mv_shape rs rs' w" by simp
    then show ?thesis
      using mv1 [OF w] grow by (auto simp: mv_shape_def)
  qed
  moreover have "vle (mview rs') (tview rs' ! h)" if h: "rlock rs' = Some h" for h
  proof -
    from lock_invD(2) [of "proj rs'" h] I' h len have hl: "h < length (rpcs rs)"
      by (simp add: sys_inv_def)
    from rstep_mv_shape [OF st I hl tl] h have "lock_shape rs rs' h" by simp
    then show ?thesis
    proof (unfold lock_shape_def, elim disjE conjE)
      assume "rlock rs = Some h" "mview rs' = mview rs"
      with mv2 own [OF hl] show ?thesis by (auto intro: vle_trans)
    qed simp
  qed
  ultimately show ?thesis by (auto simp: mview_inv_def split: option.splits)
qed

lemma rreachable_mview_inv: "rreachable rs \<Longrightarrow> mview_inv rs"
proof (induction rule: rreachable.induct)
  case (init n)
  then show ?case by (simp add: mview_inv_def rsys_init_def)
next
  case (step rs e rs')
  from step.hyps have r': "rreachable rs'" by (rule rreachable.step)
  from mview_inv_step [OF step.hyps(2) rreachable_rwf [OF step.hyps(1)]
      rreachable_sys_inv [OF step.hyps(1)] rreachable_sys_inv [OF r'] step.IH]
  show ?case .
qed

end
