(* ===== verification/Relaxed_Props.thy ===== *)
theory Relaxed_Props
  imports Relaxed
begin

text \<open>
  What the \<open>Relaxed\<close> orderings allow and what they do not. A notifier whose relaxed load
  of \<open>num_waiters\<close> (line 21 / 27) happens after a waiter's \<open>fetch_add\<close> (line 34) sees
  a non-zero count. The mutex provides that order: the waiter drops its guard after the
  \<open>fetch_add\<close>, and a notifier that locks the mutex afterwards acquires it
  (\<open>relaxed_notify_lost\<close> is a run without that order, in which the notification is
  lost). The relaxed load of \<open>counter\<close> at line 35 may return a generation older than the
  last one; a waiter holding such a snapshot blocks at line 40 only across \<open>2^32\<close>
  notifications (\<open>cnt_gen\<close>: the value with timestamp \<open>j\<close> is \<open>j\<close>).
\<close>

text \<open>Thread 0 locks the mutex, calls \<open>wait\<close>, reads the generation, drops its guard and
  blocks in the futex.\<close>

definition blocked_sched :: "revent list" where
  "blocked_sched = [RLock 0, RCall_wait 0, RRead 0 0, RExec 0, RExec 0]"

text \<open>The state \<open>blocked_sched\<close> reaches from \<open>rsys_init 2\<close>, and the state after thread 1
  then locks the mutex and acquires the view thread 0 released at line 38.\<close>

definition blocked_state :: rsys where
  "blocked_state =
     \<lparr>nw_hist = [0, 1], cnt_hist = [0], rfutex = [0], rlock = None,
           mview = \<lparr>v_nw = 1, v_cnt = 0\<rparr>, tview = [\<lparr>v_nw = 1, v_cnt = 0\<rparr>, view0],
           rpcs = [Wait_Blocked 0, Idle]\<rparr>"

definition synced_state :: rsys where
  "synced_state =
     \<lparr>nw_hist = [0, 1], cnt_hist = [0], rfutex = [0], rlock = Some 1,
           mview = \<lparr>v_nw = 1, v_cnt = 0\<rparr>, tview = [\<lparr>v_nw = 1, v_cnt = 0\<rparr>, \<lparr>v_nw = 1, v_cnt = 0\<rparr>],
           rpcs = [Wait_Blocked 0, Idle]\<rparr>"

text \<open>Every value of \<open>counter\<close> is its generation: the value with timestamp \<open>j\<close>
  is \<open>j\<close> modulo \<open>2^32\<close>, since only the \<open>fetch_add\<close>s of lines 22 and 28 write it.\<close>

definition cnt_gen :: "rsys \<Rightarrow> bool" where
  "cnt_gen rs \<longleftrightarrow> cnt_hist rs \<noteq> [] \<and> (\<forall>j < length (cnt_hist rs). cnt_hist rs ! j = of_nat j)"

text \<open>Thread 0 locks the mutex and calls \<open>wait\<close> (line 34); thread 1 runs a whole
  \<open>notify_one\<close>, which sees the registration and bumps \<open>counter\<close> to 1. Thread 0 has
  not yet read \<open>counter\<close> at line 35, and its view of \<open>counter\<close> is still the initial 0.\<close>

definition stale_pre :: "revent list" where
  "stale_pre = [RLock 0, RCall_wait 0, RCall_notify 1 One 1, RExec 1, RExec 1]"

definition stale_state :: rsys where
  "stale_state =
     \<lparr>nw_hist = [0, 1], cnt_hist = [0, 1], rfutex = [], rlock = Some 0, mview = view0,
      tview = [\<lparr>v_nw = 1, v_cnt = 0\<rparr>, \<lparr>v_nw = 1, v_cnt = 1\<rparr>], rpcs = [Wait_Load, Idle]\<rparr>"

subsection \<open>Runs\<close>

lemma rrun_append:
  "rrun rs (es @ es') = (case rrun rs es of None \<Rightarrow> None | Some rs' \<Rightarrow> rrun rs' es')"
  by (induction es arbitrary: rs) (auto split: option.splits)

lemma rrun_reachable: "rreachable rs \<Longrightarrow> rrun rs es = Some rs' \<Longrightarrow> rreachable rs'"
proof (induction es arbitrary: rs)
  case Nil
  then show ?case by simp
next
  case (Cons e es)
  then obtain rs1 where "rstep rs e = Some rs1" and "rrun rs1 es = Some rs'"
    by (auto split: option.splits)
  with Cons show ?case by (blast intro: rreachable.step)
qed

lemma blocked_sched_run: "rrun (rsys_init 2) blocked_sched = Some blocked_state"
  by (simp add: blocked_sched_def blocked_state_def rsys_init_def numeral_2_eq_2 condvar_new_def view0_def rops_defs
      vjoin_def r_wait_entry_def mutex_lock_def mutex_unlock_def futex_wait_def)

lemma nth_in_drop:
  assumes "v \<le> i" and "i < length xs"
  shows "xs ! i \<in> set (drop v xs)"
proof -
  from assms have "drop v xs ! (i - v) = xs ! i" by simp
  moreover from assms have "i - v < length (drop v xs)" by simp
  ultimately show ?thesis by (metis nth_mem)
qed

text \<open>The state after \<open>blocked_sched\<close> and the \<open>lock()\<close> of thread 1.\<close>

lemma synced_run: "rrun (rsys_init 2) (blocked_sched @ [RLock 1]) = Some synced_state"
  by (simp add: rrun_append blocked_sched_run blocked_state_def synced_state_def r_acquire_def vjoin_def view0_def mutex_lock_def)

subsection \<open>Views along a run\<close>

text \<open>Every value of \<open>num_waiters\<close> from a registered waiter's \<open>fetch_add\<close> on is
  non-zero.\<close>

lemma registered_nonzero:
  assumes r: "rreachable rs" and n: "length (rpcs rs) < 2 ^ 64" and w: "w < length (rpcs rs)"
    and reg: "registered (rpcs rs ! w)" and i: "v_nw (tview rs ! w) \<le> i" "i < length (nw_hist rs)"
  shows "0 < nw_hist rs ! i"
proof -
  from rreachable_nw_inv [OF r n] w reg
  have "0 \<notin> set (drop (v_nw (tview rs ! w)) (nw_hist rs))" by (simp add: nw_inv_def)
  moreover from i have "nw_hist rs ! i \<in> set (drop (v_nw (tview rs ! w)) (nw_hist rs))"
    by (rule nth_in_drop)
  ultimately show ?thesis by (metis word_neq_0_conv)
qed

text \<open>A waiter that runs no line of its own stays registered with the same view of
  \<open>num_waiters\<close>; every thread's view only grows.\<close>

lemma rstep_keeps_waiter:
  assumes st: "rstep rs e = Some rs'" and I: "sys_inv (proj rs)" and ne: "e \<noteq> RExec w"
    and w: "w < length (rpcs rs)" and reg: "registered (rpcs rs ! w)"
    and tl: "length (tview rs) = length (rpcs rs)"
  shows "registered (rpcs rs' ! w) \<and> v_nw (tview rs' ! w) = v_nw (tview rs ! w)"
proof (cases e)
  case (RExec t)
  with ne have tw: "t \<noteq> w" by simp
  show ?thesis
  proof (cases "rpcs rs ! t")
    case (Notify_Wake k)
    with st RExec tw w reg queued_registered [OF I] show ?thesis
      by (cases k) (auto simp: futex_wake_all_def nth_list_update rwake_threads_nth split: if_splits)
  qed (use st RExec tw w reg tl in \<open>auto simp: rops_defs mutex_lock_Some_iff futex_wait_def
        nth_list_update split: if_splits\<close>)
next
  case (RWake t v)
  with st w reg queued_bound [OF I, of v] show ?thesis
    by (auto simp: rwake_one_step_def futex_wake_one_def nth_list_update split: if_splits)
next
  case (RSpurious v)
  with st w reg queued_bound [OF I, of v] show ?thesis by (auto simp: nth_list_update split: if_splits)
qed (use st w reg tl in \<open>auto simp: rops_defs r_wait_entry_def r_notify_entry_def mutex_lock_Some_iff
      nth_list_update split: if_splits option.splits prod.splits\<close>)

lemma rstep_view_mono:
  assumes "rreachable rs" and "rstep rs e = Some rs'" and "u < length (rpcs rs)"
  shows "v_nw (tview rs ! u) \<le> v_nw (tview rs' ! u)"
proof -
  from rreachable_frame [OF assms(1,2)] have F: "rframe (ractor e) rs rs'" by simp
  from rreachable_rwf [OF assms(1)] assms(3) have "u < length (tview rs)" by (simp add: rwf_def)
  with F show ?thesis by (cases "u = ractor e") (auto simp: rframe_def vle_def)
qed

lemma rrun_keeps_waiter:
  assumes "rreachable rs" and "rrun rs es = Some rs1" and "RExec w \<notin> set es"
    and "w < length (rpcs rs)" and "registered (rpcs rs ! w)" and "u < length (rpcs rs)"
  shows "rreachable rs1 \<and> length (rpcs rs1) = length (rpcs rs) \<and> registered (rpcs rs1 ! w) \<and>
         v_nw (tview rs1 ! w) = v_nw (tview rs ! w) \<and> v_nw (tview rs ! u) \<le> v_nw (tview rs1 ! u)"
  using assms
proof (induction es arbitrary: rs)
  case Nil
  then show ?case by simp
next
  case (Cons e es)
  then obtain rs' where st: "rstep rs e = Some rs'" and r': "rrun rs' es = Some rs1"
    by (auto split: option.splits)
  from Cons.prems(1) st have reach': "rreachable rs'" by (rule rreachable.step)
  from rreachable_length [OF Cons.prems(1) st] have len: "length (rpcs rs') = length (rpcs rs)" .
  from rreachable_rwf [OF Cons.prems(1)] have tl: "length (tview rs) = length (rpcs rs)"
    by (simp add: rwf_def)
  from Cons.prems(3) have ne: "e \<noteq> RExec w" by auto
  from rstep_keeps_waiter [OF st rreachable_sys_inv [OF Cons.prems(1)] ne Cons.prems(4,5) tl]
  have keep: "registered (rpcs rs' ! w)" "v_nw (tview rs' ! w) = v_nw (tview rs ! w)" by simp_all
  from rstep_view_mono [OF Cons.prems(1) st Cons.prems(6)]
  have mono: "v_nw (tview rs ! u) \<le> v_nw (tview rs' ! u)" .
  from Cons.IH [OF reach' r'] Cons.prems(3,4,6) keep(1) len
  have "rreachable rs1 \<and> length (rpcs rs1) = length (rpcs rs') \<and> registered (rpcs rs1 ! w) \<and>
      v_nw (tview rs1 ! w) = v_nw (tview rs' ! w) \<and> v_nw (tview rs' ! u) \<le> v_nw (tview rs1 ! u)"
    by simp
  with keep(2) mono len show ?case by simp
qed

subsection \<open>The generations of \<open>counter\<close> and a pending waiter\<close>

lemma rexec_cnt_hist:
  "rexec_pc t p rs = Some rs' \<Longrightarrow>
   cnt_hist rs' = cnt_hist rs \<or> cnt_hist rs' = cnt_hist rs @ [last (cnt_hist rs) + 1]"
  by (cases "(t, p, rs)" rule: rexec_pc.cases)
    (auto simp: rops_defs split: if_splits prod.splits option.splits)

lemma rstep_cnt_hist:
  "rstep rs e = Some rs' \<Longrightarrow>
   cnt_hist rs' = cnt_hist rs \<or> cnt_hist rs' = cnt_hist rs @ [last (cnt_hist rs) + 1]"
  by (cases e) (auto simp: rexec_cnt_hist r_wait_entry_def r_notify_entry_def rwake_one_step_def rops_defs
      split: if_splits prod.splits option.splits)

lemma cnt_gen_step: "cnt_gen rs \<Longrightarrow> rstep rs e = Some rs' \<Longrightarrow> cnt_gen rs'"
proof -
  assume g: "cnt_gen rs" and st: "rstep rs e = Some rs'"
  from rstep_cnt_hist [OF st] show "cnt_gen rs'"
  proof (elim disjE)
    assume "cnt_hist rs' = cnt_hist rs"
    with g show ?thesis by (simp add: cnt_gen_def)
  next
    assume h: "cnt_hist rs' = cnt_hist rs @ [last (cnt_hist rs) + 1]"
    from g have ne: "cnt_hist rs \<noteq> []" by (simp add: cnt_gen_def)
    then obtain n where n: "length (cnt_hist rs) = Suc n" by (cases "cnt_hist rs") auto
    with g ne have "last (cnt_hist rs) = of_nat n" by (simp add: cnt_gen_def last_conv_nth)
    with n have "last (cnt_hist rs) + 1 = of_nat (length (cnt_hist rs))" by (simp add: add.commute)
    with g h show ?thesis by (auto simp: cnt_gen_def nth_append less_Suc_eq)
  qed
qed

lemma rreachable_cnt_gen: "rreachable rs \<Longrightarrow> cnt_gen rs"
proof (induction rule: rreachable.induct)
  case (init n)
  show ?case by (simp add: cnt_gen_def rsys_init_def condvar_new_def)
next
  case (step rs e rs')
  from cnt_gen_step [OF step.IH step.hyps(2)] show ?case .
qed

lemma rrun_cnt_length: "rrun rs es = Some rs' \<Longrightarrow> length (cnt_hist rs) \<le> length (cnt_hist rs')"
proof (induction es arbitrary: rs)
  case Nil
  then show ?case by simp
next
  case (Cons e es)
  then obtain rs1 where s1: "rstep rs e = Some rs1" and r: "rrun rs1 es = Some rs'"
    by (auto split: option.splits)
  from rstep_cnt_hist [OF s1] have "length (cnt_hist rs) \<le> length (cnt_hist rs1)" by auto
  with Cons.IH [OF r] show ?case by simp
qed

lemma cnt_gen_last:
  "cnt_gen rs \<Longrightarrow> last (cnt_hist rs) = of_nat (length (cnt_hist rs) - 1)"
  by (simp add: cnt_gen_def last_conv_nth)

lemma rrun_length: "rreachable rs \<Longrightarrow> rrun rs es = Some rs' \<Longrightarrow> length (rpcs rs') = length (rpcs rs)"
proof (induction es arbitrary: rs)
  case Nil
  then show ?case by simp
next
  case (Cons e es)
  then obtain rs1 where s1: "rstep rs e = Some rs1" and r: "rrun rs1 es = Some rs'"
    by (auto split: option.splits)
  from Cons.IH [OF rreachable.step [OF Cons.prems(1) s1] r] rreachable_length [OF Cons.prems(1) s1]
  show ?case by simp
qed

text \<open>While only the other threads step, a waiter between line 35 and its return from the
  futex keeps its program counter and snapshot, as in \<open>Interleaving\<close>.\<close>

lemma rstep_keeps_pending_pc:
  assumes r: "rreachable rs" and st: "rstep rs e = Some rs'" and ne: "e \<noteq> RExec w"
    and w: "w < length (rpcs rs)" and p: "rpcs rs ! w = Wait_Drop v \<or> rpcs rs ! w = Wait_Futex v"
  shows "rpcs rs' ! w = rpcs rs ! w"
proof (cases "rload e")
  case True
  from rstep_load [OF st True] show ?thesis
  proof (elim disjE exE conjE)
    assume "proj rs' = proj rs"
    then have "pcs (proj rs') = pcs (proj rs)" by simp
    then show ?thesis by simp
  next
    fix t q assume "t < length (rpcs rs)" and le: "load_edge (rpcs rs ! t) q"
      and pr: "proj rs' = set_pc t q (proj rs)"
    from le p have "t \<noteq> w" by (cases "(rpcs rs ! t, q)" rule: load_edge.cases) auto
    from pr have "pcs (proj rs') = (pcs (proj rs))[t := q]" by simp
    with \<open>t \<noteq> w\<close> show ?thesis by simp
  qed
next
  case False
  from rstep_sc [OF st False] have sc: "step (proj rs) (sc_event e) = Some (proj rs')" .
  from ne False have "sc_event e \<noteq> Exec w" by (cases e) auto
  from step_keeps_pending_pc [OF rreachable_sys_inv [OF r] sc this] w p
  show ?thesis by simp
qed

lemma rrun_keeps_pending_pc:
  "rreachable rs \<Longrightarrow> rrun rs es = Some rs' \<Longrightarrow> RExec w \<notin> set es \<Longrightarrow> w < length (rpcs rs) \<Longrightarrow>
   rpcs rs ! w = Wait_Drop v \<or> rpcs rs ! w = Wait_Futex v \<Longrightarrow> rpcs rs' ! w = rpcs rs ! w"
proof (induction es arbitrary: rs)
  case Nil
  then show ?case by simp
next
  case (Cons e es)
  then obtain rs1 where s1: "rstep rs e = Some rs1" and r: "rrun rs1 es = Some rs'"
    by (auto split: option.splits)
  from Cons.prems(3) have ne: "e \<noteq> RExec w" by auto
  from rstep_keeps_pending_pc [OF Cons.prems(1) s1 ne Cons.prems(4,5)]
  have eq: "rpcs rs1 ! w = rpcs rs ! w" .
  from rreachable_length [OF Cons.prems(1) s1] Cons.prems(4) have "w < length (rpcs rs1)" by simp
  with Cons.IH [OF rreachable.step [OF Cons.prems(1) s1] r] Cons.prems(3,5) eq show ?case by simp
qed


lemma stale_run: "rrun (rsys_init 2) stale_pre = Some stale_state"
  by (simp add: stale_pre_def stale_state_def rsys_init_def numeral_2_eq_2 condvar_new_def view0_def
      rops_defs r_wait_entry_def r_notify_entry_def mutex_lock_def vjoin_def)

text \<open>The notification the order of C34 and C35 rules out: thread 0 blocks in \<open>wait\<close>,
  thread 1, which never touched the mutex, calls \<open>notify_one\<close>, its relaxed load reads the
  initial value 0 of \<open>num_waiters\<close>, and the call returns from the fast path, leaving
  thread 0 blocked on the current generation.\<close>

lemma relaxed_notify_lost:
  "\<exists>rs. rrun (rsys_init 2) (blocked_sched @ [RCall_notify 1 One 0]) = Some rs \<and>
     rpcs rs = [Wait_Blocked 0, Idle] \<and> rfutex rs = [0] \<and> cnt_hist rs = [0] \<and>
     has_waiters (cv (proj rs))"
  by (simp add: rrun_append blocked_sched_run blocked_state_def r_notify_entry_def r_load_waiters_def
      view0_def has_waiters_def proj_def)

subsection \<open>Properties of the relaxed accesses\<close>

text \<open>
  C34. The fast path cannot skip a waiter the notifier is ordered after. If the
  \<open>fetch_add\<close> of a thread \<open>w\<close> still inside \<open>wait\<close> (lines 34--42) is in the view of
  thread \<open>u\<close>, that is, it happens before \<open>u\<close>'s load, then whatever value the relaxed
  load of \<open>num_waiters\<close> at line 21 / 27 returns, it is non-zero and \<open>u\<close> goes on to
  bump \<open>counter\<close> (fewer than \<open>2^64\<close> threads, see C32).
\<close>

theorem relaxed_notify_sees_waiter:
  assumes r: "rreachable rs" and n: "length (rpcs rs) < 2 ^ 64" and w: "w < length (rpcs rs)"
    and reg: "registered (rpcs rs ! w)" and hb: "v_nw (tview rs ! w) \<le> v_nw (tview rs ! u)"
    and st: "rstep rs (RCall_notify u k i) = Some rs'"
  shows "rpcs rs' ! u = Notify_Inc k"
proof -
  from st have u: "u < length (rpcs rs)" "rpcs rs ! u = Idle" "v_nw (tview rs ! u) \<le> i"
    "i < length (nw_hist rs)"
    by (auto simp: r_notify_entry_def r_load_waiters_def split: if_splits)
  from hb u have "v_nw (tview rs ! w) \<le> i" by simp
  from registered_nonzero [OF r n w reg this u(4)] have "0 < nw_hist rs ! i" .
  with st u show ?thesis by (auto simp: r_notify_entry_def r_load_waiters_def)
qed

theorem relaxed_notify_sees_waiter_witness:
  "\<exists>rs rs'. rrun (rsys_init 2) (blocked_sched @ [RLock 1]) = Some rs \<and>
     rstep rs (RCall_notify 1 One 1) = Some rs' \<and> rpcs rs' ! 1 = Notify_Inc One"
proof -
  from rrun_reachable [OF rreachable.init synced_run] have reach: "rreachable synced_state" .
  have "\<exists>rs'. rstep synced_state (RCall_notify 1 One 1) = Some rs'"
    by (simp add: synced_state_def r_notify_entry_def r_load_waiters_def)
  then obtain rs' where st: "rstep synced_state (RCall_notify 1 One 1) = Some rs'" ..
  have "length (rpcs synced_state) < 2 ^ 64" "0 < length (rpcs synced_state)"
    "registered (rpcs synced_state ! 0)" "v_nw (tview synced_state ! 0) \<le> v_nw (tview synced_state ! 1)"
    by (simp_all add: synced_state_def)
  from relaxed_notify_sees_waiter [OF reach this st] synced_run st show ?thesis by blast
qed

text \<open>
  C35. The mutex orders the registration before the notifier. From the drop of its guard
  at line 38 until it leaves \<open>wait\<close>, a waiter's \<open>fetch_add\<close> of line 34 is in the view
  of every thread that holds the mutex: the guard's drop releases the waiter's view and
  \<open>lock()\<close> acquires it. So a notifier that holds the mutex, or took it after the waiter
  dropped its guard, meets the hypothesis of C34.
\<close>

theorem mutex_orders_registration:
  assumes r: "rreachable rs" and w: "w < length (rpcs rs)" and reg: "registered (rpcs rs ! w)"
    and rel: "released (rpcs rs ! w)" and h: "rlock rs = Some u"
  shows "v_nw (tview rs ! w) \<le> v_nw (tview rs ! u)"
proof -
  from rreachable_mview_inv [OF r] w reg rel h
  have "v_nw (tview rs ! w) \<le> v_nw (mview rs)" "vle (mview rs) (tview rs ! u)"
    by (auto simp: mview_inv_def)
  then show ?thesis by (simp add: vle_def)
qed

theorem mutex_orders_registration_witness:
  "\<exists>rs. rrun (rsys_init 2) (blocked_sched @ [RLock 1]) = Some rs \<and> rlock rs = Some 1 \<and>
     v_nw (tview rs ! 0) \<le> v_nw (tview rs ! 1)"
proof -
  from rrun_reachable [OF rreachable.init synced_run] have reach: "rreachable synced_state" .
  have "0 < length (rpcs synced_state)" "registered (rpcs synced_state ! 0)"
    "released (rpcs synced_state ! 0)" and l: "rlock synced_state = Some 1"
    by (simp_all add: synced_state_def)
  from mutex_orders_registration [OF reach this(1-3) l] synced_run l show ?thesis by blast
qed

text \<open>
  C36. A stale snapshot only makes \<open>wait\<close> return early. The relaxed load of line 35 may
  read any value of \<open>counter\<close> not older than the waiter's view, the one with timestamp
  \<open>i\<close>. Let the waiter read it, let the other threads run, let it drop its guard (line 38),
  let the other threads run again, and let it execute line 40. It blocks exactly when the
  number of values of \<open>counter\<close> after the one it read is a multiple of \<open>2^32\<close>. The
  notifications it did not see, those before its load included, make the futex call
  return at once: an extra wake-up, never a missed one, up to the wrap of \<open>counter\<close>.
\<close>

theorem relaxed_snapshot_blocks_iff:
  assumes r0: "rreachable rs0" and l: "rpcs rs0 ! w = Wait_Load"
    and r: "rrun rs0 (RRead w i # es1 @ RExec w # es2) = Some rs2"
    and n1: "RExec w \<notin> set es1" and n2: "RExec w \<notin> set es2"
    and st: "rstep rs2 (RExec w) = Some rs3"
  shows "blocked (rpcs rs3 ! w) \<longleftrightarrow> 2 ^ 32 dvd (length (cnt_hist rs2) - Suc i)"
proof -
  from r obtain rs where s0: "rstep rs0 (RRead w i) = Some rs"
    and rs: "rrun rs (es1 @ RExec w # es2) = Some rs2"
    by (auto split: option.splits)
  from s0 l have w: "w < length (rpcs rs0)" and i: "i < length (cnt_hist rs0)"
    and s: "rs = rset_pc w (Wait_Drop (cnt_hist rs0 ! i))
                   (rs0\<lparr>tview := (tview rs0)[w := (tview rs0 ! w)\<lparr>v_cnt := i\<rparr>]\<rparr>)"
    by (auto simp: r_snapshot_def split: if_splits)
  let ?v = "cnt_hist rs0 ! i"
  from rreachable_cnt_gen [OF r0] i have v: "?v = of_nat i" by (simp add: cnt_gen_def)
  from rs obtain rs1 where r1: "rrun rs es1 = Some rs1" and r2: "rrun rs1 (RExec w # es2) = Some rs2"
    by (auto simp: rrun_append split: option.splits)
  from r2 obtain rs1' where st1: "rstep rs1 (RExec w) = Some rs1'" and r2': "rrun rs1' es2 = Some rs2"
    by (auto split: option.splits)
  have re: "rreachable rs" by (rule rreachable.step [OF r0 s0])
  from s w have ws: "w < length (rpcs rs)" by (simp add: rset_pc_def)
  from rrun_keeps_pending_pc [OF re r1 n1 ws] s w have p1: "rpcs rs1 ! w = Wait_Drop ?v"
    by (simp add: rset_pc_def)
  have re1: "rreachable rs1" by (rule rrun_reachable [OF re r1])
  from rrun_length [OF re r1] ws have ws1: "w < length (rpcs rs1)" by simp
  with p1 st1 have s1': "rs1' = rset_pc w (Wait_Futex ?v) (r_release w (rs1\<lparr>rlock := mutex_unlock (rlock rs1)\<rparr>))"
    by simp
  from s1' ws1 have ws1': "w < length (rpcs rs1')" by (simp add: rset_pc_def rops_defs)
  have re1': "rreachable rs1'" by (rule rreachable.step [OF re1 st1])
  from rrun_keeps_pending_pc [OF re1' r2' n2 ws1'] s1' ws1 have p2: "rpcs rs2 ! w = Wait_Futex ?v"
    by (simp add: rset_pc_def rops_defs)
  from rrun_length [OF re1' r2'] ws1' have ws2: "w < length (rpcs rs2)" by simp
  with p2 st have b: "blocked (rpcs rs3 ! w) \<longleftrightarrow> last (cnt_hist rs2) = ?v"
    by (auto simp: futex_wait_def rset_pc_def split: if_splits)
  have re2: "rreachable rs2" by (rule rrun_reachable [OF re1' r2'])
  from rrun_cnt_length [OF r] i have le: "i < length (cnt_hist rs2)" by simp
  from cnt_gen_last [OF rreachable_cnt_gen [OF re2]]
  have "last (cnt_hist rs2) = of_nat (length (cnt_hist rs2) - 1)" .
  also from le have "\<dots> = of_nat i + of_nat (length (cnt_hist rs2) - Suc i)"
    by (simp flip: of_nat_add)
  finally have "last (cnt_hist rs2) = ?v \<longleftrightarrow> (of_nat (length (cnt_hist rs2) - Suc i) :: u32) = 0"
    using v by simp
  with b show ?thesis by (simp add: word_of_nat_eq_0_iff)
qed


theorem relaxed_snapshot_blocks_iff_witness:
  "\<exists>rs2 rs3. rrun stale_state (RRead 0 0 # [] @ RExec 0 # []) = Some rs2 \<and>
     rstep rs2 (RExec 0) = Some rs3 \<and> length (cnt_hist rs2) = 2 \<and> \<not> blocked (rpcs rs3 ! 0) \<and>
     \<not> 2 ^ 32 dvd (length (cnt_hist rs2) - Suc 0)"
proof -
  have re0: "rreachable stale_state" by (rule rrun_reachable [OF rreachable.init stale_run])
  have "\<exists>rs2. rrun stale_state (RRead 0 0 # [] @ RExec 0 # []) = Some rs2"
    by (simp add: stale_state_def rops_defs mutex_unlock_def)
  then obtain rs2 where r: "rrun stale_state (RRead 0 0 # [] @ RExec 0 # []) = Some rs2" ..
  from r have "\<exists>rs3. rstep rs2 (RExec 0) = Some rs3"
    by (auto simp: stale_state_def rops_defs mutex_unlock_def futex_wait_def)
  then obtain rs3 where st: "rstep rs2 (RExec 0) = Some rs3" ..
  from r have l2: "length (cnt_hist rs2) = 2"
    by (auto simp: stale_state_def rops_defs mutex_unlock_def)
  have "rpcs stale_state ! 0 = Wait_Load" "RExec 0 \<notin> set []" by (simp_all add: stale_state_def)
  from relaxed_snapshot_blocks_iff [OF re0 this(1) r this(2) this(2) st] l2
  have "\<not> blocked (rpcs rs3 ! 0)" by simp
  with r st l2 show ?thesis by simp
qed


text \<open>
  C37. No missed wake-up under the \<open>Relaxed\<close> orderings, in the shape of the spec's test
  (section 8) and of \<open>test_condvar\<close>. A waiter \<open>w\<close> has dropped its guard at line 38,
  and a thread \<open>u\<close> then holds the mutex. After any schedule in which \<open>w\<close> executes no
  line of its own, so that it is still in the same call of \<open>wait\<close> (possibly woken
  spuriously), every \<open>notify_one\<close> or \<open>notify_all\<close> of \<open>u\<close> passes the fast path
  and bumps \<open>counter\<close>. This covers a \<open>u\<close> that has unlocked the mutex in between,
  as the spawned thread of the test does.
\<close>

theorem relaxed_lock_then_notify:
  assumes r: "rreachable rs" and n: "length (rpcs rs) < 2 ^ 64"
    and w: "w < length (rpcs rs)" and reg: "registered (rpcs rs ! w)" and rel: "released (rpcs rs ! w)"
    and h: "rlock rs = Some u"
    and run: "rrun rs es = Some rs1" and nx: "RExec w \<notin> set es"
    and st: "rstep rs1 (RCall_notify u k i) = Some rs2"
  shows "rpcs rs2 ! u = Notify_Inc k"
proof -
  from rreachable_mview_inv [OF r] w reg rel h
  have "v_nw (tview rs ! w) \<le> v_nw (mview rs)" "vle (mview rs) (tview rs ! u)"
    by (auto simp: mview_inv_def)
  then have hb: "v_nw (tview rs ! w) \<le> v_nw (tview rs ! u)" by (simp add: vle_def)
  from lock_invD(2) [of "proj rs" u] rreachable_sys_inv [OF r] h have u: "u < length (rpcs rs)"
    by (simp add: sys_inv_def)
  from rrun_keeps_waiter [OF r run nx w reg u]
  have r1: "rreachable rs1" and l1: "length (rpcs rs1) = length (rpcs rs)"
    and reg1: "registered (rpcs rs1 ! w)" and v1: "v_nw (tview rs1 ! w) = v_nw (tview rs ! w)"
    and u1: "v_nw (tview rs ! u) \<le> v_nw (tview rs1 ! u)"
    by simp_all
  from l1 n w have n1: "length (rpcs rs1) < 2 ^ 64" and w1: "w < length (rpcs rs1)" by simp_all
  from st have ld: "rpcs rs1 ! u = Idle" "v_nw (tview rs1 ! u) \<le> i" "i < length (nw_hist rs1)"
    "u < length (rpcs rs1)"
    by (auto simp: r_notify_entry_def r_load_waiters_def split: if_splits)
  from hb v1 u1 ld(2) have "v_nw (tview rs1 ! w) \<le> i" by simp
  from registered_nonzero [OF r1 n1 w1 reg1 this ld(3)] have "0 < nw_hist rs1 ! i" .
  with st ld show ?thesis by (auto simp: r_notify_entry_def r_load_waiters_def)
qed

theorem relaxed_lock_then_notify_witness:
  "\<exists>rs1 rs2. rrun synced_state [RUnlock 1, RSpurious 0] = Some rs1 \<and>
     rstep rs1 (RCall_notify 1 One 1) = Some rs2 \<and> rpcs rs2 ! 1 = Notify_Inc One"
proof -
  from rrun_reachable [OF rreachable.init synced_run] have reach: "rreachable synced_state" .
  have "\<exists>rs1. rrun synced_state [RUnlock 1, RSpurious 0] = Some rs1"
    by (simp add: synced_state_def rops_defs mutex_unlock_def)
  then obtain rs1 where run: "rrun synced_state [RUnlock 1, RSpurious 0] = Some rs1" ..
  from run have "\<exists>rs2. rstep rs1 (RCall_notify 1 One 1) = Some rs2"
    by (auto simp: synced_state_def rops_defs mutex_unlock_def r_notify_entry_def r_load_waiters_def)
  then obtain rs2 where st: "rstep rs1 (RCall_notify 1 One 1) = Some rs2" ..
  have "length (rpcs synced_state) < 2 ^ 64" "0 < length (rpcs synced_state)"
    "registered (rpcs synced_state ! 0)" "released (rpcs synced_state ! 0)"
    "rlock synced_state = Some 1" "RExec 0 \<notin> set [RUnlock 1, RSpurious 0]"
    by (simp_all add: synced_state_def)
  from relaxed_lock_then_notify [OF reach this(1-5) run this(6) st] run st show ?thesis by blast
qed

end
