(* ===== verification/Spec2Isabelle.thy ===== *)
theory Spec2Isabelle
  imports Properties Test_Outcome Fast_Path Monitor Progress Overflow Relaxed_Props
begin

text \<open>
  \<^bold>\<open>A verification development of the condition variable of \<^verbatim>\<open>src/src/cond_var.rs\<close>.\<close>

  \<^bold>\<open>The program.\<close> One component, \<open>Condvar\<close>, with two fields, \<open>counter\<close>
  (\<open>AtomicU32\<close>, a generation number) and \<open>num_waiters\<close> (\<open>AtomicUsize\<close>), and three
  methods. \<open>notify_one\<close> / \<open>notify_all\<close> (lines 20--31) load \<open>num_waiters\<close> and, if
  it is non-zero, bump \<open>counter\<close> and call \<open>wake_one\<close> / \<open>wake_all\<close> on its
  address. \<open>wait\<close> (lines 33--45) increments \<open>num_waiters\<close>, snapshots \<open>counter\<close>,
  drops the caller's mutex guard, blocks in \<open>atomic_wait::wait\<close> while \<open>counter\<close>
  still equals the snapshot, decrements \<open>num_waiters\<close> and locks the mutex again.
  Two collaborators are called and not part of the given sources: the mutex of
  \<open>crate::locks\<close> and the futex-like \<open>atomic_wait\<close> crate; both are modelled from
  their contracts in the spec (section 6). The test \<open>test_condvar\<close> (lines 56--83)
  is a client of the three methods.

  \<^bold>\<open>The theories.\<close>
  \<^item> \<open>Prelude\<close>: the machine types (\<open>u32\<close> = \<open>32 word\<close>, \<open>usize\<close> = \<open>64 word\<close>,
    a 64-bit target), thread ids, the \<open>step_simps\<close> collection, lemmas on lists
    updated by index.
  \<^item> \<open>Condvar\<close>: the record \<open>condvar\<close> (the struct, lines 7--10), \<open>condvar_new\<close>
    (lines 13--18) and one definition per atomic operation of the methods:
    \<open>has_waiters\<close> (lines 21 / 27), \<open>bump_counter\<close> (22 / 28, wrapping),
    \<open>register_waiter\<close> (34), \<open>snapshot\<close> (35), \<open>deregister_waiter\<close> (42, wrapping).
  \<^item> \<open>Futex\<close>: the queue of threads blocked on \<open>counter\<close>; \<open>futex_wait\<close>
    compares and enqueues atomically, \<open>futex_wake_one\<close> takes the thread to wake as
    an argument (the contract leaves the choice open), \<open>futex_wake_all\<close>.
  \<^item> \<open>Mutex\<close>: the lock as the option of its holder; \<open>mutex_lock\<close> is \<open>None\<close>
    while the call blocks; \<open>mutex_unlock\<close> is the guard's drop.
  \<^item> \<open>Interleaving\<close>: the concurrent semantics. The state \<open>sys\<close> holds the
    condition variable, the futex queue, the mutex and one program counter per
    thread (\<open>pc\<close>, named after the source line the thread executes next). One
    \<open>event\<close> is one atomic action of one thread: client code locking, unlocking,
    calling \<open>wait\<close> (\<open>wait_entry\<close>, line 34) or \<open>notify_*\<close> (\<open>notify_entry\<close>,
    line 21 / 27); the next line of a method (\<open>exec_pc\<close>); \<open>wake_one\<close> with its
    choice (\<open>wake_one_step\<close>); a spurious return of the futex, which its contract
    allows. \<open>step\<close> is the executable step function (\<open>None\<close>: not enabled),
    \<open>run\<close> runs a schedule, \<open>reachable\<close> is the inductive set of states reached
    from \<open>sys_init n\<close> (\<open>n\<close> threads, \<open>Condvar::new()\<close>, free mutex) by any
    interleaving.
  \<^item> \<open>Invariants\<close>: the invariant of every reachable state, by rule induction
    (\<open>reachable_sys_inv\<close>): \<open>num_waiters\<close> counts the threads between lines 34 and
    42 modulo \<open>2^64\<close>; the futex queue is exactly the blocked threads, without
    repetition; threads before line 38 hold the mutex, threads after it do not.
  \<^item> \<open>Properties\<close>: the behaviour of the notifications on every branch, the bounds
    of \<open>num_waiters\<close>, the lock discipline, the per-thread state machine of the spec
    (\<open>pc_edge\<close>), \<open>wait\<close> run alone, and the evolution of \<open>counter\<close> over a
    schedule (\<open>bumps\<close> counts the executed \<open>fetch_add\<close>s of \<open>counter\<close>).
  \<^item> \<open>Test_Condvar\<close>: the unit test \<open>test_condvar\<close> (lines 56--83) as a client
    program of two threads over \<open>Interleaving\<close>: \<open>main_step\<close> runs the body of the
    \<open>thread::scope\<close> closure and the code after the scope (lines 71--82),
    \<open>spawn_step\<close> the spawned closure (lines 65--69), \<open>test_step\<close> interleaves them
    with the condition variable's own steps; the two assertions are the error states
    \<open>M_Panic\<close> and \<open>M_Wakeups_Panic\<close>. \<open>wakeups\<close> is the \<open>i32\<close> of line 62:
    \<open>i32_add\<close> is its checked \<open>+= 1\<close> (line 74), whose overflow panics
    (\<open>M_Add_Panic\<close>) as in the test profile. Its invariant \<open>test_inv\<close> (by rule
    induction over \<open>test_reach\<close>, on top of \<open>reachable_sys_inv\<close>), the invariant
    \<open>wake_inv\<close> of the runs without spurious wake-ups, and a rank \<open>test_rank\<close>
    (23 at the start) that each step without a spurious wake-up decreases. It is split
    into \<open>Test_Condvar\<close> (the model, \<open>test_inv\<close>, concrete runs), \<open>Test_Wakeups\<close>
    (\<open>wake_inv\<close> and the count of returns \<open>spur_inv\<close>) and \<open>Test_Liveness\<close>
    (the rank, progress and completion).
  \<^item> \<open>Test_Outcome\<close>: the harness's verdict on \<open>#[test] fn test_condvar\<close>
    (\<open>test_result\<close>, \<open>test_outcome\<close>): passed when the function returns, failed
    with the message of the assertion that panicked, running otherwise.
  \<^item> \<open>Fast_Path\<close>: \<open>shift\<close> moves \<open>counter\<close> and every waiter's snapshot by the
    same number of generations; \<open>notify_unguarded\<close> is the reference notification,
    lines 22--23 / 28--29 without the guard of line 21 / 27.
  \<^item> \<open>Monitor\<close>: the abstract contract of a condition variable with a mutex
    (\<open>amon\<close>, \<open>astep\<close>, \<open>a_reach\<close>: a lock holder and, per thread, running,
    waiting or woken), the abstraction \<open>abs_sys\<close> of the implementation's state, and
    the simulation of each implementation step by at most one abstract step.
  \<^item> \<open>Progress\<close>: \<open>actor\<close>, the thread an event belongs to, and the progress of
    the threads: a mutex holder can always step, and so can every thread not blocked
    in the futex unless it waits for that holder.
  \<^item> \<open>Relaxed\<close>: the weak-memory model. \<open>rsys\<close> holds the history of each atomic
    (\<open>nw_hist\<close>, \<open>cnt_hist\<close>), one view per thread and the view the mutex releases;
    one definition per relaxed access (\<open>r_register\<close>, \<open>r_deregister\<close>,
    \<open>r_bump\<close>, \<open>r_load_waiters\<close>, \<open>r_snapshot\<close>) and the methods and step function
    (\<open>r_wait_entry\<close>, \<open>r_notify_entry\<close>, \<open>rexec_pc\<close>, \<open>rstep\<close>, \<open>rreachable\<close>)
    mirror \<open>Interleaving\<close>. \<open>proj\<close> maps a relaxed state to the state of
    \<open>Interleaving\<close> that keeps the last values, so \<open>sys_inv\<close> carries over. The
    invariants \<open>nw_inv\<close> (no value of \<open>num_waiters\<close> from a registered waiter's
    \<open>fetch_add\<close> on is 0) and \<open>mview_inv\<close> (the mutex carries every registration whose
    guard was dropped) hold in every reachable state.
  \<^item> \<open>Relaxed_Props\<close>: what the relaxed accesses guarantee and what they do not: the
    order the mutex gives to the load of \<open>num_waiters\<close>, and the generations of
    \<open>counter\<close> (\<open>cnt_gen\<close>) that a stale snapshot at line 35 may read.
  \<^item> \<open>Overflow\<close>: \<open>block_call\<close>, client code locking and blocking in \<open>wait\<close>,
    run by \<open>2^64\<close> threads one after the other (\<open>block_calls_run\<close>, by induction on
    the number of threads), which wraps the 64-bit \<open>num_waiters\<close> to 0.
  \<^item> This theory: the properties that span the futex, the mutex and the notifiers: no
    missed wake-up and its limit at the wrap of the 32-bit generation counter, the
    round trip of a spuriously returning \<open>wait\<close>, \<open>notify_one\<close> releasing every
    waiter between snapshot and futex call, and the broadcast of \<open>notify_all\<close> to any
    number of waiters. The frame lemmas \<open>step_keeps_pending_pc\<close> and
    \<open>run_keeps_pending_pc\<close> of \<open>Properties\<close> carry a waiter's snapshot across the
    steps of the other threads.

  \<^bold>\<open>What is shown.\<close> A notifier always sees a thread that is inside \<open>wait\<close> (C2);
  a waiter that takes its snapshot at line 35, drops its guard and calls the futex, with
  any steps of the other threads in between, blocks at line 40 exactly when the number of
  notifications since its snapshot is a multiple of \<open>2^32\<close> (C1), so it never misses
  fewer than \<open>2^32\<close> of them; once blocked, \<open>notify_all\<close> wakes it (C3) and \<open>notify_one\<close> wakes exactly one
  blocked thread (C4); notifications never block (C9) and are no-ops without waiters
  (C10); \<open>num_waiters\<close> never wraps with fewer than \<open>2^64\<close> threads (C5); the
  snapshot is taken under the lock and the lock is free while the waiter is blocked
  (C7, C8); \<open>counter\<close> only moves at the \<open>fetch_add\<close> of a notification (C11); every
  thread follows the spec's state machine (C12). C15 shows that exactly \<open>2^32\<close>
  notifications between the snapshot and the futex call are lost: the spec's "never
  loses a notification that happens strictly after the snapshot" holds only up to
  the wrap of \<open>counter\<close>.

  The fast path of the notifications is sound: the absolute generation is
  unobservable (C23), and with no waiter seen the guarded call and the unguarded one
  differ only by one generation (C24). A \<open>wait\<close> that returns spuriously with nothing in
  between restores the whole state, \<open>num_waiters\<close>' wrapping increment and decrement
  cancelling (C25). One \<open>notify_one\<close> releases every waiter that is between its
  snapshot and the futex call, however many (C26): the spec's "picks one of the currently
  blocked threads" describes only the futex wake. The implementation refines the monitor
  contract step by step (C27). No thread is stuck outside the futex: it can step, or
  it waits at line 44 for a holder of the mutex that can (C29). With any number of threads, one
  \<open>notify_all\<close> releases every blocked waiter and all of them return from \<open>wait\<close>,
  leaving \<open>num_waiters\<close> at 0 (C30).
  The bound of \<open>2^64\<close> threads in C2 and C5 is tight: \<open>2^64\<close> blocked waiters wrap
  \<open>num_waiters\<close> to 0, and then \<open>notify_one\<close> and \<open>notify_all\<close> take the fast path
  and wake nobody (theory \<open>Overflow\<close>, C32).

  For the test: under any interleaving and any number of spurious wake-ups the main thread
  reads \<open>*m\<close> only while it holds the mutex, also after \<open>wait\<close> has returned, and
  \<open>assert_eq!(*m, 123)\<close> never fails (C16), and the main thread is never blocked in the futex
  after \<open>notify_one\<close> has returned (C17). Without spurious wake-ups the loop body runs
  at most once (C18), every schedule has at most 23 steps (C19, the rank bound) and
  some schedule always completes both threads (C21); no reachable state other than
  the end and the panics deadlocks (C20). With nine spurious wake-ups
  \<open>assert!(wakeups < 10)\<close> fails (C22): the
  test's bound is not implied by the futex contract; in every run \<open>wakeups\<close> is at
  most the number of spurious wake-ups plus one, so up to eight are tolerated (C28);
  \<open>wakeups\<close> stays an \<open>i32\<close>, and its overflow needs \<open>i32::MAX\<close> spurious
  wake-ups (C31).
  Put together: with at most eight spurious wake-ups, every run of the test that can go
  no further has the verdict \<open>Test_Passed\<close> (C33).

  Under the \<open>Relaxed\<close> orderings: a notifier that the waiter's \<open>fetch_add\<close> happens
  before always sees a non-zero count (C34). The mutex provides that order to every
  later holder (C35); a notifier without it can read 0 and skip a blocked waiter (lemma
  \<open>relaxed_notify_lost\<close>). The snapshot of line 35 may read a generation older than
  the last; such a waiter blocks at line 40 only across a multiple of \<open>2^32\<close>
  notifications after the value it read, so a stale snapshot makes \<open>wait\<close> return
  early and never blocks it against a newer generation (C36).
  The spec's no-missed-wake-up test holds under \<open>Relaxed\<close> when the notifier takes
  the mutex after the waiter dropped its guard. Whatever happens in between, as long as
  the waiter stays in its call of \<open>wait\<close>, the notifier's later \<open>notify\<close> bumps the
  generation. This is the pattern of \<open>test_condvar\<close> (C37).

  \<^bold>\<open>Modelling choices and limits.\<close> \<open>Interleaving\<close> runs the atomics sequentially
  consistently. \<open>Relaxed\<close> runs them again under a view-based weak-memory semantics,
  the promise-free fragment of the promising semantics. Relaxed loads may return stale
  values, the mutex synchronises by release and acquire, and the futex compares against
  the current value. Load buffering, which needs promises, is not covered. Integers keep
  their width: \<open>counter\<close> and \<open>num_waiters\<close> wrap as \<open>u32\<close> and \<open>usize\<close> do in
  release builds of \<open>fetch_add\<close> and \<open>fetch_sub\<close>; the test's \<open>wakeups\<close> is an
  \<open>i32\<close> whose \<open>+= 1\<close> panics on overflow, as the test profile checks it. The number of
  threads is fixed per run (the length
  of \<open>pcs\<close>); bounds that need it assume fewer than \<open>2^64\<close> threads. No fuel is
  used: every model function is total, and blocking is a step that is not enabled.
  Liveness is stated as the existence of enabling steps (C9), not under a fairness
  assumption; for the test, termination without spurious wake-ups is a bound on every
  schedule (C19), and completion is the existence of a completing schedule (C21).
  \<open>thread::sleep\<close> of the test is a step without effect: time is not modelled, so
  all interleavings count, not only the likely one in which the main thread waits first.

  \<^bold>\<open>Not modelled.\<close> The bodies of \<open>crate::locks\<close> and \<open>atomic_wait\<close> (not in
  the given sources: modelled from their contracts), load-buffering behaviours of the
  \<open>Relaxed\<close> accesses, and the \<open>'a\<close> lifetime and generic \<open>T\<close> of \<open>wait\<close>, which do not affect its
  behaviour.
\<close>

definition notify_all_call :: "tid \<Rightarrow> event list" where
  "notify_all_call t = [Call_notify t All, Exec t, Exec t]"

definition wait_spurious_call :: "tid \<Rightarrow> event list" where
  "wait_spurious_call t = [Call_wait t, Exec t, Exec t, Exec t, Spurious t, Exec t, Exec t]"

text \<open>Three threads: threads 0 and 1 have each locked the mutex, called \<open>wait\<close>,
  taken the snapshot 0 and dropped the guard (lines 34--38); neither has reached the futex
  call of line 40 yet. Thread 2 is in client code.\<close>

definition two_pending :: sys where
  "two_pending = \<lparr>cv = \<lparr>counter = 0, num_waiters = 2\<rparr>, futex = [], lock = None,
     pcs = [Wait_Futex 0, Wait_Futex 0, Idle]\<rparr>"

text \<open>A woken waiter finishing \<open>wait\<close> (lines 42 and 44) and dropping the guard it
  gets back.\<close>

definition return_call :: "tid \<Rightarrow> event list" where
  "return_call w = [Exec w, Exec w, Unlock w]"

lemma notify_all_call_bumps:
  assumes "u < length (pcs x)" and "pcs x ! u = Idle" and "futex x = []" and "has_waiters (cv x)"
  shows "run x (notify_all_call u) = Some (x\<lparr>cv := bump_counter (cv x)\<rparr>) \<and>
         bumps x (notify_all_call u) = 1"
proof -
  from assms(1,2) have "(pcs x)[u := Idle] = pcs x" by (simp add: list_update_same_conv)
  with assms have "x\<lparr>cv := bump_counter (cv x), futex := [], pcs := (pcs x)[u := Idle]\<rparr> =
      x\<lparr>cv := bump_counter (cv x)\<rparr>" by simp
  with assms show ?thesis
    by (simp add: notify_all_call_def notify_entry_def set_pc_def is_bump_def futex_wake_all_def)
qed

text \<open>
  C1. No missed wake-up, up to the wrap of \<open>counter\<close>. Let a waiter take its
  snapshot (line 35, from \<open>Wait_Load\<close>), let any interleaving of the other threads
  follow, let the waiter drop its guard (line 38), let any interleaving of the other
  threads follow again, and let the waiter then execute line 40. It blocks exactly when
  the number of notifications that bumped \<open>counter\<close> since its snapshot is a multiple
  of \<open>2^32\<close>: one to \<open>2^32 - 1\<close> notifications after the snapshot are never missed.
\<close>

theorem futex_blocks_iff_bumps:
  assumes r0: "reachable s0" and l: "pcs s0 ! w = Wait_Load"
    and r: "run s0 (Exec w # es1 @ Exec w # es2) = Some s2"
    and n1: "Exec w \<notin> set es1" and n2: "Exec w \<notin> set es2"
    and st: "step s2 (Exec w) = Some s3"
  shows "blocked (pcs s3 ! w) \<longleftrightarrow> 2 ^ 32 dvd bumps s0 (Exec w # es1 @ Exec w # es2)"
proof -
  let ?c = "counter (cv s0)"
  from r obtain s where s0: "step s0 (Exec w) = Some s" and rs: "run s (es1 @ Exec w # es2) = Some s2"
    by (auto split: option.splits)
  from s0 have w: "w < length (pcs s0)" by (simp split: if_splits)
  with l s0 have s: "s = set_pc w (Wait_Drop ?c) s0" by (simp add: step_simps)
  from rs obtain s1 where r1: "run s es1 = Some s1" and r2: "run s1 (Exec w # es2) = Some s2"
    by (auto simp: run_append split: option.splits)
  from r2 obtain s1' where st1: "step s1 (Exec w) = Some s1'" and r2': "run s1' es2 = Some s2"
    by (auto split: option.splits)
  have re: "reachable s" by (rule reachable.step [OF r0 s0])
  from s w have ws: "w < length (pcs s)" by simp
  from run_keeps_pending_pc [OF re r1 n1 ws] s w have p1: "pcs s1 ! w = Wait_Drop ?c" by simp
  from run_length [OF r1] ws have ws1: "w < length (pcs s1)" by simp
  with p1 st1 have s1': "s1' = set_pc w (Wait_Futex ?c) (s1\<lparr>lock := mutex_unlock (lock s1)\<rparr>)" by simp
  from s1' ws1 have ws1': "w < length (pcs s1')" by simp
  have re1': "reachable s1'" by (rule reachable.step [OF run_reachable [OF re r1] st1])
  from run_keeps_pending_pc [OF re1' r2' n2 ws1'] s1' ws1 have p2: "pcs s2 ! w = Wait_Futex ?c" by simp
  from run_length [OF r2'] ws1' have ws2: "w < length (pcs s2)" by simp
  with p2 st have "pcs s3 ! w = (if counter (cv s2) = ?c then Wait_Blocked ?c else Wait_Dec)"
    by (auto simp: futex_wait_def)
  moreover from run_counter [OF r]
  have "counter (cv s2) = ?c + of_nat (bumps s0 (Exec w # es1 @ Exec w # es2))" .
  ultimately show ?thesis by (simp add: word_of_nat_eq_0_iff)
qed

theorem futex_blocks_iff_bumps_witness:
  "run demo_waiting (Exec 0 # [] @ Exec 0 # [Call_notify 1 All, Exec 1, Exec 1]) =
     Some \<lparr>cv = \<lparr>counter = 1, num_waiters = 1\<rparr>, futex = [], lock = None, pcs = [Wait_Futex 0, Idle]\<rparr> \<and>
   step \<lparr>cv = \<lparr>counter = 1, num_waiters = 1\<rparr>, futex = [], lock = None, pcs = [Wait_Futex 0, Idle]\<rparr> (Exec 0) =
     Some \<lparr>cv = \<lparr>counter = 1, num_waiters = 1\<rparr>, futex = [], lock = None, pcs = [Wait_Dec, Idle]\<rparr> \<and>
   bumps demo_waiting (Exec 0 # [] @ Exec 0 # [Call_notify 1 All, Exec 1, Exec 1]) = 1 \<and>
   \<not> blocked Wait_Dec"
proof -
  let ?s2 = "\<lparr>cv = \<lparr>counter = 1, num_waiters = 1\<rparr>, futex = [], lock = None, pcs = [Wait_Futex 0, Idle]\<rparr>"
  let ?s3 = "\<lparr>cv = \<lparr>counter = 1, num_waiters = 1\<rparr>, futex = [], lock = None, pcs = [Wait_Dec, Idle]\<rparr>"
  let ?es = "Exec 0 # [] @ Exec 0 # [Call_notify 1 All, Exec 1, Exec 1]"
  have r: "run demo_waiting ?es = Some ?s2"
    by (simp add: demo_waiting_def step_simps set_pc_def notify_entry_def)
  have b: "bumps demo_waiting ?es = 1"
    by (simp add: demo_waiting_def step_simps set_pc_def notify_entry_def is_bump_def)
  have s3: "step ?s2 (Exec 0) = Some ?s3" by (simp add: step_simps set_pc_def)
  from futex_blocks_iff_bumps [OF demo_reachable(1) _ r _ _ s3] b
  have "blocked (pcs ?s3 ! 0) \<longleftrightarrow> 2 ^ 32 dvd (1::nat)" by (simp add: demo_waiting_def)
  with r b s3 show ?thesis by simp
qed

lemma notify_all_cycles:
  assumes "u < length (pcs x)" and "pcs x ! u = Idle" and "futex x = []" and "has_waiters (cv x)"
  shows "run x (concat (replicate n (notify_all_call u))) =
           Some (x\<lparr>cv := (cv x)\<lparr>counter := counter (cv x) + of_nat n\<rparr>\<rparr>) \<and>
         bumps x (concat (replicate n (notify_all_call u))) = n"
  using assms
proof (induction n arbitrary: x)
  case 0
  then show ?case by simp
next
  case (Suc n)
  let ?x1 = "x\<lparr>cv := bump_counter (cv x)\<rparr>"
  from notify_all_call_bumps [OF Suc.prems] have r1: "run x (notify_all_call u) = Some ?x1"
    and b1: "bumps x (notify_all_call u) = 1" by simp_all
  from Suc.prems have "u < length (pcs ?x1)" "pcs ?x1 ! u = Idle" "futex ?x1 = []" "has_waiters (cv ?x1)"
    by (simp_all add: has_waiters_def)
  note IH = Suc.IH [OF this]
  from r1 IH show ?case
    by (simp add: run_append bumps_append [OF r1] b1 bump_counter_def add.assoc)
qed

lemma return_calls_run:
  assumes "distinct ws" and "\<forall>w \<in> set ws. w < length (pcs x) \<and> pcs x ! w = Wait_Dec" and "lock x = None"
  shows "run x (concat (map return_call ws)) =
           Some (x\<lparr>cv := (cv x)\<lparr>num_waiters := num_waiters (cv x) - of_nat (length ws)\<rparr>,
                   pcs := fold (\<lambda>w ps. ps[w := Idle]) ws (pcs x)\<rparr>)"
  using assms
proof (induction ws arbitrary: x)
  case Nil
  then show ?case by simp
next
  case (Cons w ws)
  let ?x1 = "x\<lparr>cv := (cv x)\<lparr>num_waiters := num_waiters (cv x) - 1\<rparr>, pcs := (pcs x)[w := Idle]\<rparr>"
  from Cons.prems have w: "w < length (pcs x)" "pcs x ! w = Wait_Dec" by simp_all
  with Cons.prems(3) have r1: "run x (return_call w) = Some ?x1"
    by (simp add: return_call_def step_simps set_pc_def mutex_lock_def)
  from Cons.prems have "distinct ws" "\<forall>v \<in> set ws. v < length (pcs ?x1) \<and> pcs ?x1 ! v = Wait_Dec"
    "lock ?x1 = None" by (auto simp: nth_list_update)
  note IH = Cons.IH [OF this]
  from r1 IH show ?case by (simp add: run_append algebra_simps)
qed

lemma length_fold_idle [simp]: "length (fold (\<lambda>w ps. ps[w := Idle]) ws xs) = length xs"
  by (induction ws arbitrary: xs) simp_all

lemma fold_idle_nth:
  "i < length xs \<Longrightarrow> fold (\<lambda>w ps. ps[w := Idle]) ws xs ! i = (if i \<in> set ws then Idle else xs ! i)"
  by (induction ws arbitrary: xs) auto

lemma notify_all_call_run:
  assumes r: "reachable s" and u: "u < length (pcs s)" "pcs s ! u = Idle" and h: "has_waiters (cv s)"
  shows "run s (notify_all_call u) =
           Some (s\<lparr>cv := bump_counter (cv s), futex := [], pcs := map unblock (pcs s)\<rparr>)"
proof -
  let ?s1 = "set_pc u (Notify_Inc All) s"
  let ?s2 = "set_pc u (Notify_Wake All) (?s1\<lparr>cv := bump_counter (cv ?s1)\<rparr>)"
  have r12: "run s [Call_notify u All, Exec u] = Some ?s2"
    using u h by (simp add: notify_entry_def set_pc_def)
  then have r2: "reachable ?s2" by (rule run_reachable [OF r])
  have "futex ?s2 = futex s" by simp
  from wake_all_result [OF r2] this
  have "wake_threads (futex s) (?s2\<lparr>futex := []\<rparr>) = ?s2\<lparr>futex := [], pcs := map unblock (pcs ?s2)\<rparr>"
    by simp
  moreover from u have "(map unblock ((pcs s)[u := Notify_Wake All]))[u := Idle] = map unblock (pcs s)"
    by (simp add: map_update list_update_same_conv unblock_def)
  moreover have "notify_all_call u = [Call_notify u All, Exec u] @ [Exec u]"
    by (simp add: notify_all_call_def)
  ultimately show ?thesis using r12 u
    by (simp only: run_append option.case) (simp add: set_pc_def futex_wake_all_def)
qed

text \<open>
  C15. The limit of C1 is reached: there is a run in which a waiter takes its
  snapshot, exactly \<open>2^32\<close> calls of \<open>notify_all\<close> then each see it registered and
  bump \<open>counter\<close> (waking nobody, as the waiter has not reached the futex yet), and
  the waiter then blocks at line 40 on a counter that is back at its snapshot.
\<close>

theorem aba_lost_notifications:
  "\<exists>s0 s es s' s''. reachable s0 \<and> pcs s0 ! 0 = Wait_Load \<and> step s0 (Exec 0) = Some s \<and>
     run s es = Some s' \<and> bumps s es = 2 ^ 32 \<and> pcs s' ! 0 = Wait_Futex (counter (cv s0)) \<and>
     step s' (Exec 0) = Some s'' \<and> pcs s'' ! 0 = Wait_Blocked (counter (cv s0)) \<and> futex s'' = [0]"
proof -
  define s0 where "s0 = \<lparr>cv = \<lparr>counter = 0, num_waiters = 1\<rparr>, futex = [], lock = Some 0,
      pcs = [Wait_Load, Idle]\<rparr>"
  define s where "s = \<lparr>cv = \<lparr>counter = 0, num_waiters = 1\<rparr>, futex = [], lock = Some 0,
      pcs = [Wait_Drop 0, Idle]\<rparr>"
  define x where "x = \<lparr>cv = \<lparr>counter = 0, num_waiters = 1\<rparr>, futex = [], lock = None,
      pcs = [Wait_Futex 0, Idle]\<rparr>"
  define es where "es = Exec 0 # concat (replicate (2 ^ 32) (notify_all_call 1))"
  have "run (sys_init 2) [Lock 0, Call_wait 0] = Some s0"
    by (simp add: s0_def sys_init_def condvar_new_def step_simps wait_entry_def set_pc_def numeral_2_eq_2)
  then have r0: "reachable s0" by (rule reachable_run_init)
  have s: "step s0 (Exec 0) = Some s" by (simp add: s0_def s_def step_simps set_pc_def)
  have sx: "step s (Exec 0) = Some x" by (simp add: s_def x_def step_simps set_pc_def)
  have "run x (concat (replicate (2 ^ 32) (notify_all_call 1))) =
          Some (x\<lparr>cv := (cv x)\<lparr>counter := counter (cv x) + of_nat (2 ^ 32)\<rparr>\<rparr>) \<and>
        bumps x (concat (replicate (2 ^ 32) (notify_all_call 1))) = 2 ^ 32"
    by (rule notify_all_cycles) (simp_all add: x_def has_waiters_def)
  then have rx: "run x (concat (replicate (2 ^ 32) (notify_all_call 1))) = Some x"
    and bx: "bumps x (concat (replicate (2 ^ 32) (notify_all_call 1))) = 2 ^ 32"
    by (simp_all add: x_def)
  have run: "run s es = Some x"
    unfolding es_def by (simp only: run.simps sx rx option.case)
  have bumps: "bumps s es = 2 ^ 32"
    unfolding es_def by (simp only: bumps.simps sx bx option.case) (simp add: is_bump_def s_def)
  define s'' where "s'' = \<lparr>cv = \<lparr>counter = 0, num_waiters = 1\<rparr>, futex = [0], lock = None,
      pcs = [Wait_Blocked 0, Idle]\<rparr>"
  have "step x (Exec 0) = Some s''" by (simp add: x_def s''_def step_simps set_pc_def)
  with r0 s run bumps show ?thesis
    by (intro exI [of _ s0] exI [of _ s] exI [of _ es] exI [of _ x] exI [of _ s''])
      (simp add: s0_def x_def s''_def)
qed

text \<open>
  C25. A call of \<open>wait\<close> that returns spuriously, with no other thread stepping in
  between, is a round trip: the registration of line 34 and the deregistration of
  line 42 cancel in 64-bit wrapping arithmetic, the futex queue gets its waiter back
  out, and the mutex is held again by the caller; the whole state is as before.
\<close>

theorem wait_spurious_roundtrip:
  assumes r: "reachable s" and t: "t < length (pcs s)" and i: "pcs s ! t = Idle"
    and l: "lock s = Some t"
  shows "run s (wait_spurious_call t) = Some s"
proof -
  have nq: "t \<notin> set (futex s)"
  proof
    assume "t \<in> set (futex s)"
    from reachable_queue_blocked [OF r this] i show False by simp
  qed
  from t i have same: "(pcs s)[t := Idle] = pcs s" by (simp add: list_update_same_conv)
  from nq have rm: "remove1 t (futex s @ [t]) = futex s" by (simp add: remove1_append)
  show ?thesis
    using t i l same rm
    by (simp add: wait_spurious_call_def wait_entry_def set_pc_def step_simps mutex_lock_def)
qed

theorem wait_spurious_roundtrip_witness:
  "run \<lparr>cv = condvar_new, futex = [], lock = Some 0, pcs = [Idle, Idle]\<rparr> (wait_spurious_call 0) =
   Some \<lparr>cv = condvar_new, futex = [], lock = Some 0, pcs = [Idle, Idle]\<rparr>"
proof -
  have "run (sys_init 2) [Lock 0] = Some \<lparr>cv = condvar_new, futex = [], lock = Some 0, pcs = [Idle, Idle]\<rparr>"
    by (simp add: sys_init_def numeral_2_eq_2 mutex_lock_def)
  from wait_spurious_roundtrip [OF reachable_run_init [OF this]] show ?thesis by simp
qed

lemma run_stale_futex:
  "distinct ws \<Longrightarrow> \<forall>w\<in>set ws. w < length (pcs x) \<and> pcs x ! w = Wait_Futex c \<Longrightarrow>
   counter (cv x) \<noteq> c \<Longrightarrow>
   \<exists>x'. run x (map Exec ws) = Some x' \<and> bumps x (map Exec ws) = 0 \<and>
     length (pcs x') = length (pcs x) \<and>
     (\<forall>j < length (pcs x). pcs x' ! j = (if j \<in> set ws then Wait_Dec else pcs x ! j))"
proof (induction ws arbitrary: x)
  case Nil
  then show ?case by simp
next
  case (Cons w ws)
  from Cons.prems(2) have w: "w < length (pcs x)" and pw: "pcs x ! w = Wait_Futex c" by simp_all
  let ?x1 = "set_pc w Wait_Dec x"
  from w pw Cons.prems(3) have st: "step x (Exec w) = Some ?x1"
    by (simp add: futex_wait_def set_pc_def)
  from pw have nb: "\<not> is_bump x (Exec w)" by (simp add: is_bump_def)
  from Cons.prems(1,2) w have p1: "\<forall>v\<in>set ws. v < length (pcs ?x1) \<and> pcs ?x1 ! v = Wait_Futex c"
    by (auto simp: nth_list_update)
  from Cons.prems(3) have c1: "counter (cv ?x1) \<noteq> c" by simp
  from Cons.prems(1) have d: "distinct ws" by simp
  from Cons.IH [OF d p1 c1] obtain x' where r: "run ?x1 (map Exec ws) = Some x'"
    and b: "bumps ?x1 (map Exec ws) = 0" and l: "length (pcs x') = length (pcs ?x1)"
    and p: "\<forall>j < length (pcs ?x1). pcs x' ! j = (if j \<in> set ws then Wait_Dec else pcs ?x1 ! j)"
    by blast
  from st nb r b l p w show ?case by auto
qed

lemma two_pending_reachable: "reachable two_pending"
proof -
  have "run (sys_init 3) [Lock 0, Call_wait 0, Exec 0, Exec 0, Lock 1, Call_wait 1, Exec 1, Exec 1] =
        Some two_pending"
    by (simp add: two_pending_def sys_init_def numeral_3_eq_3 condvar_new_def step_simps
        wait_entry_def set_pc_def)
  then show ?thesis by (rule reachable_run_init)
qed

text \<open>
  C26. One \<open>notify_one\<close> releases every waiter that is between its snapshot and the
  futex call. In a reachable state (fewer than \<open>2^64\<close> threads) where the threads
  \<open>ws\<close> have dropped their guard with the current generation as snapshot, a call of
  \<open>notify_one\<close> by another thread sees them (line 21) and bumps \<open>counter\<close> once
  (line 22); then each of them executes line 40 and returns from the futex, all before the
  notifier's \<open>wake_one\<close> has run. The spec's "picks one of the currently blocked
  threads" describes only the futex wake: no spurious wake-up is involved.
\<close>

theorem notify_one_releases_pending:
  assumes r: "reachable s" and n: "length (pcs s) < 2 ^ 64"
    and u: "u < length (pcs s)" "pcs s ! u = Idle"
    and ws: "distinct ws" "ws \<noteq> []"
    and p: "\<forall>w\<in>set ws. w < length (pcs s) \<and> pcs s ! w = Wait_Futex (counter (cv s))"
  shows "\<exists>s'. run s ([Call_notify u One, Exec u] @ map Exec ws) = Some s' \<and>
    bumps s ([Call_notify u One, Exec u] @ map Exec ws) = 1 \<and>
    pcs s' ! u = Notify_Wake One \<and> (\<forall>w\<in>set ws. pcs s' ! w = Wait_Dec)"
proof -
  let ?c = "counter (cv s)"
  from ws(2) obtain w0 where w0: "w0 \<in> set ws" by (cases ws) auto
  with p have "registered (pcs s ! w0)" "w0 < length (pcs s)" by simp_all
  then have "0 < length (filter registered (pcs s))"
    by (auto simp: length_filter_conv_card card_gt_0_iff)
  with unat_num_waiters [OF r n] have "unat (num_waiters (cv s)) \<noteq> 0" by simp
  then have hw: "has_waiters (cv s)" by (simp add: has_waiters_def unat_eq_zero word_gt_0)
  let ?s1 = "set_pc u (Notify_Inc One) s"
  let ?s2 = "set_pc u (Notify_Wake One) (?s1\<lparr>cv := bump_counter (cv ?s1)\<rparr>)"
  from u hw have st1: "step s (Call_notify u One) = Some ?s1" by (simp add: notify_entry_def)
  from u have st2: "step ?s1 (Exec u) = Some ?s2" by simp
  have c2: "counter (cv ?s2) = ?c + 1" by (simp add: bump_counter_def)
  from p u have uw: "u \<notin> set ws" by auto
  from p u uw have p2: "\<forall>w\<in>set ws. w < length (pcs ?s2) \<and> pcs ?s2 ! w = Wait_Futex ?c"
    by (auto simp: nth_list_update)
  from run_stale_futex [OF ws(1) p2] c2 obtain s' where r3: "run ?s2 (map Exec ws) = Some s'"
    and b3: "bumps ?s2 (map Exec ws) = 0"
    and p3: "\<forall>j < length (pcs ?s2). pcs s' ! j = (if j \<in> set ws then Wait_Dec else pcs ?s2 ! j)"
    by auto
  from u have bump: "is_bump ?s1 (Exec u)" and nb: "\<not> is_bump s (Call_notify u One)"
    by (simp_all add: is_bump_def)
  from st1 st2 r3 b3 bump nb
  have "run s ([Call_notify u One, Exec u] @ map Exec ws) = Some s' \<and>
        bumps s ([Call_notify u One, Exec u] @ map Exec ws) = 1"
    by simp
  moreover from p3 u uw have "pcs s' ! u = Notify_Wake One" by simp
  moreover from p3 p have "\<forall>w\<in>set ws. pcs s' ! w = Wait_Dec" by simp
  ultimately show ?thesis by blast
qed

theorem notify_one_releases_pending_witness:
  "\<exists>s'. run two_pending ([Call_notify 2 One, Exec 2] @ map Exec [0, 1]) = Some s' \<and>
     bumps two_pending ([Call_notify 2 One, Exec 2] @ map Exec [0, 1]) = 1 \<and>
     pcs s' ! 2 = Notify_Wake One \<and> (\<forall>w\<in>set [0, 1]. pcs s' ! w = Wait_Dec)"
proof -
  have "length (pcs two_pending) < 2 ^ 64" "2 < length (pcs two_pending)" "pcs two_pending ! 2 = Idle"
    "distinct [0::nat, 1]" "[0::nat, 1] \<noteq> []"
    "\<forall>w\<in>set [0, 1]. w < length (pcs two_pending) \<and>
       pcs two_pending ! w = Wait_Futex (counter (cv two_pending))"
    by (simp_all add: two_pending_def)
  from notify_one_releases_pending [OF two_pending_reachable this] show ?thesis .
qed

text \<open>
  C30. Broadcast: in a reachable state in which every thread but \<open>u\<close> is blocked in
  the futex and the mutex is free, \<open>notify_all\<close> by \<open>u\<close> releases them all, and the
  waiters then finish \<open>wait\<close> one after the other in the order of the queue, each taking
  the mutex at line 44 and dropping it again; at the end every thread is back in client
  code, \<open>num_waiters\<close> is 0 and the generation has moved by one.
\<close>

theorem broadcast_all_return:
  assumes r: "reachable s" and u: "u < length (pcs s)" "pcs s ! u = Idle" and l: "lock s = None"
    and b: "\<forall>w < length (pcs s). w \<noteq> u \<longrightarrow> blocked (pcs s ! w)"
    and n: "2 \<le> length (pcs s)" "length (pcs s) < 2 ^ 64"
  shows "run s (notify_all_call u @ concat (map return_call (futex s))) =
           Some \<lparr>cv = \<lparr>counter = counter (cv s) + 1, num_waiters = 0\<rparr>, futex = [], lock = None,
                 pcs = replicate (length (pcs s)) Idle\<rparr>"
proof -
  from reachable_queue [OF r] have d: "distinct (futex s)"
    and q: "set (futex s) = {w. w < length (pcs s) \<and> blocked (pcs s ! w)}" by (simp_all add: queue_inv_def)
  from q b u have qs: "set (futex s) = {w. w < length (pcs s) \<and> w \<noteq> u}" by auto
  have "filter registered (pcs s) = filter blocked (pcs s)"
  proof (rule filter_cong)
    fix p assume "p \<in> set (pcs s)"
    then obtain i where "i < length (pcs s)" "p = pcs s ! i" by (auto simp: in_set_conv_nth)
    with b u show "registered p = blocked p" by (cases "i = u") (auto dest: blocked_registered)
  qed simp
  then have "length (filter registered (pcs s)) = card (set (futex s))"
    by (simp add: length_filter_conv_card q)
  with reachable_waiters [OF r] d have nw: "num_waiters (cv s) = of_nat (length (futex s))"
    by (simp add: distinct_card)
  have "\<exists>w. w < length (pcs s) \<and> w \<noteq> u"
    by (rule exI [of _ "if u = 0 then 1 else 0"]) (use n in auto)
  then obtain w where "w < length (pcs s)" "w \<noteq> u" by blast
  with qs have pos: "0 < length (futex s)" by (cases "futex s") auto
  have "card (set (futex s)) \<le> card {..<length (pcs s)}" by (rule card_mono) (auto simp: qs)
  with d n have small: "length (futex s) < 2 ^ 64" by (simp add: distinct_card)
  from pos small have "\<not> 2 ^ 64 dvd length (futex s)" by (auto dest: nat_dvd_not_less)
  with nw have h: "has_waiters (cv s)"
    by (simp add: has_waiters_def word_gt_0 word_of_nat_eq_0_iff)
  let ?x = "s\<lparr>cv := bump_counter (cv s), futex := [], pcs := map unblock (pcs s)\<rparr>"
  have "\<forall>w \<in> set (futex s). w < length (pcs ?x) \<and> pcs ?x ! w = Wait_Dec"
    using q by (simp add: unblock_def)
  from return_calls_run [OF d this] l
  have ret: "run ?x (concat (map return_call (futex s))) =
      Some (?x\<lparr>cv := (cv ?x)\<lparr>num_waiters := num_waiters (cv ?x) - of_nat (length (futex s))\<rparr>,
              pcs := fold (\<lambda>w ps. ps[w := Idle]) (futex s) (pcs ?x)\<rparr>)" by simp
  have "fold (\<lambda>w ps. ps[w := Idle]) (futex s) (map unblock (pcs s)) = replicate (length (pcs s)) Idle"
  proof (rule nth_equalityI)
    fix i assume "i < length (fold (\<lambda>w ps. ps[w := Idle]) (futex s) (map unblock (pcs s)))"
    then have i: "i < length (pcs s)" by simp
    with qs u show "fold (\<lambda>w ps. ps[w := Idle]) (futex s) (map unblock (pcs s)) ! i =
        replicate (length (pcs s)) Idle ! i"
      by (simp add: fold_idle_nth unblock_def)
  qed simp
  with notify_all_call_run [OF r u h] ret nw l show ?thesis
    by (cases s) (simp add: run_append bump_counter_def)
qed

theorem broadcast_all_return_witness:
  "run \<lparr>cv = \<lparr>counter = 0, num_waiters = 2\<rparr>, futex = [0, 1], lock = None,
        pcs = [Wait_Blocked 0, Wait_Blocked 0, Idle]\<rparr> (notify_all_call 2 @ concat (map return_call [0, 1])) =
   Some \<lparr>cv = \<lparr>counter = 1, num_waiters = 0\<rparr>, futex = [], lock = None, pcs = [Idle, Idle, Idle]\<rparr>"
proof -
  let ?s = "\<lparr>cv = \<lparr>counter = 0, num_waiters = 2\<rparr>, futex = [0, 1], lock = None,
        pcs = [Wait_Blocked 0, Wait_Blocked 0, Idle]\<rparr>"
  have "run (sys_init 3)
      [Lock 0, Call_wait 0, Exec 0, Exec 0, Exec 0, Lock 1, Call_wait 1, Exec 1, Exec 1, Exec 1] = Some ?s"
    by (simp add: sys_init_def numeral_3_eq_3 condvar_new_def step_simps wait_entry_def set_pc_def)
  then have r: "reachable ?s" by (rule reachable_run_init)
  have "2 < length (pcs ?s)" "pcs ?s ! 2 = Idle" "lock ?s = None"
    "\<forall>w < length (pcs ?s). w \<noteq> 2 \<longrightarrow> blocked (pcs ?s ! w)"
    "2 \<le> length (pcs ?s)" "length (pcs ?s) < 2 ^ 64"
    by (auto simp: less_Suc_eq numeral_3_eq_3)
  from broadcast_all_return [OF r this] show ?thesis by (simp add: numeral_3_eq_3)
qed

end
